(* ===== verification/Mesh_Prelude.thy ===== *)
theory Mesh_Prelude
  imports Main "HOL-Library.Word" "HOL-Library.List_Lexorder" "HOL-Library.Product_Lexorder"
    "HOL-Library.Sublist" "HOL-Library.Multiset"
begin

text \<open>
  The shared prelude of the mesh-talk development: the machine types of the Rust sources, the
  arithmetic of the standard library the sources call (\<open>checked_add\<close>, \<open>saturating_add\<close>,
  \<open>saturating_sub\<close>, \<open>to_le_bytes\<close>, \<open>to_be_bytes\<close>), ascending lists as the
  model of \<open>BTreeSet\<close>, and the generic lemmas on lists, maps and words that the component
  theories use.

  A 32-byte array \<open>[u8; 32]\<close> is a 256-bit word, its first byte the most significant one.
  Rust compares arrays lexicographically, which is the order of these words
  (\<open>array_bytes_less\<close>).
\<close>

named_theorems mesh_defs \<open>definitions unfolded when an operation is evaluated\<close>

section \<open>Machine types\<close>

type_synonym u8 = "8 word"
type_synonym u16 = "16 word"
type_synonym u32 = "32 word"
type_synonym u64 = "64 word"
type_synonym bytes = "u8 list"
type_synonym array32 = "256 word"

definition checked_add :: "'a::len word \<Rightarrow> 'a word \<Rightarrow> 'a word option" where
  "checked_add a b = (if unat a + unat b < 2 ^ LENGTH('a) then Some (a + b) else None)"

definition saturating_add :: "'a::len word \<Rightarrow> 'a word \<Rightarrow> 'a word" where
  "saturating_add a b = (if unat a + unat b < 2 ^ LENGTH('a) then a + b else - 1)"

definition saturating_mul :: "'a::len word \<Rightarrow> 'a word \<Rightarrow> 'a word" where
  "saturating_mul a b = (if unat a * unat b < 2 ^ LENGTH('a) then a * b else - 1)"

definition saturating_sub :: "'a::len word \<Rightarrow> 'a word \<Rightarrow> 'a word" where
  "saturating_sub a b = (if b \<le> a then a - b else 0)"

lemma unat_lt2p: "unat w < 2 ^ LENGTH('a)" for w :: "'a::len word"
  by simp

lemma checked_add_Some:
  "checked_add a b = Some c \<longleftrightarrow> c = a + b \<and> unat a + unat b < 2 ^ LENGTH('a)"
  for a b c :: "'a::len word"
  by (auto simp: checked_add_def)

lemma unat_checked_add:
  "checked_add a b = Some c \<Longrightarrow> unat c = unat a + unat b"
  for a b c :: "'a::len word"
  by (auto simp: checked_add_def unat_word_ariths split: if_splits)

lemma checked_add_None:
  "checked_add a b = None \<longleftrightarrow> 2 ^ LENGTH('a) \<le> unat a + unat b"
  for a b :: "'a::len word"
  by (auto simp: checked_add_def)

lemma unat_minus_one_word_eq: "unat (- 1 :: 'a::len word) = 2 ^ LENGTH('a) - 1"
  by (simp add: unsigned_minus_1_eq_mask mask_eq_exp_minus_1)

lemma unat_saturating_add:
  "unat (saturating_add a b) = min (unat a + unat b) (2 ^ LENGTH('a) - 1)"
  for a b :: "'a::len word"
proof (cases "unat a + unat b < 2 ^ LENGTH('a)")
  case True
  then have "min (unat a + unat b) (2 ^ LENGTH('a) - 1) = unat a + unat b" by linarith
  with True show ?thesis by (simp add: saturating_add_def unat_word_ariths)
next
  case False
  then have "min (unat a + unat b) (2 ^ LENGTH('a) - 1) = 2 ^ LENGTH('a) - 1" by linarith
  with False show ?thesis by (simp only: saturating_add_def unat_minus_one_word_eq if_False)
qed

lemma unat_saturating_sub: "unat (saturating_sub a b) = unat a - unat b"
  for a b :: "'a::len word"
proof (cases "b \<le> a")
  case True
  then show ?thesis by (simp add: saturating_sub_def unat_sub)
next
  case False
  then show ?thesis by (simp add: saturating_sub_def word_le_nat_alt)
qed

section \<open>Integers as bytes\<close>

fun nat_to_le :: "nat \<Rightarrow> nat \<Rightarrow> bytes" where
  "nat_to_le 0 x = []"
| "nat_to_le (Suc n) x = word_of_nat x # nat_to_le n (x div 256)"

fun nat_of_le :: "bytes \<Rightarrow> nat" where
  "nat_of_le [] = 0"
| "nat_of_le (b # bs) = unat b + 256 * nat_of_le bs"

lemma length_nat_to_le [simp]: "length (nat_to_le n x) = n"
  by (induction n arbitrary: x) auto

lemma unat_u8_of_nat: "unat (word_of_nat x :: u8) = x mod 256"
  by (simp add: unat_of_nat)

lemma nat_of_le_to_le: "x < 256 ^ n \<Longrightarrow> nat_of_le (nat_to_le n x) = x"
proof (induction n arbitrary: x)
  case 0
  then show ?case by simp
next
  case (Suc n)
  then have "x div 256 < 256 ^ n" by (simp add: less_mult_imp_div_less mult.commute)
  from Suc.IH [OF this] show ?case by (simp add: unat_u8_of_nat)
qed

lemma nat_of_le_less: "nat_of_le bs < 256 ^ length bs"
proof (induction bs)
  case Nil
  then show ?case by simp
next
  case (Cons b bs)
  have "unat b < 256" using unat_lt2p [of b] by simp
  with Cons show ?case by simp
qed

lemma nat_to_le_of_le: "nat_to_le (length bs) (nat_of_le bs) = bs"
proof (induction bs)
  case Nil
  then show ?case by simp
next
  case (Cons b bs)
  have b: "unat b < 256" using unat_lt2p [of b] by simp
  have "(word_of_nat (unat b + 256 * nat_of_le bs) :: u8) = b"
  proof (rule word_unat_eq_iff [THEN iffD2])
    show "unat (word_of_nat (unat b + 256 * nat_of_le bs) :: u8) = unat b"
      using b by (simp add: unat_u8_of_nat del: of_nat_add)
  qed
  moreover have "(unat b + 256 * nat_of_le bs) div 256 = nat_of_le bs" using b by simp
  ultimately show ?case using Cons by simp
qed

definition u64_to_le_bytes :: "u64 \<Rightarrow> bytes" where
  "u64_to_le_bytes w = nat_to_le 8 (unat w)"

definition u64_from_le_bytes :: "bytes \<Rightarrow> u64" where
  "u64_from_le_bytes bs = word_of_nat (nat_of_le bs)"

definition u32_to_le_bytes :: "u32 \<Rightarrow> bytes" where
  "u32_to_le_bytes w = nat_to_le 4 (unat w)"

definition u32_from_le_bytes :: "bytes \<Rightarrow> u32" where
  "u32_from_le_bytes bs = word_of_nat (nat_of_le bs)"

definition u32_to_be_bytes :: "u32 \<Rightarrow> bytes" where
  "u32_to_be_bytes w = rev (nat_to_le 4 (unat w))"

definition u32_from_be_bytes :: "bytes \<Rightarrow> u32" where
  "u32_from_be_bytes bs = word_of_nat (nat_of_le (rev bs))"

definition u16_to_be_bytes :: "u16 \<Rightarrow> bytes" where
  "u16_to_be_bytes w = rev (nat_to_le 2 (unat w))"

definition u16_from_be_bytes :: "bytes \<Rightarrow> u16" where
  "u16_from_be_bytes bs = word_of_nat (nat_of_le (rev bs))"

definition array_bytes :: "array32 \<Rightarrow> bytes" where
  "array_bytes w = rev (nat_to_le 32 (unat w))"

definition array_of_bytes :: "bytes \<Rightarrow> array32" where
  "array_of_bytes bs = word_of_nat (nat_of_le (rev bs))"

lemma length_u64_to_le_bytes [simp]: "length (u64_to_le_bytes w) = 8"
  by (simp add: u64_to_le_bytes_def)

lemma length_u32_to_be_bytes [simp]: "length (u32_to_be_bytes w) = 4"
  by (simp add: u32_to_be_bytes_def)

lemma length_u16_to_be_bytes [simp]: "length (u16_to_be_bytes w) = 2"
  by (simp add: u16_to_be_bytes_def)

lemma length_array_bytes [simp]: "length (array_bytes w) = 32"
  by (simp add: array_bytes_def)

lemma u64_from_to_le_bytes [simp]: "u64_from_le_bytes (u64_to_le_bytes w) = w"
  using unat_lt2p [of w]
  by (simp add: u64_from_le_bytes_def u64_to_le_bytes_def nat_of_le_to_le)

lemma u32_from_to_be_bytes [simp]: "u32_from_be_bytes (u32_to_be_bytes w) = w"
  using unat_lt2p [of w]
  by (simp add: u32_from_be_bytes_def u32_to_be_bytes_def nat_of_le_to_le)

lemma u16_from_to_be_bytes [simp]: "u16_from_be_bytes (u16_to_be_bytes w) = w"
  using unat_lt2p [of w]
  by (simp add: u16_from_be_bytes_def u16_to_be_bytes_def nat_of_le_to_le)

lemma array_of_array_bytes [simp]: "array_of_bytes (array_bytes w) = w"
  using unat_lt2p [of w]
  by (simp add: array_of_bytes_def array_bytes_def nat_of_le_to_le)

lemma length_u32_to_le_bytes [simp]: "length (u32_to_le_bytes w) = 4"
  by (simp add: u32_to_le_bytes_def)

lemma u32_from_to_le_bytes [simp]: "u32_from_le_bytes (u32_to_le_bytes w) = w"
  using unat_lt2p [of w] by (simp add: u32_to_le_bytes_def u32_from_le_bytes_def nat_of_le_to_le)

lemma u64_to_from_le_bytes: "length bs = 8 \<Longrightarrow> u64_to_le_bytes (u64_from_le_bytes bs) = bs"
  using nat_of_le_less [of bs] nat_to_le_of_le [of bs]
  by (simp add: u64_from_le_bytes_def u64_to_le_bytes_def unat_of_nat)

lemma u32_to_from_be_bytes: "length bs = 4 \<Longrightarrow> u32_to_be_bytes (u32_from_be_bytes bs) = bs"
  using nat_of_le_less [of "rev bs"] nat_to_le_of_le [of "rev bs"]
  by (simp add: u32_from_be_bytes_def u32_to_be_bytes_def unat_of_nat)

lemma array_bytes_of_array: "length bs = 32 \<Longrightarrow> array_bytes (array_of_bytes bs) = bs"
  using nat_of_le_less [of "rev bs"] nat_to_le_of_le [of "rev bs"]
  by (simp add: array_of_bytes_def array_bytes_def unat_of_nat)

lemma array_bytes_inject [simp]: "array_bytes v = array_bytes w \<longleftrightarrow> v = w"
  by (metis array_of_array_bytes)

lemma nat_of_le_snoc: "nat_of_le (bs @ [b]) = nat_of_le bs + 256 ^ length bs * unat b"
  by (induction bs) (auto simp: algebra_simps)

lemma bytes_less_iff:
  "length xs = length ys \<Longrightarrow> xs < ys \<longleftrightarrow> nat_of_le (rev xs) < nat_of_le (rev ys)"
proof (induction xs ys rule: list_induct2)
  case Nil
  then show ?case by simp
next
  case (Cons x xs y ys)
  let ?m = "256 ^ length xs :: nat"
  have lx: "nat_of_le (rev xs) < ?m" using nat_of_le_less [of "rev xs"] by simp
  have ly: "nat_of_le (rev ys) < ?m"
    using nat_of_le_less [of "rev ys"] Cons.hyps by simp
  have step: "a + ?m * c < b + ?m * d" if "a < ?m" and "c < d" for a b c d :: nat
  proof -
    have "a + ?m * c < ?m * Suc c" using that(1) by simp
    also have "\<dots> \<le> ?m * d" using that(2) by (intro mult_le_mono2) simp
    finally show ?thesis by simp
  qed
  show ?case
  proof (cases "unat x" "unat y" rule: linorder_cases)
    case less
    then show ?thesis using step [OF lx less] Cons.hyps
      by (simp add: nat_of_le_snoc word_less_nat_alt)
  next
    case equal
    then have "x = y" by (simp only: word_unat_eq_iff)
    then show ?thesis using Cons by (simp add: nat_of_le_snoc)
  next
    case greater
    then have "\<not> x < y" "x \<noteq> y" by (auto simp: word_less_nat_alt)
    then show ?thesis using step [OF ly greater, of "nat_of_le (rev xs)"] Cons.hyps
      by (simp add: nat_of_le_snoc)
  qed
qed

lemma array_bytes_less: "array_bytes v < array_bytes w \<longleftrightarrow> v < w"
  using unat_lt2p [of v] unat_lt2p [of w]
  by (subst bytes_less_iff)
    (simp_all add: array_bytes_def nat_of_le_to_le word_less_nat_alt)

section \<open>Ascending lists: \<open>BTreeSet\<close>\<close>

text \<open>
  A \<open>BTreeSet\<close> is the ascending list of its elements, which is the order it is iterated in;
  \<open>insort_insert\<close> of the library is its \<open>insert\<close>.
\<close>

abbreviation ascending :: "'a::linorder list \<Rightarrow> bool" where
  "ascending xs \<equiv> sorted xs \<and> distinct xs"

lemma ascending_insert: "ascending xs \<Longrightarrow> ascending (insort_insert x xs)"
  by (simp add: sorted_insort_insert distinct_insort_insert)

lemma ascending_unique: "ascending xs \<Longrightarrow> ascending ys \<Longrightarrow> set xs = set ys \<Longrightarrow> xs = ys"
  by (simp add: sorted_distinct_set_unique)

lemma length_insort_insert:
  "x \<notin> set xs \<Longrightarrow> length (insort_insert x xs) = Suc (length xs)"
  by (simp add: insort_insert_insort)

section \<open>Results\<close>

text \<open>A Rust \<open>Result\<close> is a sum: \<open>Inl\<close> the error, \<open>Inr\<close> the value.\<close>

fun bind_result :: "'e + 'a \<Rightarrow> ('a \<Rightarrow> 'e + 'b) \<Rightarrow> 'e + 'b" where
  "bind_result (Inl e) f = Inl e"
| "bind_result (Inr x) f = f x"

lemma bind_result_Inr:
  "bind_result r f = Inr y \<longleftrightarrow> (\<exists>x. r = Inr x \<and> f x = Inr y)"
  by (cases r) auto

lemma bind_result_Inl:
  "bind_result r f = Inl e \<longleftrightarrow> r = Inl e \<or> (\<exists>x. r = Inr x \<and> f x = Inl e)"
  by (cases r) auto

end
