(* ===== verification/Event_Model.thy ===== *)
theory Event_Model
  imports Mesh_Prelude
begin

text \<open>
  The content-addressed, signed event of \<open>eventlog/event.rs\<close> and the device identity of
  \<open>identity/device.rs\<close> that signs it.

  SHA-256, Ed25519, X25519, the hex encoder and bincode are third-party crates. They are the
  fields of the record \<open>crypto_env\<close>, which the definitions take as an argument;
  \<open>signatures_verify\<close> and \<open>no_event_collision\<close> name what the code relies on.
\<close>

section \<open>Identifiers\<close>

datatype event_id = EventId (eid_bytes: array32)
datatype conversation_id = ConversationId (cid_bytes: array32)
datatype author = Author (ed25519_of: array32)

text \<open>\<open>EventId\<close> derives \<open>Ord\<close>: the lexicographic order of its bytes.\<close>

instantiation event_id :: linorder
begin

definition less_eq_event_id :: "event_id \<Rightarrow> event_id \<Rightarrow> bool" where
  "less_eq_event_id a b \<longleftrightarrow> eid_bytes a \<le> eid_bytes b"

definition less_event_id :: "event_id \<Rightarrow> event_id \<Rightarrow> bool" where
  "less_event_id a b \<longleftrightarrow> eid_bytes a < eid_bytes b"

instance
  by standard
    (auto simp: less_eq_event_id_def less_event_id_def less_le_not_le intro: event_id.expand)

end

lemma less_event_id_simp [simp]: "EventId a < EventId b \<longleftrightarrow> a < b"
  by (simp add: less_event_id_def)

lemma less_eq_event_id_simp [simp]: "EventId a \<le> EventId b \<longleftrightarrow> a \<le> b"
  by (simp add: less_eq_event_id_def)

text \<open>The variants of \<open>EventKind\<close>, in the order that fixes their wire index.\<close>

datatype event_kind =
    Message | Edit | Delete | React | ReadMarker | MembershipChange | KeyRotation
  | FileManifest | Profile | ChannelRename | ChannelDissolve | ChannelOwnerTransfer
  | ChannelLeave | ChannelAccept | ChannelReplica | ChannelHistoryPolicy
  | ChannelJoinHistory | ChannelAccountAuthority | ChannelDeviceInheritance | ChannelMetadata

record event =
  ev_id :: event_id
  conversation_id :: conversation_id
  author :: author
  seq :: u64
  parents :: "event_id list"
  lamport :: u64
  wall_clock :: u64
  kind :: event_kind
  ciphertext :: bytes
  sig :: bytes

record event_content =
  c_conversation_id :: conversation_id
  c_author :: author
  c_seq :: u64
  c_parents :: "event_id list"
  c_lamport :: u64
  c_wall_clock :: u64
  c_kind :: event_kind
  c_ciphertext :: bytes

section \<open>Third-party cryptography and encodings\<close>

record crypto_env =
  sha256 :: "bytes \<Rightarrow> array32"
  hex_encode :: "bytes \<Rightarrow> string"
  bincode_content :: "event_content \<Rightarrow> bytes"
  ed25519_public :: "array32 \<Rightarrow> array32"
  ed25519_sign :: "array32 \<Rightarrow> bytes \<Rightarrow> bytes"
  ed25519_key_valid :: "array32 \<Rightarrow> bool"
  ed25519_verify_strict :: "array32 \<Rightarrow> bytes \<Rightarrow> bytes \<Rightarrow> bool"
  x25519_public :: "array32 \<Rightarrow> array32"

section \<open>Device identities\<close>

record public_identity =
  ed25519_pub :: array32
  x25519_pub :: array32

record device_identity =
  signing_key :: array32
  dh_secret :: array32

definition ascii :: "string \<Rightarrow> bytes" where
  "ascii s = map (\<lambda>c. word_of_nat (of_char c)) s"

definition user_id_from :: "crypto_env \<Rightarrow> array32 \<Rightarrow> string" where
  "user_id_from cr pk =
     hex_encode cr (take 16 (array_bytes (sha256 cr (ascii ''mesh-talk-id-v1'' @ array_bytes pk))))"

definition user_id :: "crypto_env \<Rightarrow> public_identity \<Rightarrow> string" where
  "user_id cr p = user_id_from cr (ed25519_pub p)"

definition device_public :: "crypto_env \<Rightarrow> device_identity \<Rightarrow> public_identity" where
  "device_public cr d =
     \<lparr>ed25519_pub = ed25519_public cr (signing_key d), x25519_pub = x25519_public cr (dh_secret d)\<rparr>"

definition device_sign :: "crypto_env \<Rightarrow> device_identity \<Rightarrow> bytes \<Rightarrow> bytes" where
  "device_sign cr d msg = ed25519_sign cr (signing_key d) msg"

definition device_verify :: "crypto_env \<Rightarrow> array32 \<Rightarrow> bytes \<Rightarrow> bytes \<Rightarrow> bool" where
  "device_verify cr pk msg sg \<longleftrightarrow>
     (if \<not> ed25519_key_valid cr pk then False else ed25519_verify_strict cr pk msg sg)"

section \<open>Building and checking an event\<close>

definition event_domain :: bytes where
  "event_domain = ascii ''mesh-talk-event-v1''"

definition hash_content :: "crypto_env \<Rightarrow> event_content \<Rightarrow> event_id" where
  "hash_content cr content = EventId (sha256 cr (event_domain @ bincode_content cr content))"

definition signing_input :: "event_id \<Rightarrow> bytes" where
  "signing_input i = event_domain @ array_bytes (eid_bytes i)"

definition event_content_of :: "event \<Rightarrow> event_content" where
  "event_content_of e =
     \<lparr>c_conversation_id = conversation_id e, c_author = author e, c_seq = seq e,
      c_parents = parents e, c_lamport = lamport e, c_wall_clock = wall_clock e,
      c_kind = kind e, c_ciphertext = ciphertext e\<rparr>"

text \<open>\<open>sort\<close> followed by \<open>dedup\<close>, which drops repeated neighbours.\<close>

definition canonical_parents :: "event_id list \<Rightarrow> event_id list" where
  "canonical_parents ps = remdups_adj (sort ps)"

definition event_new ::
  "crypto_env \<Rightarrow> device_identity \<Rightarrow> conversation_id \<Rightarrow> u64 \<Rightarrow> event_id list \<Rightarrow> u64 \<Rightarrow> u64
   \<Rightarrow> event_kind \<Rightarrow> bytes \<Rightarrow> event" where
  "event_new cr identity conv sq ps lam wall knd ct =
     (let ps' = canonical_parents ps;
          au = Author (ed25519_pub (device_public cr identity));
          i = hash_content cr
                \<lparr>c_conversation_id = conv, c_author = au, c_seq = sq, c_parents = ps',
                 c_lamport = lam, c_wall_clock = wall, c_kind = knd, c_ciphertext = ct\<rparr>;
          sg = device_sign cr identity (signing_input i)
      in \<lparr>ev_id = i, conversation_id = conv, author = au, seq = sq, parents = ps',
          lamport = lam, wall_clock = wall, kind = knd, ciphertext = ct, sig = sg\<rparr>)"

definition recompute_id :: "crypto_env \<Rightarrow> event \<Rightarrow> event_id" where
  "recompute_id cr e = hash_content cr (event_content_of e)"

definition verify_integrity :: "crypto_env \<Rightarrow> event \<Rightarrow> bool" where
  "verify_integrity cr e \<longleftrightarrow> ev_id e = recompute_id cr e"

definition verify_signature :: "crypto_env \<Rightarrow> event \<Rightarrow> bool" where
  "verify_signature cr e \<longleftrightarrow>
     (if length (sig e) \<noteq> 64 then False
      else device_verify cr (ed25519_of (author e)) (signing_input (ev_id e)) (sig e))"

definition is_canonical :: "event \<Rightarrow> bool" where
  "is_canonical e \<longleftrightarrow> parents e = canonical_parents (parents e)"

section \<open>What the code relies on\<close>

text \<open>
  A signature made with a device key is 64 bytes long and verifies under the public key of that
  device (the contract of \<open>ed25519_dalek\<close>).
\<close>

definition signatures_verify :: "crypto_env \<Rightarrow> bool" where
  "signatures_verify cr \<longleftrightarrow>
     (\<forall>sk msg. ed25519_key_valid cr (ed25519_public cr sk)
        \<and> length (ed25519_sign cr sk msg) = 64
        \<and> ed25519_verify_strict cr (ed25519_public cr sk) msg (ed25519_sign cr sk msg))"

text \<open>
  No two different contents among a set of events have one hash. SHA-256 is not injective, so
  this is stated of the events in play and never of all byte strings.
\<close>

definition no_event_collision :: "crypto_env \<Rightarrow> event set \<Rightarrow> bool" where
  "no_event_collision cr S \<longleftrightarrow>
     (\<forall>e\<in>S. \<forall>e'\<in>S. recompute_id cr e = recompute_id cr e'
        \<longrightarrow> event_content_of e = event_content_of e')"

section \<open>Lemmas\<close>

lemma sorted_distinct_remdups_adj: "sorted xs \<Longrightarrow> distinct (remdups_adj xs)"
  by (induction xs rule: remdups_adj.induct) (auto simp: remdups_adj_set)

lemma ascending_canonical_parents: "ascending (canonical_parents ps)"
  by (simp add: canonical_parents_def sorted_remdups_adj sorted_distinct_remdups_adj)

lemma set_canonical_parents [simp]: "set (canonical_parents ps) = set ps"
  by (simp add: canonical_parents_def)

lemma canonical_parents_idem [simp]: "canonical_parents (canonical_parents ps) = canonical_parents ps"
  by (rule ascending_unique) (simp_all add: ascending_canonical_parents)

lemma is_canonical_iff: "is_canonical e \<longleftrightarrow> ascending (parents e)"
proof
  assume "is_canonical e"
  then have "parents e = canonical_parents (parents e)" by (simp add: is_canonical_def)
  then show "ascending (parents e)" by (metis ascending_canonical_parents)
next
  assume "ascending (parents e)"
  then show "is_canonical e"
    unfolding is_canonical_def
    by (intro ascending_unique ascending_canonical_parents) simp_all
qed

lemma canonical_parents_cong:
  "set ps = set qs \<Longrightarrow> canonical_parents ps = canonical_parents qs"
  by (rule ascending_unique) (auto simp: ascending_canonical_parents)

lemma event_new_fields [simp]:
  "conversation_id (event_new cr d conv sq ps lam wall knd ct) = conv"
  "seq (event_new cr d conv sq ps lam wall knd ct) = sq"
  "parents (event_new cr d conv sq ps lam wall knd ct) = canonical_parents ps"
  "lamport (event_new cr d conv sq ps lam wall knd ct) = lam"
  "wall_clock (event_new cr d conv sq ps lam wall knd ct) = wall"
  "kind (event_new cr d conv sq ps lam wall knd ct) = knd"
  "ciphertext (event_new cr d conv sq ps lam wall knd ct) = ct"
  "author (event_new cr d conv sq ps lam wall knd ct)
     = Author (ed25519_pub (device_public cr d))"
  by (simp_all add: event_new_def Let_def)

lemma event_new_canonical: "is_canonical (event_new cr d conv sq ps lam wall knd ct)"
  by (simp add: is_canonical_def)

lemma event_new_integrity: "verify_integrity cr (event_new cr d conv sq ps lam wall knd ct)"
  by (simp add: verify_integrity_def recompute_id_def event_content_of_def)
    (simp add: event_new_def Let_def)

lemma event_new_signature:
  assumes "signatures_verify cr"
  shows "verify_signature cr (event_new cr d conv sq ps lam wall knd ct)"
  using assms
  by (simp add: verify_signature_def event_new_def Let_def device_sign_def device_verify_def
      device_public_def signatures_verify_def)

lemma event_eqI_content:
  "event_content_of e = event_content_of e' \<Longrightarrow> ev_id e = ev_id e' \<Longrightarrow> sig e = sig e'
   \<Longrightarrow> e = (e' :: event)"
  by (simp add: event_content_of_def)

section \<open>A concrete environment\<close>

text \<open>
  A computable instance of the parameters, on which the closed instances of the theorems are
  evaluated: the hash is the last byte, the encoding of a content is its sequence number, and a
  signature repeats the key.
\<close>

definition demo_env :: crypto_env where
  "demo_env =
     \<lparr>sha256 = (\<lambda>bs. if bs = [] then 0 else ucast (last bs)),
      hex_encode = map (\<lambda>b. char_of (unat b)),
      bincode_content = (\<lambda>c. [ucast (c_seq c)]),
      ed25519_public = (\<lambda>sk. sk),
      ed25519_sign = (\<lambda>sk msg. array_bytes sk @ array_bytes sk),
      ed25519_key_valid = (\<lambda>pk. True),
      ed25519_verify_strict = (\<lambda>pk msg sg. sg = array_bytes pk @ array_bytes pk),
      x25519_public = (\<lambda>sk. sk)\<rparr>"

lemma demo_signatures_verify: "signatures_verify demo_env"
  by (simp add: signatures_verify_def demo_env_def)

lemma demo_hash_content [simp]:
  "hash_content demo_env c = EventId (ucast (ucast (c_seq c) :: u8))"
  by (simp add: hash_content_def demo_env_def)

lemma demo_event_id [simp]:
  "ev_id (event_new demo_env d conv sq ps lam wall knd ct) = EventId (ucast (ucast sq :: u8))"
  by (simp add: event_new_def Let_def)

lemma demo_event_valid [simp]:
  "is_canonical (event_new demo_env d conv sq ps lam wall knd ct)"
  "verify_integrity demo_env (event_new demo_env d conv sq ps lam wall knd ct)"
  "verify_signature demo_env (event_new demo_env d conv sq ps lam wall knd ct)"
  by (simp_all add: event_new_canonical event_new_integrity
      event_new_signature [OF demo_signatures_verify])

definition demo_device :: "array32 \<Rightarrow> device_identity" where
  "demo_device k = \<lparr>signing_key = k, dh_secret = k\<rparr>"

lemma demo_device_public [simp]:
  "device_public demo_env (demo_device k) = \<lparr>ed25519_pub = k, x25519_pub = k\<rparr>"
  by (simp add: device_public_def demo_device_def demo_env_def)

definition demo_message :: "u64 \<Rightarrow> event_id list \<Rightarrow> u64 \<Rightarrow> event" where
  "demo_message sq ps lam =
     event_new demo_env (demo_device 7) (ConversationId 1) sq ps lam 0 Message [1]"

lemma demo_message_fields [simp]:
  "ev_id (demo_message sq ps lam) = EventId (ucast (ucast sq :: u8))"
  "conversation_id (demo_message sq ps lam) = ConversationId 1"
  "author (demo_message sq ps lam) = Author 7"
  "seq (demo_message sq ps lam) = sq"
  "parents (demo_message sq ps lam) = canonical_parents ps"
  "lamport (demo_message sq ps lam) = lam"
  "kind (demo_message sq ps lam) = Message"
  "is_canonical (demo_message sq ps lam)"
  "verify_integrity demo_env (demo_message sq ps lam)"
  "verify_signature demo_env (demo_message sq ps lam)"
  by (simp_all add: demo_message_def)

lemma canonical_parents_small [simp]:
  "canonical_parents [] = []" "canonical_parents [p] = [p]"
  by (simp_all add: canonical_parents_def)

end
