(* ===== verification/Double_Ratchet.thy ===== *)
theory Double_Ratchet
  imports Event_Model
begin

text \<open>
  The direct-message ratchet, from \<^verbatim>\<open>ratchet/kdf.rs\<close> and \<^verbatim>\<open>ratchet/state.rs\<close>: the key
  schedule, sending, receiving with buffered keys for messages that arrive out of order, and the
  storage form. The operations return their result beside the state, since the source changes the
  state before it knows whether the message is authentic. HKDF, X25519, AES-GCM and bincode are
  the fields of \<open>ratchet_env\<close>; the secrets a session draws are arguments.
\<close>

section \<open>The primitives\<close>

record ratchet_header =
  h_ratchet_pub :: array32
  h_pn :: u32
  h_n :: u32

text \<open>The mirror of the state that is written to disk.\<close>

record ratchet_wire =
  w_dhs_secret :: array32
  w_dhr :: "array32 option"
  w_rk :: array32
  w_cks :: "array32 option"
  w_ckr :: "array32 option"
  w_ns :: u32
  w_nr :: u32
  w_pn :: u32
  w_skipped :: "(array32 \<times> u32 \<times> array32) list"

text \<open>
  The crates the ratchet calls: HKDF-SHA256 (salt, input, label, output length), X25519,
  AES-256-GCM (key, nonce, text, associated data) and the two bincode encodings.
\<close>

record ratchet_env =
  hkdf :: "bytes \<Rightarrow> bytes \<Rightarrow> bytes \<Rightarrow> nat \<Rightarrow> bytes"
  x25519_dh :: "array32 \<Rightarrow> array32 \<Rightarrow> array32"
  x25519_base :: "array32 \<Rightarrow> array32"
  aes_gcm_encrypt :: "array32 \<Rightarrow> bytes \<Rightarrow> bytes \<Rightarrow> bytes \<Rightarrow> bytes option"
  aes_gcm_decrypt :: "array32 \<Rightarrow> bytes \<Rightarrow> bytes \<Rightarrow> bytes \<Rightarrow> bytes option"
  bincode_header :: "ratchet_header \<Rightarrow> bytes"
  bincode_wire :: "ratchet_wire \<Rightarrow> bytes"
  parse_wire :: "bytes \<Rightarrow> ratchet_wire option"

text \<open>What the proofs use of them: an opened seal returns the text, and the two sides of a
  key agreement agree.\<close>

definition aead_opens :: "ratchet_env \<Rightarrow> bool" where
  "aead_opens env \<longleftrightarrow> (\<forall>k nonce text aad. \<exists>sealed.
     aes_gcm_encrypt env k nonce text aad = Some sealed \<and> aes_gcm_decrypt env k nonce sealed aad = Some text)"

definition dh_agrees :: "ratchet_env \<Rightarrow> bool" where
  "dh_agrees env \<longleftrightarrow> (\<forall>s t. x25519_dh env s (x25519_base env t) = x25519_dh env t (x25519_base env s))"

section \<open>The key schedule\<close>

definition kdf_rk :: "ratchet_env \<Rightarrow> array32 \<Rightarrow> array32 \<Rightarrow> array32 \<times> array32" where
  "kdf_rk env rk dh_out =
     (let okm = hkdf env (array_bytes rk) (array_bytes dh_out) (ascii ''MeshTalk-Ratchet-RK'') 64
      in (array_of_bytes (take 32 okm), array_of_bytes (drop 32 okm)))"

definition kdf_ck :: "ratchet_env \<Rightarrow> array32 \<Rightarrow> array32 \<times> array32" where
  "kdf_ck env ck =
     (let okm = hkdf env (array_bytes ck) [] (ascii ''MeshTalk-Ratchet-CK'') 64
      in (array_of_bytes (take 32 okm), array_of_bytes (drop 32 okm)))"

definition message_keys :: "ratchet_env \<Rightarrow> array32 \<Rightarrow> array32 \<times> bytes" where
  "message_keys env mk =
     (let okm = hkdf env (array_bytes mk) [] (ascii ''MeshTalk-Ratchet-MSG'') 44
      in (array_of_bytes (take 32 okm), drop 32 okm))"

section \<open>The state\<close>

datatype ratchet_error = Decrypt | TooManySkipped | NotInitializedForSend | Malformed | RatchetPanic

definition MAX_SKIP :: u32 where
  "MAX_SKIP = 1000"

definition MAX_SKIPPED_TOTAL :: nat where
  "MAX_SKIPPED_TOTAL = 2000"

type_synonym skip_key = "array32 \<times> u32"

record ratchet_state =
  dhs_secret :: array32
  dhs_public :: array32
  dhr :: "array32 option"
  rk :: array32
  cks :: "array32 option"
  ckr :: "array32 option"
  ns :: u32
  nr :: u32
  pn :: u32
  skipped :: "skip_key \<rightharpoonup> array32"
  skipped_order :: "skip_key list"

definition aead_encrypt :: "ratchet_env \<Rightarrow> array32 \<Rightarrow> bytes \<Rightarrow> bytes \<Rightarrow> ratchet_error + bytes" where
  "aead_encrypt env mk plaintext aad =
     (case message_keys env mk of (key, nonce) \<Rightarrow>
        (case aes_gcm_encrypt env key nonce plaintext aad of None \<Rightarrow> Inl Decrypt | Some ct \<Rightarrow> Inr ct))"

definition aead_decrypt :: "ratchet_env \<Rightarrow> array32 \<Rightarrow> bytes \<Rightarrow> bytes \<Rightarrow> ratchet_error + bytes" where
  "aead_decrypt env mk sealed aad =
     (case message_keys env mk of (key, nonce) \<Rightarrow>
        (case aes_gcm_decrypt env key nonce sealed aad of None \<Rightarrow> Inl Decrypt | Some pt \<Rightarrow> Inr pt))"

text \<open>\<open>fresh\<close> is the secret \<^verbatim>\<open>StaticSecret::random\<close> draws.\<close>

definition init_alice :: "ratchet_env \<Rightarrow> array32 \<Rightarrow> array32 \<Rightarrow> array32 \<Rightarrow> ratchet_state" where
  "init_alice env fresh shared_secret bob_ratchet_pub =
     (case kdf_rk env shared_secret (x25519_dh env fresh bob_ratchet_pub) of (rk', cks') \<Rightarrow>
        \<lparr>dhs_secret = fresh, dhs_public = x25519_base env fresh, dhr = Some bob_ratchet_pub,
         rk = rk', cks = Some cks', ckr = None, ns = 0, nr = 0, pn = 0,
         skipped = Map.empty, skipped_order = []\<rparr>)"

definition init_bob :: "ratchet_env \<Rightarrow> array32 \<Rightarrow> array32 \<Rightarrow> ratchet_state" where
  "init_bob env shared_secret bob_ratchet_secret =
     \<lparr>dhs_secret = bob_ratchet_secret, dhs_public = x25519_base env bob_ratchet_secret, dhr = None,
      rk = shared_secret, cks = None, ckr = None, ns = 0, nr = 0, pn = 0,
      skipped = Map.empty, skipped_order = []\<rparr>"

definition has_receiving_chain :: "ratchet_state \<Rightarrow> bool" where
  "has_receiving_chain st \<longleftrightarrow> ckr st \<noteq> None"

section \<open>Sending\<close>

text \<open>The counters wrap, as a release build's do.\<close>

definition ratchet_encrypt ::
  "ratchet_env \<Rightarrow> ratchet_state \<Rightarrow> bytes \<Rightarrow> (ratchet_error + (ratchet_header \<times> bytes)) \<times> ratchet_state" where
  "ratchet_encrypt env st plaintext =
     (case cks st of
        None \<Rightarrow> (Inl NotInitializedForSend, st)
      | Some ck \<Rightarrow>
          (case kdf_ck env ck of (ck2, mk) \<Rightarrow>
             let header = \<lparr>h_ratchet_pub = dhs_public st, h_pn = pn st, h_n = ns st\<rparr>;
                 st' = st\<lparr>cks := Some ck2, ns := ns st + 1\<rparr>
             in (bind_result (aead_encrypt env mk plaintext (bincode_header env header))
                   (\<lambda>ct. Inr (header, ct)), st')))"

section \<open>Receiving\<close>

text \<open>The eviction loop of \<open>skip_message_keys\<close>: oldest first, while the buffer is over its cap.\<close>

fun evict :: "('k \<rightharpoonup> 'v) \<Rightarrow> 'k list \<Rightarrow> ('k \<rightharpoonup> 'v) \<times> 'k list" where
  "evict m [] = (m, [])"
| "evict m (k # ks) =
     (if MAX_SKIPPED_TOTAL < card (dom m) then evict (m(k := None)) ks else (m, k # ks))"

text \<open>The loop that buffers the keys of the positions passed over.\<close>

function skip_loop :: "ratchet_env \<Rightarrow> array32 \<Rightarrow> u32 \<Rightarrow> array32 \<Rightarrow> ratchet_state \<Rightarrow> ratchet_state" where
  "skip_loop env peer until ck st =
     (if nr st < until then
        case kdf_ck env ck of (ck2, mk) \<Rightarrow>
        case evict ((skipped st)((peer, nr st) \<mapsto> mk)) (skipped_order st @ [(peer, nr st)]) of
          (m, order) \<Rightarrow>
            skip_loop env peer until ck2 (st\<lparr>skipped := m, skipped_order := order, nr := nr st + 1\<rparr>)
      else st\<lparr>ckr := Some ck\<rparr>)"
  by pat_completeness auto
termination
proof (relation "measure (\<lambda>(env, peer, until, ck, st). unat until - unat (nr st))", simp, goal_cases)
  case (1 env peer until ck st)
  then have "unat (nr st + 1) = unat (nr st) + 1"
    using unat_lt2p [of until] by (simp add: word_less_nat_alt unat_word_ariths)
  with 1 show ?case by (simp add: word_less_nat_alt)
qed

declare skip_loop.simps [simp del]

definition skip_message_keys ::
  "ratchet_env \<Rightarrow> u32 \<Rightarrow> ratchet_state \<Rightarrow> (ratchet_error + unit) \<times> ratchet_state" where
  "skip_message_keys env until st =
     (case ckr st of
        None \<Rightarrow> (Inr (), st)
      | Some ck \<Rightarrow>
          if until < nr st then (Inr (), st)
          else if until - nr st > MAX_SKIP then (Inl TooManySkipped, st)
          else (case dhr st of
                  None \<Rightarrow> (Inl RatchetPanic, st)
                | Some peer \<Rightarrow> (Inr (), skip_loop env peer until ck st)))"

definition dh_ratchet :: "ratchet_env \<Rightarrow> array32 \<Rightarrow> array32 \<Rightarrow> ratchet_state \<Rightarrow> ratchet_state" where
  "dh_ratchet env fresh header_pub st =
     (case kdf_rk env (rk st) (x25519_dh env (dhs_secret st) header_pub) of (rk2, ckr2) \<Rightarrow>
      case kdf_rk env rk2 (x25519_dh env fresh header_pub) of (rk3, cks3) \<Rightarrow>
        st\<lparr>pn := ns st, ns := 0, nr := 0, dhr := Some header_pub, ckr := Some ckr2,
           dhs_secret := fresh, dhs_public := x25519_base env fresh, rk := rk3, cks := Some cks3\<rparr>)"

text \<open>The steps after the look-up of a buffered key.\<close>

definition ratchet_advance ::
  "ratchet_env \<Rightarrow> ratchet_header \<Rightarrow> bytes \<Rightarrow> ratchet_state \<Rightarrow> (ratchet_error + bytes) \<times> ratchet_state" where
  "ratchet_advance env header sealed st =
     (case skip_message_keys env (h_n header) st of
        (Inl e, st') \<Rightarrow> (Inl e, st')
      | (Inr _, st') \<Rightarrow>
          (case ckr st' of
             None \<Rightarrow> (Inl Malformed, st')
           | Some ck \<Rightarrow>
               (case kdf_ck env ck of (ck2, mk) \<Rightarrow>
                  (aead_decrypt env mk sealed (bincode_header env header),
                   st'\<lparr>ckr := Some ck2, nr := nr st' + 1\<rparr>))))"

definition ratchet_decrypt ::
  "ratchet_env \<Rightarrow> array32 \<Rightarrow> ratchet_state \<Rightarrow> ratchet_header \<Rightarrow> bytes
   \<Rightarrow> (ratchet_error + bytes) \<times> ratchet_state" where
  "ratchet_decrypt env fresh st header sealed =
     (let key = (h_ratchet_pub header, h_n header)
      in case skipped st key of
           Some mk \<Rightarrow>
             (aead_decrypt env mk sealed (bincode_header env header),
              st\<lparr>skipped := (skipped st)(key := None),
                 skipped_order := filter (\<lambda>k. k \<noteq> key) (skipped_order st)\<rparr>)
         | None \<Rightarrow>
             if dhr st \<noteq> Some (h_ratchet_pub header) then
               (case skip_message_keys env (h_pn header) st of
                  (Inl e, st') \<Rightarrow> (Inl e, st')
                | (Inr _, st') \<Rightarrow>
                    ratchet_advance env header sealed (dh_ratchet env fresh (h_ratchet_pub header) st'))
             else ratchet_advance env header sealed st)"

section \<open>Storage\<close>

definition ratchet_wire_of :: "ratchet_state \<Rightarrow> ratchet_wire" where
  "ratchet_wire_of st =
     \<lparr>w_dhs_secret = dhs_secret st, w_dhr = dhr st, w_rk = rk st, w_cks = cks st, w_ckr = ckr st,
      w_ns = ns st, w_nr = nr st, w_pn = pn st,
      w_skipped = List.map_filter (\<lambda>key. map_option (\<lambda>mk. (fst key, snd key, mk)) (skipped st key))
        (skipped_order st)\<rparr>"

definition ratchet_serialize :: "ratchet_env \<Rightarrow> ratchet_state \<Rightarrow> bytes" where
  "ratchet_serialize env st = bincode_wire env (ratchet_wire_of st)"

definition ratchet_deserialize :: "ratchet_env \<Rightarrow> bytes \<Rightarrow> ratchet_state option" where
  "ratchet_deserialize env bs =
     (case parse_wire env bs of
        None \<Rightarrow> None
      | Some w \<Rightarrow> Some
          \<lparr>dhs_secret = w_dhs_secret w, dhs_public = x25519_base env (w_dhs_secret w), dhr = w_dhr w,
           rk = w_rk w, cks = w_cks w, ckr = w_ckr w, ns = w_ns w, nr = w_nr w, pn = w_pn w,
           skipped = foldl (\<lambda>m (p, n, mk). m((p, n) \<mapsto> mk)) Map.empty (w_skipped w),
           skipped_order = map (\<lambda>(p, n, mk). (p, n)) (w_skipped w)\<rparr>)"

section \<open>The buffer is bounded\<close>

definition ratchet_inv :: "ratchet_state \<Rightarrow> bool" where
  "ratchet_inv st \<longleftrightarrow>
     finite (dom (skipped st)) \<and> card (dom (skipped st)) \<le> MAX_SKIPPED_TOTAL
     \<and> dom (skipped st) \<subseteq> set (skipped_order st)
     \<and> (ckr st \<noteq> None \<longrightarrow> dhr st \<noteq> None)"

lemma evict_bound:
  assumes "finite (dom m)" and "dom m \<subseteq> set ks"
  shows "finite (dom (fst (evict m ks))) \<and> card (dom (fst (evict m ks))) \<le> MAX_SKIPPED_TOTAL
    \<and> dom (fst (evict m ks)) \<subseteq> set (snd (evict m ks))"
  using assms by (induction m ks rule: evict.induct) auto

lemma evict_id: "card (dom m) \<le> MAX_SKIPPED_TOTAL \<Longrightarrow> evict m ks = (m, ks)"
  by (cases ks) auto

text \<open>One turn of the loop, and its invariant rule.\<close>

definition skip_one :: "ratchet_env \<Rightarrow> array32 \<Rightarrow> array32 \<Rightarrow> ratchet_state \<Rightarrow> ratchet_state" where
  "skip_one env peer ck st =
     (let kept = evict ((skipped st)((peer, nr st) \<mapsto> snd (kdf_ck env ck)))
                   (skipped_order st @ [(peer, nr st)])
      in st\<lparr>skipped := fst kept, skipped_order := snd kept, nr := nr st + 1\<rparr>)"

lemma skip_loop_unfold:
  "skip_loop env peer until ck st =
     (if nr st < until then skip_loop env peer until (fst (kdf_ck env ck)) (skip_one env peer ck st)
      else st\<lparr>ckr := Some ck\<rparr>)"
  by (subst skip_loop.simps) (simp add: skip_one_def case_prod_unfold Let_def)

lemma unat_succ_less:
  fixes a b :: "'a::len word"
  assumes "a < b"
  shows "unat (a + 1) = unat a + 1"
proof -
  have "unat a < unat b" using assms by (simp add: word_less_nat_alt)
  also have "unat b < 2 ^ LENGTH('a)" by (rule unat_lt2p)
  finally have "Suc (unat a) < 2 ^ LENGTH('a) \<or> Suc (unat a) = 2 ^ LENGTH('a)" by linarith
  moreover have "Suc (unat a) \<noteq> 2 ^ LENGTH('a)"
    using \<open>unat a < unat b\<close> unat_lt2p [of b] by linarith
  ultimately have "Suc (unat a) < 2 ^ LENGTH('a)" by blast
  then show ?thesis by (simp add: unat_word_ariths)
qed

lemma nr_skip_one [simp]: "nr (skip_one env peer ck st) = nr st + 1"
  by (simp add: skip_one_def Let_def)

lemma skip_loop_rule:
  assumes "I ck st"
    and "\<And>ck st. I ck st \<Longrightarrow> nr st < until \<Longrightarrow> I (fst (kdf_ck env ck)) (skip_one env peer ck st)"
  shows "\<exists>ck' st'. I ck' st' \<and> \<not> nr st' < until \<and> skip_loop env peer until ck st = st'\<lparr>ckr := Some ck'\<rparr>"
  using assms(1)
proof (induction "unat until - unat (nr st)" arbitrary: ck st rule: less_induct)
  case less
  show ?case
  proof (cases "nr st < until")
    case True
    have "unat until - unat (nr (skip_one env peer ck st)) < unat until - unat (nr st)"
      using True unat_succ_less [OF True] by (simp add: word_less_nat_alt)
    from less.hyps [OF this assms(2) [OF less.prems True]] show ?thesis
      using True by (subst skip_loop_unfold) simp
  next
    case False
    with less.prems show ?thesis by (subst skip_loop_unfold) auto
  qed
qed

lemma skip_one_inv:
  assumes "ratchet_inv st"
  shows "ratchet_inv (skip_one env peer ck st)"
proof -
  let ?m = "(skipped st)((peer, nr st) \<mapsto> snd (kdf_ck env ck))"
  let ?ks = "skipped_order st @ [(peer, nr st)]"
  have "finite (dom ?m)" "dom ?m \<subseteq> set ?ks" using assms by (auto simp: ratchet_inv_def)
  from evict_bound [OF this] show ?thesis
    using assms by (simp add: ratchet_inv_def skip_one_def Let_def)
qed

lemma skip_loop_inv:
  assumes "ratchet_inv st" and "dhr st \<noteq> None"
  shows "ratchet_inv (skip_loop env peer until ck st)"
proof -
  have "\<exists>ck' st'. (ratchet_inv st' \<and> dhr st' \<noteq> None) \<and> \<not> nr st' < until
      \<and> skip_loop env peer until ck st = st'\<lparr>ckr := Some ck'\<rparr>"
    by (rule skip_loop_rule [where I = "\<lambda>_ st. ratchet_inv st \<and> dhr st \<noteq> None"])
      (use assms skip_one_inv in \<open>auto simp: skip_one_def Let_def\<close>)
  then obtain ck' st' where "ratchet_inv st'" "dhr st' \<noteq> None"
    "skip_loop env peer until ck st = st'\<lparr>ckr := Some ck'\<rparr>" by blast
  then show ?thesis by (simp add: ratchet_inv_def)
qed

lemma skip_message_keys_inv:
  assumes "ratchet_inv st"
  shows "ratchet_inv (snd (skip_message_keys env until st))"
    and "fst (skip_message_keys env until st) \<noteq> Inl RatchetPanic"
proof -
  have "ratchet_inv (snd (skip_message_keys env until st))
    \<and> fst (skip_message_keys env until st) \<noteq> Inl RatchetPanic"
  proof (cases "ckr st")
    case (Some ck)
    with assms obtain peer where "dhr st = Some peer" by (auto simp: ratchet_inv_def)
    with Some assms skip_loop_inv [OF assms, of env peer until ck] show ?thesis
      by (simp add: skip_message_keys_def)
  qed (use assms in \<open>simp add: skip_message_keys_def\<close>)
  then show "ratchet_inv (snd (skip_message_keys env until st))"
    and "fst (skip_message_keys env until st) \<noteq> Inl RatchetPanic" by auto
qed

lemma dh_ratchet_inv: "ratchet_inv st \<Longrightarrow> ratchet_inv (dh_ratchet env fresh p st)"
  by (simp add: dh_ratchet_def ratchet_inv_def case_prod_unfold)

lemma ratchet_advance_inv:
  assumes "ratchet_inv st"
  shows "ratchet_inv (snd (ratchet_advance env header sealed st))"
    and "fst (ratchet_advance env header sealed st) \<noteq> Inl RatchetPanic"
proof -
  note skip = skip_message_keys_inv [OF assms, of env "h_n header"]
  obtain r st' where s: "skip_message_keys env (h_n header) st = (r, st')" by fastforce
  show "ratchet_inv (snd (ratchet_advance env header sealed st))"
    using skip s
    by (auto simp: ratchet_advance_def ratchet_inv_def case_prod_unfold split: sum.splits option.splits)
  show "fst (ratchet_advance env header sealed st) \<noteq> Inl RatchetPanic"
    using skip s
    by (auto simp: ratchet_advance_def aead_decrypt_def case_prod_unfold split: sum.splits option.splits)
qed

lemma aead_decrypt_no_panic: "aead_decrypt env mk sealed aad \<noteq> Inl RatchetPanic"
  by (simp add: aead_decrypt_def case_prod_unfold split: option.splits)

text \<open>A buffered key is used once: it and its place in the queue are dropped.\<close>

definition take_skipped :: "skip_key \<Rightarrow> ratchet_state \<Rightarrow> ratchet_state" where
  "take_skipped key st = st\<lparr>skipped := (skipped st)(key := None),
     skipped_order := filter (\<lambda>k. k \<noteq> key) (skipped_order st)\<rparr>"

lemma take_skipped_inv:
  assumes "ratchet_inv st"
  shows "ratchet_inv (take_skipped key st)"
proof -
  have fin: "finite (dom (skipped st))" and card: "card (dom (skipped st)) \<le> MAX_SKIPPED_TOTAL"
    and sub: "dom (skipped st) \<subseteq> set (skipped_order st)" and ckr: "ckr st \<noteq> None \<longrightarrow> dhr st \<noteq> None"
    using assms unfolding ratchet_inv_def by blast+
  have "card (dom (skipped st) - {key}) \<le> MAX_SKIPPED_TOTAL"
    using card card_Diff1_le [of "dom (skipped st)" key] by linarith
  moreover have "dom (skipped st) - {key} \<subseteq> set (filter (\<lambda>k. k \<noteq> key) (skipped_order st))"
    using sub by auto
  ultimately show ?thesis
    using fin ckr by (simp add: ratchet_inv_def take_skipped_def)
qed

lemma ratchet_decrypt_cases:
  "ratchet_decrypt env fresh st header sealed =
     (case skipped st (h_ratchet_pub header, h_n header) of
        Some mk \<Rightarrow> (aead_decrypt env mk sealed (bincode_header env header),
                     take_skipped (h_ratchet_pub header, h_n header) st)
      | None \<Rightarrow>
          if dhr st = Some (h_ratchet_pub header) then ratchet_advance env header sealed st
          else (case skip_message_keys env (h_pn header) st of
                  (Inl e, st') \<Rightarrow> (Inl e, st')
                | (Inr _, st') \<Rightarrow>
                    ratchet_advance env header sealed (dh_ratchet env fresh (h_ratchet_pub header) st')))"
  by (simp add: ratchet_decrypt_def Let_def take_skipped_def split: option.split)

lemma ratchet_decrypt_inv:
  assumes "ratchet_inv st"
  shows "ratchet_inv (snd (ratchet_decrypt env fresh st header sealed))
    \<and> fst (ratchet_decrypt env fresh st header sealed) \<noteq> Inl RatchetPanic"
proof (cases "skipped st (h_ratchet_pub header, h_n header)")
  case (Some mk)
  then show ?thesis
    using take_skipped_inv [OF assms] aead_decrypt_no_panic by (simp add: ratchet_decrypt_cases)
next
  case None
  obtain r st' where s: "skip_message_keys env (h_pn header) st = (r, st')" by fastforce
  with skip_message_keys_inv [OF assms, of env "h_pn header"]
  have st': "ratchet_inv st'" and r: "r \<noteq> Inl RatchetPanic" by auto
  from None s r show ?thesis
    using st' ratchet_advance_inv [OF assms] ratchet_advance_inv [OF dh_ratchet_inv [OF st']]
    by (cases r) (simp_all add: ratchet_decrypt_cases)
qed

lemma ratchet_encrypt_inv: "ratchet_inv st \<Longrightarrow> ratchet_inv (snd (ratchet_encrypt env st text))"
  by (simp add: ratchet_encrypt_def ratchet_inv_def case_prod_unfold Let_def split: option.splits)

lemma init_inv: "ratchet_inv (init_alice env fresh ss p)" "ratchet_inv (init_bob env ss sec)"
  by (simp_all add: init_alice_def init_bob_def ratchet_inv_def case_prod_unfold)

section \<open>Chains\<close>

text \<open>Position \<open>i\<close> of a chain: its chain key and its message key.\<close>

fun chain_key :: "ratchet_env \<Rightarrow> array32 \<Rightarrow> nat \<Rightarrow> array32" where
  "chain_key env ck 0 = ck"
| "chain_key env ck (Suc i) = fst (kdf_ck env (chain_key env ck i))"

definition chain_message_key :: "ratchet_env \<Rightarrow> array32 \<Rightarrow> nat \<Rightarrow> array32" where
  "chain_message_key env ck i = snd (kdf_ck env (chain_key env ck i))"

text \<open>
  A receiver inside the chain \<open>ck0\<close> of \<open>peer\<close>, having opened the positions \<open>D\<close>: it buffers the
  keys of exactly the positions passed over and not opened. At most \<open>base\<close> keys of other chains
  are buffered.
\<close>

definition receiving :: "ratchet_env \<Rightarrow> array32 \<Rightarrow> array32 \<Rightarrow> nat \<Rightarrow> u32 set \<Rightarrow> ratchet_state \<Rightarrow> bool" where
  "receiving env peer ck0 base D st \<longleftrightarrow>
     dhr st = Some peer \<and> ckr st = Some (chain_key env ck0 (unat (nr st)))
     \<and> finite (dom (skipped st)) \<and> card (dom (skipped st)) \<le> base + unat (nr st)
     \<and> (\<forall>n. skipped st (peer, n) =
          (if n < nr st \<and> n \<notin> D then Some (chain_message_key env ck0 (unat n)) else None))
     \<and> (\<forall>n\<in>D. n < nr st)"

lemma receivingD:
  assumes "receiving env peer ck0 base D st"
  shows "dhr st = Some peer" and "ckr st = Some (chain_key env ck0 (unat (nr st)))"
    and "finite (dom (skipped st))" and "card (dom (skipped st)) \<le> base + unat (nr st)"
    and "skipped st (peer, n) =
      (if n < nr st \<and> n \<notin> D then Some (chain_message_key env ck0 (unat n)) else None)"
    and "n \<in> D \<Longrightarrow> n < nr st"
  using assms unfolding receiving_def by blast+

lemma less_succ_iff:
  fixes a b c :: "'a::len word"
  assumes "b < c"
  shows "a < b + 1 \<longleftrightarrow> a < b \<or> a = b"
  using unat_succ_less [OF assms] by (auto simp: word_less_nat_alt less_Suc_eq word_unat_eq_iff)

lemma skip_one_receiving:
  assumes inv: "receiving env peer ck0 base D st" and less: "nr st < until"
    and room: "base + unat until \<le> MAX_SKIPPED_TOTAL"
  shows "receiving env peer ck0 base D
    (skip_one env peer (chain_key env ck0 (unat (nr st))) st\<lparr>ckr := Some (chain_key env ck0 (unat (nr st + 1)))\<rparr>)"
proof -
  note i = receivingD [OF inv] and succ = unat_succ_less [OF less]
  let ?m = "(skipped st)((peer, nr st) \<mapsto> chain_message_key env ck0 (unat (nr st)))"
  have "card (dom ?m) \<le> Suc (card (dom (skipped st)))"
    using i(3) by (simp add: card_insert_if)
  then have card: "card (dom ?m) \<le> base + unat (nr st + 1)" using i(4) succ by simp
  also have "\<dots> \<le> MAX_SKIPPED_TOTAL" using room less succ by (simp add: word_less_nat_alt)
  finally have one: "skip_one env peer (chain_key env ck0 (unat (nr st))) st
      = st\<lparr>skipped := ?m, skipped_order := skipped_order st @ [(peer, nr st)], nr := nr st + 1\<rparr>"
    by (simp add: skip_one_def evict_id chain_message_key_def)
  have new: "?m (peer, n) = (if n < nr st + 1 \<and> n \<notin> D then Some (chain_message_key env ck0 (unat n)) else None)" for n
    using i(5) [of n] i(6) [of n] less_succ_iff [OF less, of n] by (auto split: if_splits)
  have "n < nr st + 1" if "n \<in> D" for n using i(6) [OF that] less_succ_iff [OF less] by blast
  then show ?thesis
    unfolding receiving_def one using i(1,3) card new by simp
qed

lemma skip_loop_receiving:
  assumes "receiving env peer ck0 base D st" and "nr st \<le> until"
    and "base + unat until \<le> MAX_SKIPPED_TOTAL"
  shows "receiving env peer ck0 base D (skip_loop env peer until (chain_key env ck0 (unat (nr st))) st)
    \<and> nr (skip_loop env peer until (chain_key env ck0 (unat (nr st))) st) = until"
proof -
  let ?I = "\<lambda>ck st'. ck = chain_key env ck0 (unat (nr st')) \<and> nr st' \<le> until
    \<and> receiving env peer ck0 base D (st'\<lparr>ckr := Some ck\<rparr>)"
  have "?I (chain_key env ck0 (unat (nr st))) st"
    using assms(1,2) by (simp add: receiving_def)
  then have "\<exists>ck' st'. ?I ck' st' \<and> \<not> nr st' < until
      \<and> skip_loop env peer until (chain_key env ck0 (unat (nr st))) st = st'\<lparr>ckr := Some ck'\<rparr>"
  proof (rule skip_loop_rule)
    fix ck st' assume I: "?I ck st'" and less: "nr st' < until"
    let ?st = "st'\<lparr>ckr := Some ck\<rparr>"
    have step: "receiving env peer ck0 base D
        (skip_one env peer (chain_key env ck0 (unat (nr ?st))) ?st\<lparr>ckr := Some (chain_key env ck0 (unat (nr ?st + 1)))\<rparr>)"
      using I less assms(3) by (intro skip_one_receiving) auto
    have "skip_one env peer ck ?st\<lparr>ckr := x\<rparr> = skip_one env peer ck st'\<lparr>ckr := x\<rparr>" for x
      by (simp add: skip_one_def Let_def)
    moreover have "nr st' + 1 \<le> until"
      using less unat_succ_less [OF less] by (simp add: word_less_nat_alt word_le_nat_alt)
    ultimately show "?I (fst (kdf_ck env ck)) (skip_one env peer ck st')"
      using step I unat_succ_less [OF less] by simp
  qed
  then show ?thesis by force
qed

section \<open>Delivery inside a chain\<close>

text \<open>A message of the chain, as its sender seals it.\<close>

definition sealed_at ::
  "ratchet_env \<Rightarrow> array32 \<Rightarrow> array32 \<Rightarrow> ratchet_header \<Rightarrow> bytes \<Rightarrow> bytes \<Rightarrow> bool" where
  "sealed_at env peer ck0 header body sealed \<longleftrightarrow>
     h_ratchet_pub header = peer
     \<and> aead_encrypt env (chain_message_key env ck0 (unat (h_n header))) body (bincode_header env header)
         = Inr sealed"

lemma aead_opens_sealed:
  assumes "aead_opens env" and "aead_encrypt env mk body aad = Inr sealed"
  shows "aead_decrypt env mk sealed aad = Inr body"
proof -
  obtain key nonce where k: "message_keys env mk = (key, nonce)" by fastforce
  from assms(1) obtain s where "aes_gcm_encrypt env key nonce body aad = Some s"
    "aes_gcm_decrypt env key nonce s aad = Some body"
    unfolding aead_opens_def by blast
  with k assms(2) show ?thesis by (simp add: aead_encrypt_def aead_decrypt_def)
qed

lemma advance_receiving:
  assumes inv: "receiving env peer ck0 base D st" and "aead_opens env"
    and msg: "sealed_at env peer ck0 header body sealed"
    and ahead: "nr st \<le> h_n header" and window: "unat (h_n header) \<le> 1000" and base: "base \<le> 1000"
  shows "\<exists>st'. ratchet_advance env header sealed st = (Inr body, st')
    \<and> receiving env peer ck0 base (insert (h_n header) D) st'"
proof -
  let ?n = "h_n header"
  define st1 where "st1 = skip_loop env peer ?n (chain_key env ck0 (unat (nr st))) st"
  have st1: "receiving env peer ck0 base D st1" "nr st1 = ?n"
    using skip_loop_receiving [OF inv ahead] base window by (auto simp: st1_def MAX_SKIPPED_TOTAL_def)
  note i = receivingD [OF inv] and j = receivingD [OF st1(1)]
  have "unat (?n - nr st) \<le> 1000"
    using window ahead by (simp add: unat_sub word_le_nat_alt)
  then have "\<not> ?n - nr st > MAX_SKIP" by (simp add: MAX_SKIP_def word_less_nat_alt)
  then have skip: "skip_message_keys env ?n st = (Inr (), st1)"
    using ahead i(1,2) by (simp add: skip_message_keys_def st1_def)
  have less: "?n < 1001" using window by (simp add: word_less_nat_alt)
  let ?st' = "st1\<lparr>ckr := Some (chain_key env ck0 (unat (?n + 1))), nr := ?n + 1\<rparr>"
  have adv: "ratchet_advance env header sealed st = (Inr body, ?st')"
    using skip j(2) st1(2) aead_opens_sealed [OF assms(2)] msg unat_succ_less [OF less]
    by (simp add: ratchet_advance_def sealed_at_def chain_message_key_def case_prod_unfold)
  have keys: "skipped st1 (peer, n) = (if n < ?n + 1 \<and> n \<notin> insert ?n D
      then Some (chain_message_key env ck0 (unat n)) else None)" for n
    using j(5) [of n] st1(2) less_succ_iff [OF less, of n] by auto
  have "receiving env peer ck0 base (insert ?n D) ?st'"
    unfolding receiving_def
    using j(1,3,4) st1(2) keys j(6) less_succ_iff [OF less] unat_succ_less [OF less] by auto
  with adv show ?thesis by blast
qed

lemma take_receiving:
  assumes inv: "receiving env peer ck0 base D st" and "n < nr st"
  shows "receiving env peer ck0 base (insert n D) (take_skipped (peer, n) st)"
proof -
  note i = receivingD [OF inv]
  have "card (dom (skipped st) - {(peer, n)}) \<le> base + unat (nr st)"
    using i(4) card_Diff1_le [of "dom (skipped st)" "(peer, n)"] by linarith
  then show ?thesis
    unfolding receiving_def take_skipped_def using i(1-3,5,6) assms(2) by simp
qed

lemma decrypt_receiving:
  assumes inv: "receiving env peer ck0 base D st" and "aead_opens env"
    and msg: "sealed_at env peer ck0 header body sealed"
    and fresh_n: "h_n header \<notin> D" and window: "unat (h_n header) \<le> 1000" and base: "base \<le> 1000"
  shows "\<exists>st'. ratchet_decrypt env fresh st header sealed = (Inr body, st')
    \<and> receiving env peer ck0 base (insert (h_n header) D) st'"
proof (cases "h_n header < nr st")
  case True
  then have "skipped st (peer, h_n header) = Some (chain_message_key env ck0 (unat (h_n header)))"
    using receivingD(5) [OF inv] fresh_n by simp
  then show ?thesis
    using take_receiving [OF inv True] aead_opens_sealed [OF assms(2)] msg
    by (simp add: ratchet_decrypt_cases sealed_at_def)
next
  case False
  then have "skipped st (peer, h_n header) = None"
    using receivingD(5) [OF inv] by simp
  moreover have "h_ratchet_pub header = peer" using msg by (simp add: sealed_at_def)
  ultimately have "ratchet_decrypt env fresh st header sealed = ratchet_advance env header sealed st"
    using receivingD(1) [OF inv] by (simp add: ratchet_decrypt_cases)
  with advance_receiving [OF inv assms(2) msg _ window base] False show ?thesis by simp
qed

text \<open>Receiving a sequence of messages; each comes with the secret drawn if it starts a new chain.\<close>

fun decrypt_all ::
  "ratchet_env \<Rightarrow> ratchet_state \<Rightarrow> (array32 \<times> ratchet_header \<times> bytes) list
   \<Rightarrow> (ratchet_error + bytes) list \<times> ratchet_state" where
  "decrypt_all env st [] = ([], st)"
| "decrypt_all env st ((fresh, header, sealed) # ms) =
     (case ratchet_decrypt env fresh st header sealed of (r, st') \<Rightarrow>
      case decrypt_all env st' ms of (rs, st'') \<Rightarrow> (r # rs, st''))"

fun encrypt_all ::
  "ratchet_env \<Rightarrow> ratchet_state \<Rightarrow> bytes list
   \<Rightarrow> (ratchet_error + (ratchet_header \<times> bytes)) list \<times> ratchet_state" where
  "encrypt_all env st [] = ([], st)"
| "encrypt_all env st (body # bodies) =
     (case ratchet_encrypt env st body of (r, st') \<Rightarrow>
      case encrypt_all env st' bodies of (rs, st'') \<Rightarrow> (r # rs, st''))"

lemma decrypt_all_receiving:
  assumes "receiving env peer ck0 base D st" and "aead_opens env" and "base \<le> 1000"
    and "list_all2 (\<lambda>(fresh, header, sealed) body. sealed_at env peer ck0 header body sealed
           \<and> unat (h_n header) \<le> 1000 \<and> h_n header \<notin> D) ms bodies"
    and "distinct (map (\<lambda>(fresh, header, sealed). h_n header) ms)"
  shows "fst (decrypt_all env st ms) = map Inr bodies"
  using assms(1,4,5)
proof (induction ms arbitrary: bodies st D)
  case (Cons m ms)
  obtain fresh header sealed where m: "m = (fresh, header, sealed)" by (cases m)
  from Cons.prems(2) m obtain body bodies' where bodies: "bodies = body # bodies'"
    and hd: "sealed_at env peer ck0 header body sealed" "unat (h_n header) \<le> 1000" "h_n header \<notin> D"
    and tl: "list_all2 (\<lambda>(fresh, header, sealed) body. sealed_at env peer ck0 header body sealed
           \<and> unat (h_n header) \<le> 1000 \<and> h_n header \<notin> D) ms bodies'"
    by (auto simp: list_all2_Cons1)
  obtain st' where st': "ratchet_decrypt env fresh st header sealed = (Inr body, st')"
    "receiving env peer ck0 base (insert (h_n header) D) st'"
    using decrypt_receiving [OF Cons.prems(1) assms(2) hd(1,3,2) assms(3)] by blast
  have "list_all2 (\<lambda>(fresh, header', sealed) body. sealed_at env peer ck0 header' body sealed
      \<and> unat (h_n header') \<le> 1000 \<and> h_n header' \<notin> insert (h_n header) D) ms bodies'"
    using tl by (rule list.rel_mono_strong) (use Cons.prems(3) m in force)
  from Cons.IH [OF st'(2) this] Cons.prems(3) st'(1) show ?case
    by (simp add: m bodies case_prod_unfold)
qed simp

section \<open>A new session\<close>

lemma encrypt_sealed:
  assumes "aead_opens env" and "cks st = Some (chain_key env ck0 (unat (ns st)))" and "unat (ns st) < 2 ^ 32 - 1"
  shows "\<exists>header sealed st'. ratchet_encrypt env st body = (Inr (header, sealed), st')
    \<and> sealed_at env (dhs_public st) ck0 header body sealed \<and> h_n header = ns st \<and> h_pn header = pn st
    \<and> st' = st\<lparr>cks := Some (chain_key env ck0 (unat (ns st + 1))), ns := ns st + 1\<rparr>
    \<and> unat (ns st + 1) = Suc (unat (ns st))"
proof -
  let ?h = "\<lparr>h_ratchet_pub = dhs_public st, h_pn = pn st, h_n = ns st\<rparr>"
  let ?mk = "chain_message_key env ck0 (unat (ns st))"
  obtain key nonce where k: "message_keys env ?mk = (key, nonce)" by fastforce
  obtain sealed where s: "aes_gcm_encrypt env key nonce body (bincode_header env ?h) = Some sealed"
    using assms(1) unfolding aead_opens_def by blast
  then have enc: "aead_encrypt env ?mk body (bincode_header env ?h) = Inr sealed"
    by (simp add: aead_encrypt_def k)
  have succ: "unat (ns st + 1) = Suc (unat (ns st))"
    using assms(3) unat_succ_less [of "ns st" "- 1"]
    by (simp add: word_less_nat_alt unsigned_minus_1_eq_mask mask_eq_exp_minus_1)
  have "ratchet_encrypt env st body
      = (Inr (?h, sealed), st\<lparr>cks := Some (chain_key env ck0 (unat (ns st + 1))), ns := ns st + 1\<rparr>)"
    using assms(2) enc succ by (simp add: ratchet_encrypt_def case_prod_unfold chain_message_key_def)
  with enc succ show ?thesis by (simp add: sealed_at_def)
qed

lemma encrypt_all_sealed:
  assumes "aead_opens env" and "cks st = Some (chain_key env ck0 (unat (ns st)))"
    and "unat (ns st) + length bodies < 2 ^ 32"
  shows "\<exists>ms. fst (encrypt_all env st bodies) = map Inr ms \<and> length ms = length bodies
    \<and> (\<forall>i < length bodies. sealed_at env (dhs_public st) ck0 (fst (ms ! i)) (bodies ! i) (snd (ms ! i))
         \<and> unat (h_n (fst (ms ! i))) = unat (ns st) + i)"
  using assms(2,3)
proof (induction bodies arbitrary: st)
  case (Cons body bodies)
  obtain header sealed st' where m: "ratchet_encrypt env st body = (Inr (header, sealed), st')"
    "sealed_at env (dhs_public st) ck0 header body sealed" "h_n header = ns st"
    "st' = st\<lparr>cks := Some (chain_key env ck0 (unat (ns st + 1))), ns := ns st + 1\<rparr>"
    "unat (ns st + 1) = Suc (unat (ns st))"
    using encrypt_sealed [OF assms(1) Cons.prems(1), of body] Cons.prems(2) by auto
  have st': "cks st' = Some (chain_key env ck0 (unat (ns st')))" "unat (ns st') = Suc (unat (ns st))"
    "dhs_public st' = dhs_public st" using m(4,5) by simp_all
  obtain ms where ms: "fst (encrypt_all env st' bodies) = map Inr ms" "length ms = length bodies"
    "\<forall>i < length bodies. sealed_at env (dhs_public st) ck0 (fst (ms ! i)) (bodies ! i) (snd (ms ! i))
         \<and> unat (h_n (fst (ms ! i))) = Suc (unat (ns st)) + i"
    using Cons.IH [OF st'(1)] Cons.prems(2) st'(2,3) by auto
  have "fst (encrypt_all env st (body # bodies)) = map Inr ((header, sealed) # ms)"
    using m(1) ms(1) by (simp add: case_prod_unfold)
  moreover have "sealed_at env (dhs_public st) ck0 (fst (((header, sealed) # ms) ! i)) ((body # bodies) ! i)
      (snd (((header, sealed) # ms) ! i)) \<and> unat (h_n (fst (((header, sealed) # ms) ! i))) = unat (ns st) + i"
    if "i < length (body # bodies)" for i
    using that m(2,3) ms(3) by (cases i) auto
  ultimately show ?case using ms(2) by (intro exI [of _ "(header, sealed) # ms"]) simp
qed simp

lemma dh_ratchet_receiving:
  assumes "kdf_rk env (rk st) (x25519_dh env (dhs_secret st) peer) = (rk2, ck0)"
    and "\<And>n. skipped st (peer, n) = None" and "finite (dom (skipped st))" and "card (dom (skipped st)) \<le> base"
  shows "receiving env peer ck0 base {} (dh_ratchet env fresh peer st)"
  using assms by (simp add: receiving_def dh_ratchet_def case_prod_unfold)

lemma decrypt_all_first:
  assumes "dhr st \<noteq> Some peer" and "ckr st = None" and "\<And>n. skipped st (peer, n) = None"
    and "h_ratchet_pub header = peer"
  shows "decrypt_all env st ((fresh, header, sealed) # ms)
    = decrypt_all env (dh_ratchet env fresh peer st) ((fresh, header, sealed) # ms)"
proof -
  have "skipped (dh_ratchet env fresh peer st) = skipped st" "dhr (dh_ratchet env fresh peer st) = Some peer"
    by (simp_all add: dh_ratchet_def case_prod_unfold)
  then have "ratchet_decrypt env fresh st header sealed
      = ratchet_decrypt env fresh (dh_ratchet env fresh peer st) header sealed"
    using assms by (simp add: ratchet_decrypt_cases skip_message_keys_def)
  then show ?thesis by simp
qed

text \<open>
  C15. A new session delivers: whatever Alice seals first, up to a thousand messages, Bob opens,
  in whatever order they arrive and whichever are lost, each to the text Alice sealed.
\<close>

theorem new_session_opens_any_order:
  assumes "aead_opens env" and "dh_agrees env" and "length bodies \<le> 1000"
    and "distinct picks" and "\<forall>i\<in>set picks. i < length bodies"
  shows "\<exists>ms. fst (encrypt_all env (init_alice env sa shared (x25519_base env sb)) bodies) = map Inr ms
    \<and> fst (decrypt_all env (init_bob env shared sb) (map (\<lambda>i. (fresh i, ms ! i)) picks))
        = map (\<lambda>i. Inr (bodies ! i)) picks"
proof -
  let ?a = "init_alice env sa shared (x25519_base env sb)" and ?b = "init_bob env shared sb"
  let ?peer = "x25519_base env sa"
  obtain rk2 ck0 where root: "kdf_rk env shared (x25519_dh env sa (x25519_base env sb)) = (rk2, ck0)"
    by fastforce
  have a: "cks ?a = Some (chain_key env ck0 (unat (ns ?a)))" "unat (ns ?a) = 0" "dhs_public ?a = ?peer"
    by (simp_all add: init_alice_def root)
  obtain ms where ms: "fst (encrypt_all env ?a bodies) = map Inr ms" "length ms = length bodies"
    "\<forall>i < length bodies. sealed_at env ?peer ck0 (fst (ms ! i)) (bodies ! i) (snd (ms ! i))
       \<and> unat (h_n (fst (ms ! i))) = i"
    using encrypt_all_sealed [OF assms(1) a(1), of bodies] assms(3) a(2,3) by auto
  have b: "receiving env ?peer ck0 0 {} (dh_ratchet env f ?peer ?b)" for f
    using root assms(2) by (intro dh_ratchet_receiving) (auto simp: init_bob_def dh_agrees_def)
  have lim: "picks ! i \<le> 1000" "picks ! i < length bodies" if "i < length picks" for i
    using that assms(3,5) nth_mem [OF that] by fastforce+
  have all: "list_all2 (\<lambda>(fresh, header, sealed) body. sealed_at env ?peer ck0 header body sealed
           \<and> unat (h_n header) \<le> 1000 \<and> h_n header \<notin> {})
        (map (\<lambda>i. (fresh i, ms ! i)) picks) (map ((!) bodies) picks)"
    using lim ms(3) by (simp add: list_all2_conv_all_nth case_prod_unfold)
  have "inj_on (\<lambda>i. h_n (fst (ms ! i))) (set picks)"
    using ms(3) assms(5) by (intro inj_onI) metis
  then have dist: "distinct (map (\<lambda>(fresh, header, sealed). h_n header) (map (\<lambda>i. (fresh i, ms ! i)) picks))"
    using assms(4) by (simp add: distinct_map case_prod_unfold comp_def)
  have "fst (decrypt_all env ?b (map (\<lambda>i. (fresh i, ms ! i)) picks)) = map Inr (map ((!) bodies) picks)"
  proof (cases picks)
    case (Cons i js)
    then have "h_ratchet_pub (fst (ms ! i)) = ?peer" using ms(3) assms(5) by (auto simp: sealed_at_def)
    then have "decrypt_all env ?b (map (\<lambda>i. (fresh i, ms ! i)) picks)
        = decrypt_all env (dh_ratchet env (fresh i) ?peer ?b) (map (\<lambda>i. (fresh i, ms ! i)) picks)"
      using decrypt_all_first [of ?b ?peer "fst (ms ! i)" env "fresh i" "snd (ms ! i)"] Cons
      by (simp add: init_bob_def)
    with decrypt_all_receiving [OF b assms(1) _ all dist] show ?thesis by simp
  qed simp
  with ms(1) show ?thesis by (auto simp: comp_def)
qed

section \<open>A conversation\<close>

text \<open>
  \<open>established x y\<close>: \<open>y\<close> is level with the chain \<open>x\<close> sends on. \<open>pending x y\<close>: \<open>x\<close> has a new
  chain \<open>y\<close> has not seen and will derive from the header.
\<close>

definition established :: "ratchet_state \<Rightarrow> ratchet_state \<Rightarrow> bool" where
  "established x y \<longleftrightarrow> dhr y = Some (dhs_public x) \<and> cks x \<noteq> None \<and> ckr y = cks x \<and> nr y = ns x"

definition pending :: "ratchet_env \<Rightarrow> ratchet_state \<Rightarrow> ratchet_state \<Rightarrow> bool" where
  "pending env x y \<longleftrightarrow>
     (\<exists>ck. cks x = Some ck \<and> kdf_rk env (rk y) (x25519_dh env (dhs_secret y) (dhs_public x)) = (rk x, ck))
     \<and> ns x = 0 \<and> dhr y \<noteq> Some (dhs_public x) \<and> dhr x = Some (dhs_public y)
     \<and> (ckr y \<noteq> None \<longrightarrow> dhr y \<noteq> None \<and> nr y = pn x)"

definition in_step :: "ratchet_env \<Rightarrow> ratchet_state \<Rightarrow> ratchet_state \<Rightarrow> bool" where
  "in_step env x y \<longleftrightarrow>
     pending env x y \<and> (established y x \<or> cks y = None \<and> ckr x = None)
     \<and> skipped x = Map.empty \<and> skipped y = Map.empty
     \<and> dhs_public x = x25519_base env (dhs_secret x) \<and> dhs_public y = x25519_base env (dhs_secret y)"

lemma skip_level:
  "ckr st \<noteq> None \<longrightarrow> dhr st \<noteq> None \<and> nr st = until \<Longrightarrow> skip_message_keys env until st = (Inr (), st)"
  by (cases "ckr st") (auto simp: skip_message_keys_def skip_loop_unfold)

lemma encrypt_step:
  assumes "aead_opens env" and "cks x = Some ck"
  shows "\<exists>sealed. ratchet_encrypt env x body
      = (Inr (\<lparr>h_ratchet_pub = dhs_public x, h_pn = pn x, h_n = ns x\<rparr>, sealed),
         x\<lparr>cks := Some (fst (kdf_ck env ck)), ns := ns x + 1\<rparr>)
    \<and> aead_decrypt env (snd (kdf_ck env ck)) sealed
        (bincode_header env \<lparr>h_ratchet_pub = dhs_public x, h_pn = pn x, h_n = ns x\<rparr>) = Inr body"
proof -
  let ?h = "\<lparr>h_ratchet_pub = dhs_public x, h_pn = pn x, h_n = ns x\<rparr>"
  obtain key nonce where k: "message_keys env (snd (kdf_ck env ck)) = (key, nonce)" by fastforce
  obtain sealed where s: "aes_gcm_encrypt env key nonce body (bincode_header env ?h) = Some sealed"
    "aes_gcm_decrypt env key nonce sealed (bincode_header env ?h) = Some body"
    using assms(1) unfolding aead_opens_def by blast
  then show ?thesis
    using assms(2) k by (simp add: ratchet_encrypt_def aead_encrypt_def aead_decrypt_def case_prod_unfold)
qed

lemma advance_level:
  assumes "ckr y = Some ck" and "dhr y \<noteq> None" and "nr y = h_n header"
  shows "ratchet_advance env header sealed y
    = (aead_decrypt env (snd (kdf_ck env ck)) sealed (bincode_header env header),
       y\<lparr>ckr := Some (fst (kdf_ck env ck)), nr := nr y + 1\<rparr>)"
  using assms skip_level [of y "h_n header" env] by (simp add: ratchet_advance_def case_prod_unfold)

text \<open>A message on the new chain turns the roles round.\<close>

lemma pending_delivers:
  assumes "aead_opens env" and "dh_agrees env" and step: "in_step env x y"
    and new: "x25519_base env fresh \<noteq> dhs_public y"
  shows "\<exists>header sealed x' y'. ratchet_encrypt env x body = (Inr (header, sealed), x')
    \<and> ratchet_decrypt env fresh y header sealed = (Inr body, y') \<and> in_step env y' x' \<and> cks x' \<noteq> None
    \<and> dhs_public x' = dhs_public x \<and> dhs_public y' = x25519_base env fresh"
proof -
  from step obtain ck where ck: "cks x = Some ck"
    "kdf_rk env (rk y) (x25519_dh env (dhs_secret y) (dhs_public x)) = (rk x, ck)"
    and p: "ns x = 0" "dhr y \<noteq> Some (dhs_public x)" "dhr x = Some (dhs_public y)"
      "ckr y \<noteq> None \<longrightarrow> dhr y \<noteq> None \<and> nr y = pn x"
    and e: "established y x \<or> cks y = None \<and> ckr x = None"
    and s: "skipped x = Map.empty" "skipped y = Map.empty"
    and k: "dhs_public x = x25519_base env (dhs_secret x)" "dhs_public y = x25519_base env (dhs_secret y)"
    unfolding in_step_def pending_def by blast
  obtain rk3 ck3 where next_root: "kdf_rk env (rk x) (x25519_dh env fresh (dhs_public x)) = (rk3, ck3)"
    by fastforce
  let ?h = "\<lparr>h_ratchet_pub = dhs_public x, h_pn = pn x, h_n = ns x\<rparr>"
  let ?x' = "x\<lparr>cks := Some (fst (kdf_ck env ck)), ns := ns x + 1\<rparr>"
  let ?y1 = "y\<lparr>pn := ns y, ns := 0, nr := 0, dhr := Some (dhs_public x), ckr := Some ck, dhs_secret := fresh,
    dhs_public := x25519_base env fresh, rk := rk3, cks := Some ck3\<rparr>"
  let ?y' = "?y1\<lparr>ckr := Some (fst (kdf_ck env ck)), nr := 1\<rparr>"
  obtain sealed where m: "ratchet_encrypt env x body = (Inr (?h, sealed), ?x')"
    "aead_decrypt env (snd (kdf_ck env ck)) sealed (bincode_header env ?h) = Inr body"
    using encrypt_step [OF assms(1) ck(1)] by blast
  have y1: "dh_ratchet env fresh (dhs_public x) y = ?y1"
    using ck(2) next_root by (simp add: dh_ratchet_def)
  have skip: "skip_message_keys env (pn x) y = (Inr (), y)"
    using p(4) by (intro skip_level) auto
  have dec: "ratchet_decrypt env fresh y ?h sealed = (Inr body, ?y')"
    using p(1,2) s(2) skip y1 m(2) advance_level [of ?y1 ck ?h env sealed]
    by (simp add: ratchet_decrypt_cases)
  have "x25519_dh env (dhs_secret x) (x25519_base env fresh) = x25519_dh env fresh (dhs_public x)"
    using assms(2) k(1) by (simp add: dh_agrees_def)
  then have "pending env ?y' ?x'"
    using next_root p(3) new e by (auto simp: pending_def established_def)
  moreover have "established ?x' ?y'" using p(1) by (simp add: established_def)
  ultimately have "in_step env ?y' ?x'" using s k by (simp add: in_step_def)
  with m(1) dec show ?thesis by (intro exI) auto
qed

text \<open>A message on the established chain leaves the roles as they are.\<close>

lemma established_delivers:
  assumes "aead_opens env" and step: "in_step env x y" and can_send: "cks y \<noteq> None"
  shows "\<exists>header sealed x' y'. ratchet_encrypt env y body = (Inr (header, sealed), y')
    \<and> ratchet_decrypt env fresh x header sealed = (Inr body, x') \<and> in_step env x' y'
    \<and> dhs_public x' = dhs_public x \<and> dhs_public y' = dhs_public y \<and> cks y' \<noteq> None"
proof -
  from step can_send have e: "established y x" and s: "skipped x = Map.empty" "skipped y = Map.empty"
    and p: "pending env x y"
    unfolding in_step_def by auto
  then obtain ck where ck: "cks y = Some ck" "ckr x = Some ck" "nr x = ns y" "dhr x = Some (dhs_public y)"
    using can_send by (auto simp: established_def)
  let ?h = "\<lparr>h_ratchet_pub = dhs_public y, h_pn = pn y, h_n = ns y\<rparr>"
  let ?y' = "y\<lparr>cks := Some (fst (kdf_ck env ck)), ns := ns y + 1\<rparr>"
  let ?x' = "x\<lparr>ckr := Some (fst (kdf_ck env ck)), nr := nr x + 1\<rparr>"
  obtain sealed where m: "ratchet_encrypt env y body = (Inr (?h, sealed), ?y')"
    "aead_decrypt env (snd (kdf_ck env ck)) sealed (bincode_header env ?h) = Inr body"
    using encrypt_step [OF assms(1) ck(1)] by blast
  have dec: "ratchet_decrypt env fresh x ?h sealed = (Inr body, ?x')"
    using ck s(1) m(2) advance_level [of x ck ?h env sealed] by (simp add: ratchet_decrypt_cases)
  have "pending env ?x' ?y'" using p by (simp add: pending_def)
  moreover have "established ?y' ?x'" using ck by (simp add: established_def)
  ultimately have "in_step env ?x' ?y'"
    using step by (simp add: in_step_def)
  with m(1) dec show ?thesis by (intro exI) auto
qed

text \<open>
  A conversation: who speaks, the text, and the secret the listener draws should the message
  start a new chain. The result is what each listener reads.
\<close>

fun converse ::
  "ratchet_env \<Rightarrow> ratchet_state \<Rightarrow> ratchet_state \<Rightarrow> (bool \<times> bytes \<times> array32) list \<Rightarrow> (ratchet_error + bytes) list" where
  "converse env a b [] = []"
| "converse env a b ((True, body, fresh) # turns) =
     (case ratchet_encrypt env a body of
        (Inl err, a') \<Rightarrow> Inl err # converse env a' b turns
      | (Inr (header, sealed), a') \<Rightarrow>
          (case ratchet_decrypt env fresh b header sealed of (r, b') \<Rightarrow> r # converse env a' b' turns))"
| "converse env a b ((False, body, fresh) # turns) =
     (case ratchet_encrypt env b body of
        (Inl err, b') \<Rightarrow> Inl err # converse env a b' turns
      | (Inr (header, sealed), b') \<Rightarrow>
          (case ratchet_decrypt env fresh a header sealed of (r, a') \<Rightarrow> r # converse env a' b' turns))"

definition both_send :: "ratchet_env \<Rightarrow> ratchet_state \<Rightarrow> ratchet_state \<Rightarrow> bool" where
  "both_send env a b \<longleftrightarrow> in_step env a b \<and> cks b \<noteq> None \<or> in_step env b a \<and> cks a \<noteq> None"

lemma both_send_sym: "both_send env a b \<longleftrightarrow> both_send env b a"
  by (auto simp: both_send_def)

lemma turn_delivers:
  assumes "aead_opens env" and "dh_agrees env" and "both_send env a b" and "x25519_base env fresh \<noteq> dhs_public b"
  shows "\<exists>header sealed a' b'. ratchet_encrypt env a body = (Inr (header, sealed), a')
    \<and> ratchet_decrypt env fresh b header sealed = (Inr body, b') \<and> both_send env a' b'
    \<and> dhs_public a' = dhs_public a \<and> dhs_public b' \<in> {dhs_public b, x25519_base env fresh}"
proof (cases "in_step env a b \<and> cks b \<noteq> None")
  case True
  then show ?thesis
    using pending_delivers [OF assms(1,2) _ assms(4), of a body] unfolding both_send_def by blast
next
  case False
  then have "in_step env b a" "cks a \<noteq> None" using assms(3) by (auto simp: both_send_def)
  then show ?thesis
    using established_delivers [OF assms(1), of b a body fresh] unfolding both_send_def by blast
qed

lemma converse_both:
  assumes "aead_opens env" and "dh_agrees env" and "both_send env a b"
    and "distinct (dhs_public a # dhs_public b # map (\<lambda>(_, _, f). x25519_base env f) turns)"
  shows "converse env a b turns = map (\<lambda>(_, body, _). Inr body) turns"
  using assms(3,4)
proof (induction turns arbitrary: a b)
  case (Cons t turns)
  obtain who body fresh where t: "t = (who, body, fresh)" by (cases t)
  let ?fs = "map (\<lambda>(_, _, f). x25519_base env f) turns"
  have pubs: "distinct (dhs_public a # dhs_public b # x25519_base env fresh # ?fs)"
    using Cons.prems(2) t by simp
  then have new: "x25519_base env fresh \<noteq> dhs_public a" "x25519_base env fresh \<noteq> dhs_public b"
    by auto
  show ?case
  proof (cases who)
    case True
    obtain header sealed a' b' where d: "ratchet_encrypt env a body = (Inr (header, sealed), a')"
      "ratchet_decrypt env fresh b header sealed = (Inr body, b')" "both_send env a' b'"
      "dhs_public a' = dhs_public a" "dhs_public b' \<in> {dhs_public b, x25519_base env fresh}"
      using turn_delivers [OF assms(1,2) Cons.prems(1) new(2), of body] by blast
    have "distinct (dhs_public a' # dhs_public b' # ?fs)" using d(5) pubs new by (elim insertE) (simp_all add: d(4))
    with Cons.IH [OF d(3)] d(1,2) t True show ?thesis by simp
  next
    case False
    obtain header sealed a' b' where d: "ratchet_encrypt env b body = (Inr (header, sealed), b')"
      "ratchet_decrypt env fresh a header sealed = (Inr body, a')" "both_send env a' b'"
      "dhs_public b' = dhs_public b" "dhs_public a' \<in> {dhs_public a, x25519_base env fresh}"
      using turn_delivers [OF assms(1,2) _ new(1), of b body] Cons.prems(1) both_send_sym by metis
    have "distinct (dhs_public a' # dhs_public b' # ?fs)" using d(5) pubs new by (elim insertE) (simp_all add: d(4))
    with Cons.IH [OF d(3)] d(1,2) t False show ?thesis by simp
  qed
qed simp

text \<open>
  C16. A conversation stays in step: when Alice speaks first, every message either side sends,
  whoever speaks when and for as long as they like, is read by the other as it was written, with
  both sides ratcheting as they go, provided no drawn key repeats.
\<close>

theorem conversation_stays_in_step:
  assumes "aead_opens env" and "dh_agrees env"
    and "distinct (map (x25519_base env) (sa # sb # fresh # map (\<lambda>(_, _, f). f) turns))"
  shows "converse env (init_alice env sa shared (x25519_base env sb)) (init_bob env shared sb)
      ((True, body, fresh) # turns)
    = Inr body # map (\<lambda>(_, body, _). Inr body) turns"
proof -
  let ?a = "init_alice env sa shared (x25519_base env sb)" and ?b = "init_bob env shared sb"
  have "in_step env ?a ?b"
    using assms(2,3)
    by (simp add: in_step_def pending_def init_alice_def init_bob_def case_prod_unfold dh_agrees_def)
  moreover have "x25519_base env fresh \<noteq> dhs_public ?b" using assms(3) by (auto simp: init_bob_def)
  ultimately obtain header sealed a' b' where d: "ratchet_encrypt env ?a body = (Inr (header, sealed), a')"
    "ratchet_decrypt env fresh ?b header sealed = (Inr body, b')" "in_step env b' a'" "cks a' \<noteq> None"
    "dhs_public a' = dhs_public ?a" "dhs_public b' = x25519_base env fresh"
    using pending_delivers [OF assms(1,2)] by blast
  have "dhs_public ?a = x25519_base env sa" by (simp add: init_alice_def case_prod_unfold)
  then have "distinct (dhs_public a' # dhs_public b' # map (\<lambda>(_, _, f). x25519_base env f) turns)"
    using assms(3) d(5,6) by (simp add: comp_def case_prod_unfold)
  with converse_both [OF assms(1,2), of a' b' turns] d show ?thesis by (simp add: both_send_def)
qed

section \<open>Storage round trip\<close>

lemma foldl_skipped_map_filter:
  "foldl (\<lambda>m (p, n, mk). m((p, n) \<mapsto> mk)) m0
      (List.map_filter (\<lambda>key. map_option (\<lambda>mk. (fst key, snd key, mk)) (m key)) ks)
    = (\<lambda>k. if k \<in> set ks \<and> m k \<noteq> None then m k else m0 k)"
proof (induction ks arbitrary: m0)
  case Nil
  then show ?case by (simp add: map_filter_def)
next
  case (Cons k ks)
  show ?case
  proof (cases "m k")
    case None
    with Cons.IH [of m0] show ?thesis by (auto simp: map_filter_def fun_eq_iff)
  next
    case (Some mk)
    with Cons.IH [of "m0(k \<mapsto> mk)"] show ?thesis by (auto simp: map_filter_def fun_eq_iff)
  qed
qed

lemma order_map_filter:
  "map (\<lambda>(p, n, mk). (p, n)) (List.map_filter (\<lambda>key. map_option (\<lambda>mk. (fst key, snd key, mk)) (m key)) ks)
    = filter (\<lambda>k. m k \<noteq> None) ks"
  by (induction ks) (auto simp: map_filter_def)

lemma deserialize_serialize:
  assumes "parse_wire env (ratchet_serialize env st) = Some (ratchet_wire_of st)"
    and "dhs_public st = x25519_base env (dhs_secret st)" and "dom (skipped st) \<subseteq> set (skipped_order st)"
  shows "ratchet_deserialize env (ratchet_serialize env st)
    = Some (st\<lparr>skipped_order := filter (\<lambda>k. skipped st k \<noteq> None) (skipped_order st)\<rparr>)"
proof -
  have "(\<lambda>k. if k \<in> set (skipped_order st) \<and> skipped st k \<noteq> None then skipped st k else None) = skipped st"
    using assms(3) by (intro ext) (metis domIff subsetD)
  with assms(1,2) show ?thesis
    by (simp add: ratchet_deserialize_def ratchet_wire_of_def foldl_skipped_map_filter order_map_filter)
qed

section \<open>Reachable sessions\<close>

text \<open>
  A session from its start through any sends, any receives of any bytes with any outcome, and
  any reloads from what it stored.
\<close>

inductive ratchet_reachable :: "ratchet_env \<Rightarrow> ratchet_state \<Rightarrow> bool" for env where
  alice: "ratchet_reachable env (init_alice env fresh shared peer)"
| bob: "ratchet_reachable env (init_bob env shared secret)"
| send: "ratchet_reachable env st \<Longrightarrow> ratchet_reachable env (snd (ratchet_encrypt env st body))"
| receive: "ratchet_reachable env st \<Longrightarrow> ratchet_reachable env (snd (ratchet_decrypt env fresh st header sealed))"
| reload: "ratchet_reachable env st \<Longrightarrow>
    parse_wire env (ratchet_serialize env st) = Some (ratchet_wire_of st) \<Longrightarrow>
    ratchet_deserialize env (ratchet_serialize env st) = Some st' \<Longrightarrow> ratchet_reachable env st'"

lemma skip_loop_public:
  "dhs_public (skip_loop env peer until ck st) = dhs_public st
    \<and> dhs_secret (skip_loop env peer until ck st) = dhs_secret st"
proof -
  have "\<exists>ck' st'. (dhs_public st' = dhs_public st \<and> dhs_secret st' = dhs_secret st)
      \<and> \<not> nr st' < until \<and> skip_loop env peer until ck st = st'\<lparr>ckr := Some ck'\<rparr>"
    by (rule skip_loop_rule [where I = "\<lambda>_ st'. dhs_public st' = dhs_public st \<and> dhs_secret st' = dhs_secret st"])
      (auto simp: skip_one_def Let_def)
  then show ?thesis by auto
qed

definition key_pair_ok :: "ratchet_env \<Rightarrow> ratchet_state \<Rightarrow> bool" where
  "key_pair_ok env st \<longleftrightarrow> dhs_public st = x25519_base env (dhs_secret st)"

lemma skip_message_keys_pair: "key_pair_ok env st \<Longrightarrow> key_pair_ok env (snd (skip_message_keys env2 until st))"
  using skip_loop_public by (simp add: skip_message_keys_def key_pair_ok_def split: option.split)

lemma ratchet_advance_pair:
  assumes "key_pair_ok env st"
  shows "key_pair_ok env (snd (ratchet_advance env header sealed st))"
proof -
  obtain r st' where s: "skip_message_keys env (h_n header) st = (r, st')" by fastforce
  with skip_message_keys_pair [OF assms, of env "h_n header"] show ?thesis
    by (simp add: ratchet_advance_def key_pair_ok_def case_prod_unfold split: sum.split option.split)
qed

lemma dh_ratchet_pair: "key_pair_ok env (dh_ratchet env fresh p st)"
  by (simp add: dh_ratchet_def key_pair_ok_def case_prod_unfold)

lemma ratchet_decrypt_pair:
  assumes "key_pair_ok env st"
  shows "key_pair_ok env (snd (ratchet_decrypt env fresh st header sealed))"
proof -
  obtain r st' where s: "skip_message_keys env (h_pn header) st = (r, st')" by fastforce
  have st': "key_pair_ok env st'" using skip_message_keys_pair [OF assms, of env "h_pn header"] s by simp
  have taken: "key_pair_ok env (take_skipped k st)" for k
    using assms by (simp add: key_pair_ok_def take_skipped_def)
  show ?thesis
    unfolding ratchet_decrypt_cases s
    using assms st' taken ratchet_advance_pair [OF assms] ratchet_advance_pair [OF dh_ratchet_pair]
    by (simp split: option.split sum.split)
qed

lemma reachable_inv: "ratchet_reachable env st \<Longrightarrow> ratchet_inv st \<and> key_pair_ok env st"
proof (induction rule: ratchet_reachable.induct)
  case (send st body)
  then show ?case
    using ratchet_encrypt_inv [of st env body]
    by (simp add: key_pair_ok_def ratchet_encrypt_def case_prod_unfold Let_def split: option.split)
next
  case (receive st fresh header sealed)
  then show ?case using ratchet_decrypt_inv [of st env fresh header sealed] ratchet_decrypt_pair by blast
next
  case (reload st st')
  have sub: "dom (skipped st) \<subseteq> set (skipped_order st)" using reload.IH by (simp add: ratchet_inv_def)
  have "st' = st\<lparr>skipped_order := filter (\<lambda>k. skipped st k \<noteq> None) (skipped_order st)\<rparr>"
    using deserialize_serialize [OF reload.hyps(2) _ sub] reload.hyps(3) reload.IH
    by (simp add: key_pair_ok_def)
  moreover have "dom (skipped st) \<subseteq> set (filter (\<lambda>k. skipped st k \<noteq> None) (skipped_order st))"
    using sub by auto
  ultimately show ?case using reload.IH by (simp add: ratchet_inv_def key_pair_ok_def)
qed (simp_all add: init_inv, simp_all add: key_pair_ok_def init_alice_def init_bob_def case_prod_unfold)

section \<open>A peer that returns to an old ratchet key\<close>

lemma bounce:
  assumes "aead_opens env" and "dhr st \<noteq> Some P" and "ckr st \<noteq> None \<longrightarrow> dhr st \<noteq> None \<and> nr st = 2"
    and "skipped st (P, 1) = None" and "finite (dom (skipped st))" and "card (dom (skipped st)) < MAX_SKIPPED_TOTAL"
  shows "\<exists>sealed st'. ratchet_decrypt env fresh st \<lparr>h_ratchet_pub = P, h_pn = 0, h_n = 1\<rparr> sealed = (Inr [], st')
    \<and> dhr st' = Some P \<and> nr st' = 2 \<and> skipped_order st' = skipped_order st @ [(P, 0)]
    \<and> dom (skipped st') = insert (P, 0) (dom (skipped st))"
proof -
  let ?h = "\<lparr>h_ratchet_pub = P, h_pn = 0, h_n = 1\<rparr>"
  define st1 where "st1 = dh_ratchet env fresh P st"
  have st1: "dhr st1 = Some P" "nr st1 = 0" "skipped st1 = skipped st" "skipped_order st1 = skipped_order st"
    and "ckr st1 \<noteq> None" by (simp_all add: st1_def dh_ratchet_def case_prod_unfold)
  then obtain ck where ck: "ckr st1 = Some ck" by blast
  let ?m = "(skipped st)((P, 0) \<mapsto> snd (kdf_ck env ck))"
  let ?st2 = "st1\<lparr>skipped := ?m, skipped_order := skipped_order st @ [(P, 0)], nr := 1,
    ckr := Some (fst (kdf_ck env ck))\<rparr>"
  have "card (dom ?m) \<le> MAX_SKIPPED_TOTAL" using assms(5,6) by (simp add: card_insert_if)
  then have one: "skip_one env P ck st1
      = st1\<lparr>skipped := ?m, skipped_order := skipped_order st @ [(P, 0)], nr := 1\<rparr>"
    using st1 by (simp add: skip_one_def evict_id)
  have "skip_loop env P 1 ck st1 = ?st2"
    using st1(2) by (subst skip_loop_unfold, subst skip_loop_unfold) (simp add: one)
  then have skip: "skip_message_keys env 1 st1 = (Inr (), ?st2)"
    using ck st1(1,2) by (simp add: skip_message_keys_def MAX_SKIP_def)
  let ?mk = "snd (kdf_ck env (fst (kdf_ck env ck)))"
  obtain key nonce where k: "message_keys env ?mk = (key, nonce)" by fastforce
  obtain sealed where s: "aes_gcm_decrypt env key nonce sealed (bincode_header env ?h) = Some []"
    using assms(1) unfolding aead_opens_def by blast
  have adv: "ratchet_advance env ?h sealed st1
      = (Inr [], ?st2\<lparr>ckr := Some (fst (kdf_ck env (fst (kdf_ck env ck)))), nr := 2\<rparr>)"
    using skip k s by (simp add: ratchet_advance_def aead_decrypt_def case_prod_unfold)
  have "skip_message_keys env 0 st = (Inr (), st)"
    using assms(3) by (auto simp: skip_message_keys_def split: option.splits)
  then have "ratchet_decrypt env fresh st ?h sealed = ratchet_advance env ?h sealed st1"
    using assms(2,4) by (simp add: ratchet_decrypt_cases st1_def)
  with adv st1 show ?thesis
    by (intro exI [of _ sealed]
        exI [of _ "?st2\<lparr>ckr := Some (fst (kdf_ck env (fst (kdf_ck env ck)))), nr := 2\<rparr>"]) simp
qed

lemma bounce_many:
  assumes "aead_opens env"
  shows "\<exists>ms st. decrypt_all env (init_bob env shared sb) ms = (replicate k (Inr []), st)
    \<and> length (skipped_order st) = k \<and> dom (skipped st) \<subseteq> {(1, 0), (2, 0)}
    \<and> (ckr st \<noteq> None \<longrightarrow> dhr st \<noteq> None \<and> nr st = 2)"
proof (induction k)
  case 0
  show ?case by (intro exI [of _ "[]"]) (simp add: init_bob_def)
next
  case (Suc k)
  then obtain ms st where ms: "decrypt_all env (init_bob env shared sb) ms = (replicate k (Inr []), st)"
    "length (skipped_order st) = k" "dom (skipped st) \<subseteq> {(1, 0), (2, 0)}"
    "ckr st \<noteq> None \<longrightarrow> dhr st \<noteq> None \<and> nr st = 2" by blast
  define P :: array32 where "P = (if dhr st = Some 1 then 2 else 1)"
  have P: "P \<in> {1, 2}" "dhr st \<noteq> Some P" by (auto simp: P_def)
  have fin: "finite (dom (skipped st))" using ms(3) finite_subset by auto
  have "card (dom (skipped st)) \<le> card {(1, 0), (2 :: array32, 0 :: u32)}" using ms(3) by (intro card_mono) auto
  then have small: "card (dom (skipped st)) < MAX_SKIPPED_TOTAL" by (simp add: MAX_SKIPPED_TOTAL_def)
  have "skipped st (P, 1) = None" using ms(3) by (auto simp: dom_def)
  then obtain sealed st' where b:
    "ratchet_decrypt env 0 st \<lparr>h_ratchet_pub = P, h_pn = 0, h_n = 1\<rparr> sealed = (Inr [], st')"
    "dhr st' = Some P" "nr st' = 2" "skipped_order st' = skipped_order st @ [(P, 0)]"
    "dom (skipped st') = insert (P, 0) (dom (skipped st))"
    using bounce [OF assms P(2) ms(4) _ fin small, of 0] by blast
  have app: "decrypt_all env s (xs @ [(f, h, c)]) =
      (case decrypt_all env s xs of (rs, s') \<Rightarrow>
       case ratchet_decrypt env f s' h c of (r, s'') \<Rightarrow> (rs @ [r], s''))" for s xs f h c
    by (induction xs arbitrary: s) (auto simp: case_prod_unfold)
  have "decrypt_all env (init_bob env shared sb) (ms @ [(0, \<lparr>h_ratchet_pub = P, h_pn = 0, h_n = 1\<rparr>, sealed)])
      = (replicate (Suc k) (Inr []), st')"
    using ms(1) b(1) by (simp add: app replicate_append_same)
  moreover have "dom (skipped st') \<subseteq> {(1, 0), (2, 0)}" using b(5) ms(3) P(1) by auto
  ultimately show ?case
    using b(2-4) ms(2)
    by (intro exI [of _ "ms @ [(0, \<lparr>h_ratchet_pub = P, h_pn = 0, h_n = 1\<rparr>, sealed)]"] exI [of _ st']) simp
qed

section \<open>Properties\<close>

text \<open>
  C17. Memory of buffered keys: whatever a peer sends, and across reloads, a session buffers at
  most two thousand keys, and receiving never panics.
\<close>

theorem session_buffer_bounded:
  assumes "ratchet_reachable env st"
  shows "card (dom (skipped st)) \<le> 2000
    \<and> fst (ratchet_decrypt env fresh st header sealed) \<noteq> Inl RatchetPanic"
  using reachable_inv [OF assms] ratchet_decrypt_inv [of st env fresh header sealed]
  by (simp add: ratchet_inv_def MAX_SKIPPED_TOTAL_def)

text \<open>
  C18. A stored session reloads as it was, the queue rid of entries whose key is gone.
\<close>

theorem session_reloads:
  assumes "ratchet_reachable env st"
    and "parse_wire env (ratchet_serialize env st) = Some (ratchet_wire_of st)"
  shows "ratchet_deserialize env (ratchet_serialize env st)
    = Some (st\<lparr>skipped_order := filter (\<lambda>k. skipped st k \<noteq> None) (skipped_order st)\<rparr>)"
  using assms(2) reachable_inv [OF assms(1)]
  by (intro deserialize_serialize) (simp_all add: key_pair_ok_def ratchet_inv_def)

text \<open>
  C19. The queue beside the buffer is not bounded: a peer whose messages are all accepted, and
  who alternates between two ratchet keys, grows it by one entry a message while the buffer
  holds two keys at most, so the queue does not stay as long as the buffer.
\<close>

theorem skipped_queue_unbounded:
  assumes "aead_opens env"
  shows "\<exists>ms st. decrypt_all env (init_bob env shared sb) ms = (replicate k (Inr []), st)
    \<and> length (skipped_order st) = k \<and> card (dom (skipped st)) \<le> 2"
proof -
  obtain ms st where ms: "decrypt_all env (init_bob env shared sb) ms = (replicate k (Inr []), st)"
    "length (skipped_order st) = k" "dom (skipped st) \<subseteq> {(1, 0), (2, 0)}"
    using bounce_many [OF assms, of shared sb k] by blast
  have "card (dom (skipped st)) \<le> card {(1, 0), (2 :: array32, 0 :: u32)}" using ms(3) by (intro card_mono) auto
  also have "\<dots> \<le> 2" by (simp add: card_insert_if)
  finally show ?thesis using ms(1,2) by blast
qed

section \<open>Witnesses\<close>

text \<open>An environment for the witnesses: transparent encryption and addition as key agreement.\<close>

definition demo_ratchet :: ratchet_env where
  "demo_ratchet =
     \<lparr>hkdf = (\<lambda>salt ikm label n. replicate n 0), x25519_dh = (\<lambda>s p. s + p), x25519_base = (\<lambda>s. s),
      aes_gcm_encrypt = (\<lambda>k nonce text aad. Some text), aes_gcm_decrypt = (\<lambda>k nonce sealed aad. Some sealed),
      bincode_header = (\<lambda>h. []), bincode_wire = (\<lambda>w. []),
      parse_wire = (\<lambda>bs. Some (ratchet_wire_of
        \<lparr>dhs_secret = 5, dhs_public = 5, dhr = None, rk = 9, cks = None, ckr = None, ns = 0, nr = 0, pn = 0,
         skipped = Map.empty, skipped_order = []\<rparr>))\<rparr>"

lemma demo_ratchet_laws: "aead_opens demo_ratchet" "dh_agrees demo_ratchet"
  by (simp_all add: demo_ratchet_def aead_opens_def dh_agrees_def add.commute)

theorem new_session_opens_any_order_witness:
  "\<exists>ms. fst (encrypt_all demo_ratchet (init_alice demo_ratchet 3 9 (x25519_base demo_ratchet 5)) [[1], [2], [3]])
      = map Inr ms
    \<and> fst (decrypt_all demo_ratchet (init_bob demo_ratchet 9 5) (map (\<lambda>i. (7, ms ! i)) [2, 0]))
        = [Inr [3], Inr [1]]"
  using new_session_opens_any_order [OF demo_ratchet_laws, of "[[1], [2], [3]]" "[2, 0]" 3 9 5 "\<lambda>_. 7"]
  by simp

theorem conversation_stays_in_step_witness:
  "converse demo_ratchet (init_alice demo_ratchet 3 9 (x25519_base demo_ratchet 5)) (init_bob demo_ratchet 9 5)
     [(True, [1], 11), (False, [2], 12), (False, [3], 13), (True, [4], 14)]
   = [Inr [1], Inr [2], Inr [3], Inr [4]]"
  using conversation_stays_in_step [OF demo_ratchet_laws, of 3 5 11
      "[(False, [2], 12), (False, [3], 13), (True, [4], 14)]" 9 "[1]"]
  by (simp add: demo_ratchet_def)

theorem session_buffer_bounded_witness:
  "card (dom (skipped (init_bob demo_ratchet 9 5))) \<le> 2000
   \<and> fst (ratchet_decrypt demo_ratchet 7 (init_bob demo_ratchet 9 5) \<lparr>h_ratchet_pub = 1, h_pn = 4, h_n = 2000\<rparr> [])
       \<noteq> Inl RatchetPanic"
  by (rule session_buffer_bounded) (rule ratchet_reachable.bob)

theorem session_reloads_witness:
  "ratchet_deserialize demo_ratchet (ratchet_serialize demo_ratchet (init_bob demo_ratchet 9 5)) = Some (init_bob demo_ratchet 9 5)"
proof -
  have "parse_wire demo_ratchet (ratchet_serialize demo_ratchet (init_bob demo_ratchet 9 5))
      = Some (ratchet_wire_of (init_bob demo_ratchet 9 5))"
    by (simp add: demo_ratchet_def init_bob_def)
  from session_reloads [OF ratchet_reachable.bob this] show ?thesis by (simp add: init_bob_def)
qed

theorem skipped_queue_unbounded_witness:
  "\<exists>ms st. decrypt_all demo_ratchet (init_bob demo_ratchet 9 5) ms = (replicate 3000 (Inr []), st)
    \<and> length (skipped_order st) = 3000 \<and> card (dom (skipped st)) \<le> 2"
  by (rule skipped_queue_unbounded [OF demo_ratchet_laws(1)])

end
