(* ===== verification/Sender_Key.thy ===== *)
theory Sender_Key
  imports Double_Ratchet
begin

text \<open>
  The channel sender keys, from \<^verbatim>\<open>channel/sender_key.rs\<close> and
  \<^verbatim>\<open>channel/sender_key/checkpoint.rs\<close>: a member's sending chain, a receiver's view of it with
  buffered keys, the jump a stalled receiver makes to an authenticated snapshot, sealing and
  opening, and the local byte form of a receiver. The chain step and the eviction loop are those
  of the direct-message ratchet, as in the source.
\<close>

section \<open>Chains\<close>

datatype sender_key_error = SkEncrypt | SkDecrypt | SkTooManySkipped | SkMalformed string

record sender_key =
  sk_chain_key :: array32
  sk_n :: u32

record sender_key_distribution =
  skd_chain_key :: array32
  skd_n :: u32

record sender_chain =
  sc_chain_key :: array32
  sc_n :: u32
  sc_skipped :: "u32 \<rightharpoonup> array32"
  sc_order :: "u32 list"

definition exhausted :: sender_key_error where
  "exhausted = SkMalformed ''sender chain exhausted''"

text \<open>\<open>fresh\<close> are the bytes the generator draws.\<close>

definition sender_key_generate :: "array32 \<Rightarrow> sender_key" where
  "sender_key_generate fresh = \<lparr>sk_chain_key = fresh, sk_n = 0\<rparr>"

definition distribution :: "sender_key \<Rightarrow> sender_key_distribution" where
  "distribution sk = \<lparr>skd_chain_key = sk_chain_key sk, skd_n = sk_n sk\<rparr>"

definition try_ratchet ::
  "ratchet_env \<Rightarrow> sender_key \<Rightarrow> (sender_key_error + (u32 \<times> array32)) \<times> sender_key" where
  "try_ratchet env sk =
     (case checked_add (sk_n sk) 1 of
        None \<Rightarrow> (Inl exhausted, sk)
      | Some next_n \<Rightarrow>
          (case kdf_ck env (sk_chain_key sk) of (next_key, mk) \<Rightarrow>
             (Inr (sk_n sk, mk), \<lparr>sk_chain_key = next_key, sk_n = next_n\<rparr>)))"

definition from_distribution :: "sender_key_distribution \<Rightarrow> sender_chain" where
  "from_distribution skd =
     \<lparr>sc_chain_key = skd_chain_key skd, sc_n = skd_n skd, sc_skipped = Map.empty, sc_order = []\<rparr>"

definition current_distribution :: "sender_chain \<Rightarrow> sender_key_distribution" where
  "current_distribution sc = \<lparr>skd_chain_key = sc_chain_key sc, skd_n = sc_n sc\<rparr>"

definition refresh_distribution :: "sender_chain \<Rightarrow> sender_key_distribution \<Rightarrow> sender_chain" where
  "refresh_distribution sc skd =
     (if saturating_sub (skd_n skd) (sc_n sc) > MAX_SKIP
      then sc\<lparr>sc_chain_key := skd_chain_key skd, sc_n := skd_n skd\<rparr>
      else sc)"

text \<open>One turn of the loop that buffers the positions passed over.\<close>

definition advance_one :: "ratchet_env \<Rightarrow> sender_chain \<Rightarrow> sender_chain" where
  "advance_one env sc =
     (case kdf_ck env (sc_chain_key sc) of (next_key, mk) \<Rightarrow>
      case evict ((sc_skipped sc)(sc_n sc \<mapsto> mk)) (sc_order sc @ [sc_n sc]) of (m, order) \<Rightarrow>
        \<lparr>sc_chain_key = next_key, sc_n = sc_n sc + 1, sc_skipped = m, sc_order = order\<rparr>)"

lemma sc_n_advance_one [simp]: "sc_n (advance_one env sc) = sc_n sc + 1"
  by (simp add: advance_one_def case_prod_unfold)

function advance_loop :: "ratchet_env \<Rightarrow> u32 \<Rightarrow> sender_chain \<Rightarrow> sender_chain" where
  "advance_loop env target sc =
     (if sc_n sc < target then advance_loop env target (advance_one env sc) else sc)"
  by pat_completeness auto
termination
proof (relation "measure (\<lambda>(env, target, sc). unat target - unat (sc_n sc))", simp, goal_cases)
  case (1 env target sc)
  with unat_succ_less [OF 1] show ?case by (simp add: word_less_nat_alt)
qed

declare advance_loop.simps [simp del]

definition message_key ::
  "ratchet_env \<Rightarrow> sender_chain \<Rightarrow> u32 \<Rightarrow> (sender_key_error + array32) \<times> sender_chain" where
  "message_key env sc target =
     (case sc_skipped sc target of
        Some mk \<Rightarrow>
          (Inr mk, sc\<lparr>sc_skipped := (sc_skipped sc)(target := None),
                     sc_order := filter (\<lambda>k. k \<noteq> target) (sc_order sc)\<rparr>)
      | None \<Rightarrow>
          if target < sc_n sc then (Inl (SkMalformed ''message key already consumed''), sc)
          else (case checked_add target 1 of
                  None \<Rightarrow> (Inl exhausted, sc)
                | Some next_n \<Rightarrow>
                    if target - sc_n sc > MAX_SKIP then (Inl SkTooManySkipped, sc)
                    else (let sc' = advance_loop env target sc
                          in case kdf_ck env (sc_chain_key sc') of (next_key, mk) \<Rightarrow>
                               (Inr mk, sc'\<lparr>sc_chain_key := next_key, sc_n := next_n\<rparr>))))"

section \<open>Sealing\<close>

definition seal_message :: "ratchet_env \<Rightarrow> array32 \<Rightarrow> bytes \<Rightarrow> bytes \<Rightarrow> sender_key_error + bytes" where
  "seal_message env mk plaintext aad =
     (case message_keys env mk of (key, nonce) \<Rightarrow>
        (case aes_gcm_encrypt env key nonce plaintext aad of None \<Rightarrow> Inl SkEncrypt | Some ct \<Rightarrow> Inr ct))"

definition open_message :: "ratchet_env \<Rightarrow> array32 \<Rightarrow> bytes \<Rightarrow> bytes \<Rightarrow> sender_key_error + bytes" where
  "open_message env mk sealed aad =
     (case message_keys env mk of (key, nonce) \<Rightarrow>
        (case aes_gcm_decrypt env key nonce sealed aad of None \<Rightarrow> Inl SkDecrypt | Some pt \<Rightarrow> Inr pt))"

section \<open>The local byte form\<close>

definition CHECKPOINT_MAGIC :: bytes where
  "CHECKPOINT_MAGIC = ascii ''MTRX'' @ [1]"

definition CHECKPOINT_HEADER :: nat where
  "CHECKPOINT_HEADER = 5 + 32 + 4 + 4"

definition CHECKPOINT_ENTRY :: nat where
  "CHECKPOINT_ENTRY = 4 + 32"

definition CHECKPOINT_MAX_BYTES :: nat where
  "CHECKPOINT_MAX_BYTES = CHECKPOINT_HEADER + MAX_SKIPPED_TOTAL * CHECKPOINT_ENTRY"

definition invalid_checkpoint :: sender_key_error where
  "invalid_checkpoint = SkMalformed ''invalid local receiver checkpoint''"

text \<open>The validation loop, with the set of positions seen so far.\<close>

fun order_valid :: "sender_chain \<Rightarrow> u32 set \<Rightarrow> u32 list \<Rightarrow> bool" where
  "order_valid sc seen [] = True"
| "order_valid sc seen (p # ps) =
     (\<not> (p \<ge> sc_n sc \<or> sc_skipped sc p = None \<or> p \<in> seen) \<and> order_valid sc (insert p seen) ps)"

definition entry_bytes :: "(u32 \<rightharpoonup> array32) \<Rightarrow> u32 \<Rightarrow> bytes" where
  "entry_bytes m p = u32_to_be_bytes p @ array_bytes (the (m p))"

definition encode_checkpoint :: "sender_chain \<Rightarrow> sender_key_error + bytes" where
  "encode_checkpoint sc =
     (if card (dom (sc_skipped sc)) > MAX_SKIPPED_TOTAL \<or> length (sc_order sc) \<noteq> card (dom (sc_skipped sc))
      then Inl invalid_checkpoint
      else if \<not> order_valid sc {} (sc_order sc) then Inl invalid_checkpoint
      else Inr (CHECKPOINT_MAGIC @ array_bytes (sc_chain_key sc) @ u32_to_be_bytes (sc_n sc)
        @ u32_to_be_bytes (of_nat (length (sc_order sc)))
        @ concat (map (entry_bytes (sc_skipped sc)) (sc_order sc))))"

fun decode_entries :: "nat \<Rightarrow> bytes \<Rightarrow> sender_chain \<Rightarrow> sender_key_error + sender_chain" where
  "decode_entries 0 bs sc = Inr sc"
| "decode_entries (Suc entries) bs sc =
     (let entry = take CHECKPOINT_ENTRY bs;
          position = u32_from_be_bytes (take 4 entry)
      in if position \<ge> sc_n sc \<or> sc_skipped sc position \<noteq> None then Inl invalid_checkpoint
         else decode_entries entries (drop CHECKPOINT_ENTRY bs)
                (sc\<lparr>sc_skipped := (sc_skipped sc)(position \<mapsto> array_of_bytes (drop 4 entry)),
                    sc_order := sc_order sc @ [position]\<rparr>))"

definition decode_checkpoint :: "bytes \<Rightarrow> sender_key_error + sender_chain" where
  "decode_checkpoint bs =
     (if \<not> (CHECKPOINT_HEADER \<le> length bs \<and> length bs \<le> CHECKPOINT_MAX_BYTES) \<or> take 5 bs \<noteq> CHECKPOINT_MAGIC
      then Inl invalid_checkpoint
      else
        let n = u32_from_be_bytes (take 4 (drop 37 bs));
            entries = unat (u32_from_be_bytes (take 4 (drop 41 bs)))
        in if entries > MAX_SKIPPED_TOTAL \<or> length bs \<noteq> CHECKPOINT_HEADER + entries * CHECKPOINT_ENTRY
           then Inl invalid_checkpoint
           else decode_entries entries (drop CHECKPOINT_HEADER bs)
                  \<lparr>sc_chain_key = array_of_bytes (take 32 (drop 5 bs)), sc_n = n,
                   sc_skipped = Map.empty, sc_order = []\<rparr>)"

section \<open>Opening on a copy\<close>

record prepared_receiver_open =
  po_next :: sender_chain
  po_plaintext :: bytes

definition prepare_open ::
  "ratchet_env \<Rightarrow> sender_chain \<Rightarrow> u32 \<Rightarrow> bytes \<Rightarrow> bytes \<Rightarrow> sender_key_error + prepared_receiver_open" where
  "prepare_open env sc target sealed aad =
     bind_result (encode_checkpoint sc) (\<lambda>bs.
     bind_result (decode_checkpoint bs) (\<lambda>copy.
     (case message_key env copy target of (r, next_chain) \<Rightarrow>
        bind_result r (\<lambda>key.
        bind_result (open_message env key sealed aad) (\<lambda>plaintext.
          Inr \<lparr>po_next = next_chain, po_plaintext = plaintext\<rparr>)))))"

definition open_into_checkpoint ::
  "prepared_receiver_open \<Rightarrow> sender_key_error + (bytes \<times> bytes \<times> u32)" where
  "open_into_checkpoint p =
     bind_result (encode_checkpoint (po_next p)) (\<lambda>bs. Inr (bs, po_plaintext p, sc_n (po_next p)))"

definition open_install :: "prepared_receiver_open \<Rightarrow> sender_chain \<Rightarrow> bytes \<times> sender_chain" where
  "open_install p chain = (po_plaintext p, po_next p)"

section \<open>The receiver's invariant\<close>

text \<open>The queue lists exactly the buffered positions, all of them already passed.\<close>

definition chain_ok :: "sender_chain \<Rightarrow> bool" where
  "chain_ok sc \<longleftrightarrow>
     distinct (sc_order sc) \<and> set (sc_order sc) = dom (sc_skipped sc)
     \<and> length (sc_order sc) \<le> MAX_SKIPPED_TOTAL \<and> (\<forall>p\<in>set (sc_order sc). p < sc_n sc)"

lemma chain_okD:
  assumes "chain_ok sc"
  shows "distinct (sc_order sc)" and "set (sc_order sc) = dom (sc_skipped sc)"
    and "length (sc_order sc) \<le> MAX_SKIPPED_TOTAL" and "p \<in> dom (sc_skipped sc) \<Longrightarrow> p < sc_n sc"
    and "card (dom (sc_skipped sc)) = length (sc_order sc)"
proof -
  show d: "distinct (sc_order sc)" and s: "set (sc_order sc) = dom (sc_skipped sc)"
    and "length (sc_order sc) \<le> MAX_SKIPPED_TOTAL" and "p \<in> dom (sc_skipped sc) \<Longrightarrow> p < sc_n sc"
    using assms unfolding chain_ok_def by blast+
  show "card (dom (sc_skipped sc)) = length (sc_order sc)"
    using distinct_card [OF d] s by simp
qed

lemma evict_clean:
  assumes "distinct ks" and "set ks = dom m"
  shows "distinct (snd (evict m ks)) \<and> set (snd (evict m ks)) = dom (fst (evict m ks))
    \<and> length (snd (evict m ks)) \<le> MAX_SKIPPED_TOTAL \<and> fst (evict m ks) \<subseteq>\<^sub>m m"
  using assms
proof (induction m ks rule: evict.induct)
  case (1 m)
  then show ?case by simp
next
  case (2 m k ks)
  show ?case
  proof (cases "MAX_SKIPPED_TOTAL < card (dom m)")
    case True
    have ks: "distinct ks" "set ks = dom (m(k := None))" using 2(2,3) by auto
    have le: "m(k := None) \<subseteq>\<^sub>m m" by (auto simp: map_le_def)
    from 2(1) [OF True ks] True show ?thesis
      by (simp del: fun_upd_apply) (blast intro: map_le_trans [OF _ le])
  next
    case False
    moreover have "length (k # ks) = card (dom m)" using distinct_card [OF 2(2)] 2(3) by simp
    ultimately show ?thesis using 2(2,3) by (simp add: map_le_def)
  qed
qed

lemma advance_one_ok:
  assumes "chain_ok sc" and "sc_n sc < target"
  shows "chain_ok (advance_one env sc)"
    and "sc_skipped (advance_one env sc)
      \<subseteq>\<^sub>m (sc_skipped sc)(sc_n sc \<mapsto> snd (kdf_ck env (sc_chain_key sc)))"
proof -
  note ok = chain_okD [OF assms(1)]
  let ?m = "(sc_skipped sc)(sc_n sc \<mapsto> snd (kdf_ck env (sc_chain_key sc)))" and ?ks = "sc_order sc @ [sc_n sc]"
  have "sc_n sc \<notin> dom (sc_skipped sc)" using ok(4) by blast
  then have ks: "distinct ?ks" "set ?ks = dom ?m" using ok(1,2) by auto
  note ev = evict_clean [OF ks]
  have "p < sc_n sc + 1" if "p \<in> set (snd (evict ?m ?ks))" for p
  proof -
    have "p \<in> dom ?m" using that ev map_le_implies_dom_le by blast
    then have "p < sc_n sc \<or> p = sc_n sc" using ok(4) [of p] by auto
    then show ?thesis using less_succ_iff [OF assms(2)] by blast
  qed
  with ev show "chain_ok (advance_one env sc)"
    by (simp add: chain_ok_def advance_one_def case_prod_unfold)
  show "sc_skipped (advance_one env sc) \<subseteq>\<^sub>m ?m"
    using ev by (simp add: advance_one_def case_prod_unfold)
qed

lemma advance_loop_rule:
  assumes "I sc" and "\<And>sc. I sc \<Longrightarrow> sc_n sc < target \<Longrightarrow> I (advance_one env sc)"
  shows "I (advance_loop env target sc) \<and> \<not> sc_n (advance_loop env target sc) < target"
  using assms
proof (induction env target sc rule: advance_loop.induct)
  case (1 env target sc)
  show ?case
  proof (cases "sc_n sc < target")
    case True
    with 1(1) [OF True] 1(2,3) show ?thesis by (subst (1 2) advance_loop.simps) simp
  next
    case False
    with 1(2) show ?thesis by (subst (1 2) advance_loop.simps) simp
  qed
qed

section \<open>Keys of one chain\<close>

text \<open>A receiver of the chain that starts with \<open>ck0\<close> at position \<open>p0\<close> holds only keys of that chain.\<close>

definition follows :: "ratchet_env \<Rightarrow> nat \<Rightarrow> array32 \<Rightarrow> sender_chain \<Rightarrow> bool" where
  "follows env p0 ck0 sc \<longleftrightarrow>
     p0 \<le> unat (sc_n sc) \<and> sc_chain_key sc = chain_key env ck0 (unat (sc_n sc) - p0)
     \<and> (\<forall>p mk. sc_skipped sc p = Some mk \<longrightarrow>
          p0 \<le> unat p \<and> mk = chain_message_key env ck0 (unat p - p0))"

lemma followsD:
  assumes "follows env p0 ck0 sc"
  shows "p0 \<le> unat (sc_n sc)" and "sc_chain_key sc = chain_key env ck0 (unat (sc_n sc) - p0)"
    and "sc_skipped sc p = Some mk \<Longrightarrow> p0 \<le> unat p"
    and "sc_skipped sc p = Some mk \<Longrightarrow> mk = chain_message_key env ck0 (unat p - p0)"
  using assms unfolding follows_def by blast+

lemma advance_one_follows:
  assumes ok: "chain_ok sc" and f: "follows env p0 ck0 sc" and less: "sc_n sc < target"
  shows "follows env p0 ck0 (advance_one env sc)"
proof -
  note fd = followsD [OF f] and succ = unat_succ_less [OF less]
  have key: "sc_chain_key (advance_one env sc) = chain_key env ck0 (unat (sc_n sc + 1) - p0)"
    using fd(1,2) succ by (simp add: advance_one_def case_prod_unfold Suc_diff_le)
  have "p0 \<le> unat p \<and> mk = chain_message_key env ck0 (unat p - p0)"
    if "sc_skipped (advance_one env sc) p = Some mk" for p mk
  proof -
    have "p \<in> dom (sc_skipped (advance_one env sc))" using that by blast
    note old = advance_one_ok(2) [OF ok less, of env, unfolded map_le_def, rule_format, OF this]
    show ?thesis
    proof (cases "p = sc_n sc")
      case True
      with old that have "mk = snd (kdf_ck env (sc_chain_key sc))" by simp
      with True fd(1,2) show ?thesis by (simp add: chain_message_key_def)
    next
      case False
      with old that have "sc_skipped sc p = Some mk" by simp
      with fd(3,4) show ?thesis by blast
    qed
  qed
  then show ?thesis
    unfolding follows_def using key fd(1) succ by simp
qed

lemma advance_loop_spec:
  assumes "chain_ok sc" and "follows env p0 ck0 sc" and "sc_n sc \<le> target"
  shows "chain_ok (advance_loop env target sc) \<and> follows env p0 ck0 (advance_loop env target sc)
    \<and> sc_n (advance_loop env target sc) = target"
proof -
  have "(chain_ok (advance_loop env target sc) \<and> follows env p0 ck0 (advance_loop env target sc)
      \<and> sc_n (advance_loop env target sc) \<le> target) \<and> \<not> sc_n (advance_loop env target sc) < target"
  proof (rule advance_loop_rule)
    fix sc assume "chain_ok sc \<and> follows env p0 ck0 sc \<and> sc_n sc \<le> target" and less: "sc_n sc < target"
    then show "chain_ok (advance_one env sc) \<and> follows env p0 ck0 (advance_one env sc)
        \<and> sc_n (advance_one env sc) \<le> target"
      using advance_one_ok(1) [of sc target env] advance_one_follows [of sc env p0 ck0 target]
        unat_succ_less [OF less] by (simp add: word_le_nat_alt word_less_nat_alt)
  qed (use assms in simp)
  then show ?thesis by auto
qed

text \<open>Which positions a receiver can still open.\<close>

definition can_open :: "sender_chain \<Rightarrow> u32 \<Rightarrow> bool" where
  "can_open sc target \<longleftrightarrow>
     target \<in> dom (sc_skipped sc)
     \<or> unat (sc_n sc) \<le> unat target \<and> unat target - unat (sc_n sc) \<le> 1000 \<and> unat target < 2 ^ 32 - 1"

lemma checked_add_1_u32:
  "checked_add (t :: u32) 1 = (if unat t < 2 ^ 32 - 1 then Some (t + 1) else None)"
  using unat_lt2p [of t] by (auto simp: checked_add_def)

lemma message_key_fresh:
  assumes ok: "chain_ok sc" and f: "follows env p0 ck0 sc"
    and new: "sc_skipped sc target = None" and can: "can_open sc target"
  shows "\<exists>sc'. message_key env sc target = (Inr (chain_message_key env ck0 (unat target - p0)), sc')
    \<and> chain_ok sc' \<and> follows env p0 ck0 sc' \<and> sc_n sc' = target + 1 \<and> unat (target + 1) = Suc (unat target)
    \<and> sc_skipped sc' = sc_skipped (advance_loop env target sc) \<and> sc_skipped sc' target = None"
proof -
  from new can have c: "sc_n sc \<le> target" "unat target - unat (sc_n sc) \<le> 1000" "unat target < 2 ^ 32 - 1"
    by (auto simp: can_open_def word_le_nat_alt)
  define sc1 where "sc1 = advance_loop env target sc"
  have sc1: "chain_ok sc1" "follows env p0 ck0 sc1" "sc_n sc1 = target"
    using advance_loop_spec [OF ok f c(1)] by (simp_all add: sc1_def)
  note o1 = chain_okD [OF sc1(1)] and f1 = followsD [OF sc1(2)]
  have less: "target < - 1"
    using c(3) by (simp add: word_less_nat_alt unsigned_minus_1_eq_mask mask_eq_exp_minus_1)
  note succ = unat_succ_less [OF less]
  let ?sc' = "sc1\<lparr>sc_chain_key := fst (kdf_ck env (sc_chain_key sc1)), sc_n := target + 1\<rparr>"
  have "\<not> target - sc_n sc > MAX_SKIP"
    using c(1,2) by (simp add: MAX_SKIP_def word_less_nat_alt unat_sub)
  then have mk: "message_key env sc target = (Inr (chain_message_key env ck0 (unat target - p0)), ?sc')"
    using new c(1,3) f1(2) sc1(3)
    by (simp add: message_key_def checked_add_1_u32 sc1_def case_prod_unfold chain_message_key_def not_less)
  have "target \<notin> dom (sc_skipped sc1)" using o1(4) sc1(3) by blast
  moreover have "chain_ok ?sc'"
    using sc1(1,3) less_succ_iff [OF less] by (simp add: chain_ok_def)
  moreover have "follows env p0 ck0 ?sc'"
    using sc1(2,3) succ by (simp add: follows_def Suc_diff_le)
  ultimately show ?thesis using mk succ by (auto simp: sc1_def)
qed

lemma message_key_buffered:
  assumes ok: "chain_ok sc" and f: "follows env p0 ck0 sc" and held: "sc_skipped sc target = Some mk"
  shows "\<exists>sc'. message_key env sc target = (Inr (chain_message_key env ck0 (unat target - p0)), sc')
    \<and> chain_ok sc' \<and> follows env p0 ck0 sc' \<and> sc_n sc' = sc_n sc \<and> target < sc_n sc
    \<and> sc_skipped sc' = (sc_skipped sc)(target := None)"
proof -
  note o = chain_okD [OF ok]
  let ?sc' = "sc\<lparr>sc_skipped := (sc_skipped sc)(target := None),
    sc_order := filter (\<lambda>k. k \<noteq> target) (sc_order sc)\<rparr>"
  have "length (filter (\<lambda>k. k \<noteq> target) (sc_order sc)) \<le> MAX_SKIPPED_TOTAL"
    using o(3) length_filter_le [of _ "sc_order sc"] by (meson le_trans)
  then have "chain_ok ?sc'"
    using ok o(2) by (auto simp: chain_ok_def)
  moreover have "follows env p0 ck0 ?sc'" using f by (simp add: follows_def)
  moreover have "target < sc_n sc" using o(4) held by blast
  ultimately show ?thesis using held followsD(4) [OF f held] by (simp add: message_key_def)
qed

lemma message_key_error:
  assumes "\<not> can_open sc target"
  shows "\<exists>err. message_key env sc target = (Inl err, sc)"
proof -
  from assms have none: "sc_skipped sc target = None" by (auto simp: can_open_def)
  show ?thesis
  proof (cases "target < sc_n sc")
    case True
    with none show ?thesis by (simp add: message_key_def)
  next
    case False
    then have ge: "sc_n sc \<le> target" by simp
    then have "unat (target - sc_n sc) = unat target - unat (sc_n sc)" by (simp add: unat_sub word_le_nat_alt)
    then have "unat target < 2 ^ 32 - 1 \<Longrightarrow> target - sc_n sc > MAX_SKIP"
      using assms ge by (auto simp: can_open_def MAX_SKIP_def word_less_nat_alt word_le_nat_alt)
    with none False show ?thesis by (simp add: message_key_def checked_add_1_u32)
  qed
qed

lemma message_key_total:
  assumes "chain_ok sc" and "follows env p0 ck0 sc"
  shows "\<exists>r sc'. message_key env sc target = (r, sc') \<and> chain_ok sc' \<and> follows env p0 ck0 sc'
    \<and> (can_open sc target \<longrightarrow> r = Inr (chain_message_key env ck0 (unat target - p0)) \<and> \<not> can_open sc' target)
    \<and> (\<not> can_open sc target \<longrightarrow> isl r \<and> sc' = sc)"
proof (cases "can_open sc target")
  case True
  show ?thesis
  proof (cases "sc_skipped sc target")
    case None
    then obtain sc' where "message_key env sc target = (Inr (chain_message_key env ck0 (unat target - p0)), sc')"
      "chain_ok sc'" "follows env p0 ck0 sc'" "sc_n sc' = target + 1" "unat (target + 1) = Suc (unat target)"
      "sc_skipped sc' target = None"
      using message_key_fresh [OF assms None True] by blast
    then show ?thesis using True by (auto simp: can_open_def)
  next
    case (Some mk)
    then obtain sc' where "message_key env sc target = (Inr (chain_message_key env ck0 (unat target - p0)), sc')"
      "chain_ok sc'" "follows env p0 ck0 sc'" "sc_n sc' = sc_n sc" "target < sc_n sc"
      "sc_skipped sc' = (sc_skipped sc)(target := None)"
      using message_key_buffered [OF assms Some] by blast
    then show ?thesis using True by (auto simp: can_open_def word_less_nat_alt)
  qed
next
  case False
  with message_key_error [OF False, of env] assms show ?thesis by auto
qed

section \<open>The checkpoint codec\<close>

lemma order_valid_iff:
  "order_valid sc seen ps \<longleftrightarrow>
     distinct ps \<and> set ps \<inter> seen = {} \<and> (\<forall>p\<in>set ps. p < sc_n sc \<and> sc_skipped sc p \<noteq> None)"
  by (induction ps arbitrary: seen) (auto simp: not_le)

lemma encode_checkpoint_ok:
  assumes "finite (dom (sc_skipped sc))"
  shows "(\<exists>bs. encode_checkpoint sc = Inr bs) \<longleftrightarrow> chain_ok sc"
proof
  assume "\<exists>bs. encode_checkpoint sc = Inr bs"
  then have c: "card (dom (sc_skipped sc)) \<le> MAX_SKIPPED_TOTAL" "length (sc_order sc) = card (dom (sc_skipped sc))"
    "order_valid sc {} (sc_order sc)"
    by (auto simp: encode_checkpoint_def split: if_splits)
  have "set (sc_order sc) \<subseteq> dom (sc_skipped sc)" using c(3) by (auto simp: order_valid_iff)
  moreover have "card (set (sc_order sc)) = card (dom (sc_skipped sc))"
    using c(2,3) by (simp add: order_valid_iff distinct_card)
  ultimately have "set (sc_order sc) = dom (sc_skipped sc)" using assms by (simp add: card_subset_eq)
  then show "chain_ok sc" using c by (auto simp: chain_ok_def order_valid_iff)
next
  assume ok: "chain_ok sc"
  have "order_valid sc {} (sc_order sc)" using ok by (auto simp: order_valid_iff chain_ok_def)
  then show "\<exists>bs. encode_checkpoint sc = Inr bs"
    using chain_okD(3,5) [OF ok] by (simp add: encode_checkpoint_def)
qed

lemma length_entry_bytes [simp]: "length (entry_bytes m p) = CHECKPOINT_ENTRY"
  by (simp add: entry_bytes_def CHECKPOINT_ENTRY_def)

lemma length_entries: "length (concat (map (entry_bytes m) ps)) = length ps * CHECKPOINT_ENTRY"
  by (induction ps) simp_all

lemma decode_entries_encoded:
  assumes "distinct (sc_order acc @ ps)" and "\<forall>p\<in>set ps. p < sc_n acc \<and> m p \<noteq> None"
    and "dom (sc_skipped acc) = set (sc_order acc)"
  shows "decode_entries (length ps) (concat (map (entry_bytes m) ps)) acc
    = Inr (acc\<lparr>sc_skipped := (\<lambda>p. if p \<in> set ps then m p else sc_skipped acc p),
               sc_order := sc_order acc @ ps\<rparr>)"
  using assms
proof (induction ps arbitrary: acc)
  case (Cons p ps)
  then obtain mk where mk: "m p = Some mk" by auto
  let ?acc = "acc\<lparr>sc_skipped := (sc_skipped acc)(p \<mapsto> mk), sc_order := sc_order acc @ [p]\<rparr>"
  have none: "sc_skipped acc p = None" using Cons.prems(1,3) by (auto simp: domIff)
  have acc: "dom (sc_skipped ?acc) = set (sc_order ?acc)" using Cons.prems(3) by simp
  have below: "\<not> sc_n acc \<le> p" using Cons.prems(2) by (simp add: not_le)
  have step: "decode_entries (length (p # ps)) (concat (map (entry_bytes m) (p # ps))) acc
      = decode_entries (length ps) (concat (map (entry_bytes m) ps)) ?acc"
    using below none mk by (simp add: Let_def entry_bytes_def CHECKPOINT_ENTRY_def)
  have "decode_entries (length ps) (concat (map (entry_bytes m) ps)) ?acc
      = Inr (?acc\<lparr>sc_skipped := (\<lambda>q. if q \<in> set ps then m q else sc_skipped ?acc q),
                  sc_order := sc_order ?acc @ ps\<rparr>)"
    using Cons.prems(1,2) acc by (intro Cons.IH) auto
  moreover have "(\<lambda>q. if q \<in> set ps then m q else sc_skipped ?acc q)
      = (\<lambda>q. if q \<in> set (p # ps) then m q else sc_skipped acc q)"
    using mk by (auto simp: fun_eq_iff)
  ultimately show ?case unfolding step by simp
qed simp

lemma decode_encode_checkpoint:
  assumes ok: "chain_ok sc"
  shows "\<exists>bs. encode_checkpoint sc = Inr bs \<and> decode_checkpoint bs = Inr sc"
proof -
  note o = chain_okD [OF ok]
  let ?len = "u32_to_be_bytes (of_nat (length (sc_order sc)))"
  let ?es = "concat (map (entry_bytes (sc_skipped sc)) (sc_order sc))"
  define bs where "bs = CHECKPOINT_MAGIC @ array_bytes (sc_chain_key sc) @ u32_to_be_bytes (sc_n sc) @ ?len @ ?es"
  have finite: "finite (dom (sc_skipped sc))" using o(2) by (metis List.finite_set)
  then have enc: "encode_checkpoint sc = Inr bs"
    using encode_checkpoint_ok [OF finite] ok
    by (auto simp: encode_checkpoint_def bs_def split: if_splits)
  have magic: "length CHECKPOINT_MAGIC = 5" by (simp add: CHECKPOINT_MAGIC_def ascii_def)
  have len: "unat (of_nat (length (sc_order sc)) :: u32) = length (sc_order sc)"
    using o(3) by (simp add: MAX_SKIPPED_TOTAL_def unat_of_nat)
  have parts: "take 5 bs = CHECKPOINT_MAGIC" "take 32 (drop 5 bs) = array_bytes (sc_chain_key sc)"
    "take 4 (drop 37 bs) = u32_to_be_bytes (sc_n sc)" "take 4 (drop 41 bs) = ?len"
    "drop CHECKPOINT_HEADER bs = ?es"
    by (simp_all add: bs_def magic CHECKPOINT_HEADER_def)
  have size: "length bs = CHECKPOINT_HEADER + length (sc_order sc) * CHECKPOINT_ENTRY"
    by (simp add: bs_def magic CHECKPOINT_HEADER_def length_entries)
  then have small: "CHECKPOINT_HEADER \<le> length bs" "length bs \<le> CHECKPOINT_MAX_BYTES"
    using o(3) by (simp_all add: CHECKPOINT_MAX_BYTES_def)
  let ?acc = "\<lparr>sc_chain_key = sc_chain_key sc, sc_n = sc_n sc, sc_skipped = Map.empty, sc_order = []\<rparr>"
  have "decode_entries (length (sc_order sc)) ?es ?acc
      = Inr (?acc\<lparr>sc_skipped := (\<lambda>p. if p \<in> set (sc_order sc) then sc_skipped sc p else None),
                  sc_order := [] @ sc_order sc\<rparr>)"
    using o(1,2,4) by (subst decode_entries_encoded) auto
  moreover have "(\<lambda>p. if p \<in> set (sc_order sc) then sc_skipped sc p else None) = sc_skipped sc"
    using o(2) by (auto simp: fun_eq_iff domIff)
  ultimately have "decode_checkpoint bs = Inr sc"
    using small parts size len o(3) by (simp add: decode_checkpoint_def Let_def)
  with enc show ?thesis by blast
qed

lemma decode_entries_sound:
  assumes "decode_entries k bs acc = Inr sc" and "length bs = k * CHECKPOINT_ENTRY"
    and "distinct (sc_order acc)" and "set (sc_order acc) = dom (sc_skipped acc)"
    and "\<forall>p\<in>set (sc_order acc). p < sc_n acc"
  shows "\<exists>ps. sc_order sc = sc_order acc @ ps \<and> length ps = k
    \<and> bs = concat (map (entry_bytes (sc_skipped sc)) ps) \<and> sc_n sc = sc_n acc \<and> sc_chain_key sc = sc_chain_key acc
    \<and> distinct (sc_order sc) \<and> set (sc_order sc) = dom (sc_skipped sc)
    \<and> (\<forall>p\<in>set (sc_order sc). p < sc_n sc) \<and> sc_skipped acc \<subseteq>\<^sub>m sc_skipped sc"
  using assms
proof (induction k arbitrary: bs acc)
  case 0
  then show ?case by simp
next
  case (Suc k)
  define p where "p = u32_from_be_bytes (take 4 (take CHECKPOINT_ENTRY bs))"
  define key where "key = array_of_bytes (drop 4 (take CHECKPOINT_ENTRY bs))"
  let ?acc = "acc\<lparr>sc_skipped := (sc_skipped acc)(p \<mapsto> key), sc_order := sc_order acc @ [p]\<rparr>"
  have len: "CHECKPOINT_ENTRY \<le> length bs" "length (drop CHECKPOINT_ENTRY bs) = k * CHECKPOINT_ENTRY"
    using Suc.prems(2) by simp_all
  have new: "p < sc_n acc" "sc_skipped acc p = None"
    and rest: "decode_entries k (drop CHECKPOINT_ENTRY bs) ?acc = Inr sc"
    using Suc.prems(1) by (auto simp: Let_def p_def key_def not_le split: if_splits)
  have acc: "distinct (sc_order ?acc)" "set (sc_order ?acc) = dom (sc_skipped ?acc)"
    "\<forall>q\<in>set (sc_order ?acc). q < sc_n ?acc"
    using Suc.prems(3-5) new by (auto simp: domIff)
  obtain ps where ps: "sc_order sc = sc_order ?acc @ ps" "length ps = k"
    "drop CHECKPOINT_ENTRY bs = concat (map (entry_bytes (sc_skipped sc)) ps)" "sc_n sc = sc_n ?acc"
    "sc_chain_key sc = sc_chain_key ?acc" "distinct (sc_order sc)" "set (sc_order sc) = dom (sc_skipped sc)"
    "\<forall>p\<in>set (sc_order sc). p < sc_n sc" "sc_skipped ?acc \<subseteq>\<^sub>m sc_skipped sc"
    using Suc.IH [OF rest len(2) acc] by blast
  have "sc_skipped sc p = Some key" using ps(9) by (auto simp: map_le_def)
  then have "entry_bytes (sc_skipped sc) p = take CHECKPOINT_ENTRY bs"
    using len(1) append_take_drop_id [of 4 "take CHECKPOINT_ENTRY bs"]
    by (simp add: entry_bytes_def p_def key_def u32_to_from_be_bytes array_bytes_of_array CHECKPOINT_ENTRY_def)
  then have "bs = concat (map (entry_bytes (sc_skipped sc)) (p # ps))"
    using ps(3) by (metis append_take_drop_id concat.simps(2) list.simps(9))
  moreover have "sc_skipped acc \<subseteq>\<^sub>m sc_skipped ?acc" using new(2) by (auto simp: map_le_def domIff)
  then have "sc_skipped acc \<subseteq>\<^sub>m sc_skipped sc" using ps(9) by (rule map_le_trans)
  ultimately show ?case using ps by (intro exI [of _ "p # ps"]) simp
qed

lemma decode_checkpoint_canonical:
  assumes "decode_checkpoint bs = Inr sc"
  shows "chain_ok sc \<and> encode_checkpoint sc = Inr bs"
proof -
  define k where "k = unat (u32_from_be_bytes (take 4 (drop 41 bs)))"
  define n where "n = u32_from_be_bytes (take 4 (drop 37 bs))"
  define key where "key = array_of_bytes (take 32 (drop 5 bs))"
  let ?acc = "\<lparr>sc_chain_key = key, sc_n = n, sc_skipped = Map.empty, sc_order = []\<rparr>"
  note d = assms [unfolded decode_checkpoint_def Let_def, folded k_def n_def key_def]
  have magic: "take 5 bs = CHECKPOINT_MAGIC" by (rule ccontr) (use d in simp)
  have k: "k \<le> MAX_SKIPPED_TOTAL" by (rule ccontr) (use d in \<open>simp split: if_split_asm\<close>)
  have len: "length bs = CHECKPOINT_HEADER + k * CHECKPOINT_ENTRY"
    by (rule ccontr) (use d in \<open>simp split: if_split_asm\<close>)
  have dec: "decode_entries k (drop CHECKPOINT_HEADER bs) ?acc = Inr sc"
    using d by (simp only: split: if_split_asm) simp_all
  obtain ps where ps: "sc_order sc = ps" "length ps = k"
    "drop CHECKPOINT_HEADER bs = concat (map (entry_bytes (sc_skipped sc)) ps)" "sc_n sc = n"
    "sc_chain_key sc = key" "distinct ps" "set ps = dom (sc_skipped sc)" "\<forall>p\<in>set ps. p < n"
    using decode_entries_sound [OF dec] len by auto
  have ok: "chain_ok sc" using ps k by (simp add: chain_ok_def)
  have big: "45 \<le> length bs" using len by (simp add: CHECKPOINT_HEADER_def)
  have pieces: "array_bytes key = take 32 (drop 5 bs)" "u32_to_be_bytes n = take 4 (drop 37 bs)"
    "u32_to_be_bytes (of_nat k) = take 4 (drop 41 bs)"
    using big by (simp_all add: key_def n_def k_def array_bytes_of_array u32_to_from_be_bytes)
  have "bs = take 5 bs @ take 32 (drop 5 bs) @ take 4 (drop 37 bs) @ take 4 (drop 41 bs) @ drop 45 bs"
  proof -
    have "drop 5 bs = take 32 (drop 5 bs) @ drop 37 bs" "drop 37 bs = take 4 (drop 37 bs) @ drop 41 bs"
      "drop 41 bs = take 4 (drop 41 bs) @ drop 45 bs"
      using append_take_drop_id [of 32 "drop 5 bs"] append_take_drop_id [of 4 "drop 37 bs"]
        append_take_drop_id [of 4 "drop 41 bs"] by simp_all
    then show ?thesis by (metis append_take_drop_id)
  qed
  then have "bs = CHECKPOINT_MAGIC @ array_bytes key @ u32_to_be_bytes n @ u32_to_be_bytes (of_nat k)
      @ concat (map (entry_bytes (sc_skipped sc)) ps)"
    using magic pieces ps(3) by (simp add: CHECKPOINT_HEADER_def)
  moreover have "\<exists>bs. encode_checkpoint sc = Inr bs"
    using decode_encode_checkpoint [OF ok] by blast
  ultimately have "encode_checkpoint sc = Inr bs"
    using ps by (auto simp: encode_checkpoint_def split: if_splits)
  with ok show ?thesis by blast
qed

section \<open>Receivers over time\<close>

text \<open>
  A receiver that started from the distribution of a chain and went through any requests for
  keys, any jumps to later snapshots of the same chain and any reloads from its checkpoint.
\<close>

inductive receiver_reachable :: "ratchet_env \<Rightarrow> nat \<Rightarrow> array32 \<Rightarrow> sender_chain \<Rightarrow> bool" for env p0 ck0 where
  start: "unat n = p0 \<Longrightarrow> receiver_reachable env p0 ck0 (from_distribution \<lparr>skd_chain_key = ck0, skd_n = n\<rparr>)"
| request: "receiver_reachable env p0 ck0 sc \<Longrightarrow> receiver_reachable env p0 ck0 (snd (message_key env sc target))"
| jump: "receiver_reachable env p0 ck0 sc \<Longrightarrow> p0 \<le> unat n \<Longrightarrow>
    receiver_reachable env p0 ck0
      (refresh_distribution sc \<lparr>skd_chain_key = chain_key env ck0 (unat n - p0), skd_n = n\<rparr>)"
| reload: "receiver_reachable env p0 ck0 sc \<Longrightarrow> encode_checkpoint sc = Inr bs \<Longrightarrow>
    decode_checkpoint bs = Inr sc' \<Longrightarrow> receiver_reachable env p0 ck0 sc'"

lemma refresh_ok:
  assumes "chain_ok sc" and "follows env p0 ck0 sc" and "p0 \<le> unat n"
  shows "chain_ok (refresh_distribution sc \<lparr>skd_chain_key = chain_key env ck0 (unat n - p0), skd_n = n\<rparr>)
    \<and> follows env p0 ck0 (refresh_distribution sc \<lparr>skd_chain_key = chain_key env ck0 (unat n - p0), skd_n = n\<rparr>)"
proof (cases "saturating_sub n (sc_n sc) > MAX_SKIP")
  case True
  then have le: "sc_n sc \<le> n" by (auto simp: saturating_sub_def split: if_splits)
  have "p < n" if "p \<in> dom (sc_skipped sc)" for p
    using chain_okD(4) [OF assms(1) that] le by (rule less_le_trans)
  with assms True show ?thesis
    by (simp add: refresh_distribution_def chain_ok_def follows_def)
next
  case False
  with assms show ?thesis by (simp add: refresh_distribution_def)
qed

lemma receiver_reachable_ok: "receiver_reachable env p0 ck0 sc \<Longrightarrow> chain_ok sc \<and> follows env p0 ck0 sc"
proof (induction rule: receiver_reachable.induct)
  case (start n)
  then show ?case by (simp add: from_distribution_def chain_ok_def follows_def)
next
  case (request sc target)
  then obtain r sc' where "message_key env sc target = (r, sc')" "chain_ok sc'" "follows env p0 ck0 sc'"
    using message_key_total [of sc env p0 ck0 target] by blast
  then show ?case by simp
next
  case (jump sc n)
  then show ?case using refresh_ok by blast
next
  case (reload sc bs sc')
  then have "sc' = sc" using decode_encode_checkpoint [of sc] by auto
  with reload show ?case by blast
qed

lemma sealed_position_opens:
  assumes "aead_opens env" and "receiver_reachable env p0 ck0 sc"
    and "p0 \<le> unat (sk_n sk)" and "sk_chain_key sk = chain_key env ck0 (unat (sk_n sk) - p0)"
    and "can_open sc (sk_n sk)" and "unat (sk_n sk) < 2 ^ 32 - 1"
  shows "\<exists>mk sk' sealed sc'. try_ratchet env sk = (Inr (sk_n sk, mk), sk') \<and> unat (sk_n sk') = Suc (unat (sk_n sk))
    \<and> seal_message env mk plaintext aad = Inr sealed
    \<and> prepare_open env sc (sk_n sk) sealed aad = Inr \<lparr>po_next = sc', po_plaintext = plaintext\<rparr>
    \<and> sc' = snd (message_key env sc (sk_n sk)) \<and> receiver_reachable env p0 ck0 sc'"
proof -
  let ?n = "sk_n sk" and ?mk = "chain_message_key env ck0 (unat (sk_n sk) - p0)"
  have less: "?n < - 1"
    using assms(6) by (simp add: word_less_nat_alt unsigned_minus_1_eq_mask mask_eq_exp_minus_1)
  have send: "try_ratchet env sk
      = (Inr (?n, ?mk), \<lparr>sk_chain_key = fst (kdf_ck env (sk_chain_key sk)), sk_n = ?n + 1\<rparr>)"
    using assms(4,6) by (simp add: try_ratchet_def checked_add_1_u32 case_prod_unfold chain_message_key_def)
  obtain key nonce where k: "message_keys env ?mk = (key, nonce)" by fastforce
  obtain sealed where s: "aes_gcm_encrypt env key nonce plaintext aad = Some sealed"
    "aes_gcm_decrypt env key nonce sealed aad = Some plaintext"
    using assms(1) unfolding aead_opens_def by blast
  have ok: "chain_ok sc" "follows env p0 ck0 sc" using receiver_reachable_ok [OF assms(2)] by auto
  obtain bs where bs: "encode_checkpoint sc = Inr bs" "decode_checkpoint bs = Inr sc"
    using decode_encode_checkpoint [OF ok(1)] by blast
  obtain sc' where sc': "message_key env sc ?n = (Inr ?mk, sc')"
    using message_key_total [OF ok, of ?n] assms(5) by auto
  have "prepare_open env sc ?n sealed aad = Inr \<lparr>po_next = sc', po_plaintext = plaintext\<rparr>"
    using bs sc' k s(2) by (simp add: prepare_open_def open_message_def)
  moreover have "seal_message env ?mk plaintext aad = Inr sealed" using k s(1) by (simp add: seal_message_def)
  moreover have "receiver_reachable env p0 ck0 sc'"
    using receiver_reachable.request [OF assms(2), of ?n] sc' by simp
  ultimately show ?thesis using send sc' unat_succ_less [OF less] by auto
qed

section \<open>Properties\<close>

text \<open>
  C20. A receiver hands out the right key, once: at any time, for any position, it answers with
  the key the sender used there exactly when the position is buffered or within a thousand of
  the next one, and after that never again; otherwise it answers with an error and stays as it
  was.
\<close>

theorem receiver_keys_right_and_once:
  assumes "receiver_reachable env p0 ck0 sc"
  shows "\<exists>r sc'. message_key env sc target = (r, sc')
    \<and> (can_open sc target \<longrightarrow> r = Inr (chain_message_key env ck0 (unat target - p0)) \<and> \<not> can_open sc' target)
    \<and> (\<not> can_open sc target \<longrightarrow> isl r \<and> sc' = sc)"
  using message_key_total [of sc env p0 ck0 target] receiver_reachable_ok [OF assms] by blast

text \<open>
  C21. The receiver's queue stays as long as its buffer, and neither exceeds two thousand.
\<close>

theorem receiver_queue_in_sync:
  assumes "receiver_reachable env p0 ck0 sc"
  shows "length (sc_order sc) = card (dom (sc_skipped sc)) \<and> length (sc_order sc) \<le> 2000
    \<and> (\<forall>p\<in>dom (sc_skipped sc). p < sc_n sc)"
  using receiver_reachable_ok [OF assms] chain_okD [of sc] by (auto simp: MAX_SKIPPED_TOTAL_def)

text \<open>
  C22. The local byte form is exact: a reachable receiver encodes and decodes to itself, eviction
  order included, and whatever decodes is a receiver in order whose only encoding is those bytes.
\<close>

theorem checkpoint_exact:
  "(receiver_reachable env p0 ck0 sc \<longrightarrow>
      (\<exists>bs. encode_checkpoint sc = Inr bs \<and> decode_checkpoint bs = Inr sc))
   \<and> (decode_checkpoint bytes = Inr sc \<longrightarrow>
      distinct (sc_order sc) \<and> set (sc_order sc) = dom (sc_skipped sc) \<and> encode_checkpoint sc = Inr bytes)"
  using decode_encode_checkpoint [of sc] receiver_reachable_ok [of env p0 ck0 sc]
    decode_checkpoint_canonical [of bytes sc] chain_okD(1,2) [of sc] by blast

text \<open>
  C23. A channel message arrives: what a sender seals with the key of its position, a receiver of
  the same chain that can still open the position opens to the same text, on a copy of itself
  that is the state it moves to; the sender's next position is one further.
\<close>

theorem channel_message_arrives:
  assumes "aead_opens env" and "receiver_reachable env p0 ck0 sc"
    and "p0 \<le> unat (sk_n sk)" and "sk_chain_key sk = chain_key env ck0 (unat (sk_n sk) - p0)"
    and "can_open sc (sk_n sk)" and "unat (sk_n sk) < 2 ^ 32 - 1"
  shows "\<exists>mk sk' sealed sc'. try_ratchet env sk = (Inr (sk_n sk, mk), sk') \<and> unat (sk_n sk') = Suc (unat (sk_n sk))
    \<and> seal_message env mk plaintext aad = Inr sealed
    \<and> prepare_open env sc (sk_n sk) sealed aad = Inr \<lparr>po_next = sc', po_plaintext = plaintext\<rparr>
    \<and> sc' = snd (message_key env sc (sk_n sk)) \<and> receiver_reachable env p0 ck0 sc'"
  by (rule sealed_position_opens [OF assms])

section \<open>Witnesses\<close>

lemma demo_receiver: "receiver_reachable demo_ratchet 0 8 (from_distribution \<lparr>skd_chain_key = 8, skd_n = 0\<rparr>)"
  by (rule receiver_reachable.start) simp

theorem receiver_keys_right_and_once_witness:
  "\<exists>sc'. message_key demo_ratchet (from_distribution \<lparr>skd_chain_key = 8, skd_n = 0\<rparr>) 1000
     = (Inr (chain_message_key demo_ratchet 8 1000), sc')"
proof -
  have "can_open (from_distribution \<lparr>skd_chain_key = 8, skd_n = 0\<rparr>) 1000"
    by (simp add: can_open_def from_distribution_def)
  then show ?thesis using receiver_keys_right_and_once [OF demo_receiver, of 1000] by auto
qed

theorem receiver_queue_in_sync_witness:
  "\<exists>sc. snd (message_key demo_ratchet (from_distribution \<lparr>skd_chain_key = 8, skd_n = 0\<rparr>) 1) = sc
     \<and> sc_order sc = [0] \<and> card (dom (sc_skipped sc)) = 1"
proof -
  let ?s = "from_distribution \<lparr>skd_chain_key = 8, skd_n = 0\<rparr>"
  have "advance_loop demo_ratchet 1 ?s = advance_loop demo_ratchet 1 (advance_one demo_ratchet ?s)"
    by (subst advance_loop.simps) (simp add: from_distribution_def)
  also have "\<dots> = advance_one demo_ratchet ?s"
    by (subst advance_loop.simps) (simp add: from_distribution_def)
  finally have "advance_loop demo_ratchet 1 ?s = advance_one demo_ratchet ?s" .
  moreover have "sc_order (advance_one demo_ratchet ?s) = [0]"
    by (simp add: advance_one_def from_distribution_def MAX_SKIPPED_TOTAL_def split: prod.split)
  ultimately have "sc_order (snd (message_key demo_ratchet ?s 1)) = [0]"
    by (simp add: message_key_def checked_add_def MAX_SKIP_def from_distribution_def Let_def split: prod.split)
  with receiver_queue_in_sync [OF receiver_reachable.request [OF demo_receiver, of 1]] show ?thesis by simp
qed

theorem checkpoint_exact_witness:
  "\<exists>bs. encode_checkpoint (from_distribution \<lparr>skd_chain_key = 8, skd_n = 0\<rparr>) = Inr bs
     \<and> decode_checkpoint bs = Inr (from_distribution \<lparr>skd_chain_key = 8, skd_n = 0\<rparr>)"
  using checkpoint_exact [of demo_ratchet 0 8 "from_distribution \<lparr>skd_chain_key = 8, skd_n = 0\<rparr>" "[]"]
    demo_receiver by blast

theorem channel_message_arrives_witness:
  "\<exists>mk sk' sealed sc'. try_ratchet demo_ratchet \<lparr>sk_chain_key = 8, sk_n = 0\<rparr> = (Inr (0, mk), sk')
    \<and> seal_message demo_ratchet mk [1, 2] [3] = Inr sealed
    \<and> prepare_open demo_ratchet (from_distribution \<lparr>skd_chain_key = 8, skd_n = 0\<rparr>) 0 sealed [3]
        = Inr \<lparr>po_next = sc', po_plaintext = [1, 2]\<rparr>"
proof -
  have "can_open (from_distribution \<lparr>skd_chain_key = 8, skd_n = 0\<rparr>) 0"
    by (simp add: can_open_def from_distribution_def)
  then show ?thesis
    using channel_message_arrives [OF demo_ratchet_laws(1) demo_receiver, of "\<lparr>sk_chain_key = 8, sk_n = 0\<rparr>" "[1, 2]" "[3]"]
    by fastforce
qed

end
