(* ===== verification/Sealed_Box.thy ===== *)
theory Sealed_Box
  imports Double_Ratchet
begin

text \<open>
  The sealed box of \<^verbatim>\<open>dm.rs\<close>, which encrypts a payload to one recipient under a key drawn
  from two key agreements, and \<^verbatim>\<open>channel/crypto.rs\<close>, which wraps a channel's group key in such
  boxes and encrypts messages with it. The ephemeral secret, a fresh key and a fresh nonce are
  arguments. The bincode form of an envelope is a parameter; X25519, HKDF and AES-GCM are those of
  \<open>ratchet_env\<close>, and wiping memory has no counterpart.
\<close>

section \<open>The box\<close>

record sealed_envelope =
  ephemeral_pub :: array32
  envelope_ciphertext :: bytes

datatype dm_error = DmEncrypt | DmDecrypt | DmSerialization string

record box_env =
  bx_crypto :: crypto_env
  bx_ratchet :: ratchet_env
  bincode_envelope :: "sealed_envelope \<Rightarrow> string + bytes"
  parse_envelope :: "bytes \<Rightarrow> string + sealed_envelope"

definition DM_DOMAIN :: bytes where
  "DM_DOMAIN = ascii ''mesh-talk-dm-v1''"

definition KEY_LEN :: nat where
  "KEY_LEN = 32"

definition NONCE_LEN :: nat where
  "NONCE_LEN = 12"

definition derive_key_nonce ::
  "ratchet_env \<Rightarrow> array32 \<Rightarrow> array32 \<Rightarrow> array32 \<Rightarrow> array32 \<Rightarrow> array32 \<Rightarrow> array32 \<times> bytes" where
  "derive_key_nonce env dh1 dh2 sender_pub recipient_pub eph_pub =
     (let ikm = array_bytes dh1 @ array_bytes dh2;
          info = DM_DOMAIN @ array_bytes sender_pub @ array_bytes recipient_pub @ array_bytes eph_pub;
          okm = hkdf env [] ikm info (KEY_LEN + NONCE_LEN)
      in (array_of_bytes (take KEY_LEN okm), drop KEY_LEN okm))"

definition dm_seal ::
  "box_env \<Rightarrow> array32 \<Rightarrow> device_identity \<Rightarrow> array32 \<Rightarrow> bytes \<Rightarrow> dm_error + bytes" where
  "dm_seal env ephemeral sender recipient_pub plaintext =
     (let rt = bx_ratchet env;
          sender_pub = x25519_pub (device_public (bx_crypto env) sender);
          eph_pub = x25519_base rt ephemeral;
          dh1 = x25519_dh rt (dh_secret sender) recipient_pub;
          dh2 = x25519_dh rt ephemeral recipient_pub
      in (case derive_key_nonce rt dh1 dh2 sender_pub recipient_pub eph_pub of (key, nonce) \<Rightarrow>
            (case aes_gcm_encrypt rt key nonce plaintext [] of
               None \<Rightarrow> Inl DmEncrypt
             | Some ct \<Rightarrow>
                 (case bincode_envelope env \<lparr>ephemeral_pub = eph_pub, envelope_ciphertext = ct\<rparr> of
                    Inl e \<Rightarrow> Inl (DmSerialization e)
                  | Inr bs \<Rightarrow> Inr bs))))"

definition dm_open ::
  "box_env \<Rightarrow> device_identity \<Rightarrow> array32 \<Rightarrow> bytes \<Rightarrow> dm_error + bytes" where
  "dm_open env recipient sender_pub envelope_bytes =
     (case parse_envelope env envelope_bytes of
        Inl e \<Rightarrow> Inl (DmSerialization e)
      | Inr envelope \<Rightarrow>
          let rt = bx_ratchet env;
              recipient_pub = x25519_pub (device_public (bx_crypto env) recipient);
              dh1 = x25519_dh rt (dh_secret recipient) sender_pub;
              dh2 = x25519_dh rt (dh_secret recipient) (ephemeral_pub envelope)
          in (case derive_key_nonce rt dh1 dh2 sender_pub recipient_pub (ephemeral_pub envelope) of (key, nonce) \<Rightarrow>
                (case aes_gcm_decrypt rt key nonce (envelope_ciphertext envelope) [] of
                   None \<Rightarrow> Inl DmDecrypt
                 | Some pt \<Rightarrow> Inr pt)))"

section \<open>Group keys\<close>

datatype group_key = GroupKey (group_key_bytes: array32)

datatype channel_error = ChSeal dm_error | ChEncrypt | ChDecrypt | ChMalformed string

definition KEY_SIZE :: nat where
  "KEY_SIZE = 32"

definition NONCE_SIZE :: nat where
  "NONCE_SIZE = 12"

definition TAG_SIZE :: nat where
  "TAG_SIZE = 16"

definition group_key_generate :: "array32 \<Rightarrow> group_key" where
  "group_key_generate fresh = GroupKey fresh"

definition seal_group_key ::
  "box_env \<Rightarrow> array32 \<Rightarrow> device_identity \<Rightarrow> array32 \<Rightarrow> group_key \<Rightarrow> channel_error + bytes" where
  "seal_group_key env ephemeral sender recipient_pub key =
     (case dm_seal env ephemeral sender recipient_pub (array_bytes (group_key_bytes key)) of
        Inl e \<Rightarrow> Inl (ChSeal e) | Inr bs \<Rightarrow> Inr bs)"

definition open_group_key ::
  "box_env \<Rightarrow> device_identity \<Rightarrow> array32 \<Rightarrow> bytes \<Rightarrow> channel_error + group_key" where
  "open_group_key env recipient sender_pub envelope =
     (case dm_open env recipient sender_pub envelope of
        Inl e \<Rightarrow> Inl (ChSeal e)
      | Inr bs \<Rightarrow>
          if length bs = KEY_SIZE then Inr (GroupKey (array_of_bytes bs))
          else Inl (ChMalformed ''group key is not 32 bytes''))"

definition seal_channel_message ::
  "ratchet_env \<Rightarrow> bytes \<Rightarrow> group_key \<Rightarrow> bytes \<Rightarrow> channel_error + bytes" where
  "seal_channel_message env nonce key plaintext =
     (case aes_gcm_encrypt env (group_key_bytes key) nonce plaintext [] of
        None \<Rightarrow> Inl ChEncrypt
      | Some ct \<Rightarrow> Inr (nonce @ ct))"

definition open_channel_message ::
  "ratchet_env \<Rightarrow> group_key \<Rightarrow> bytes \<Rightarrow> channel_error + bytes" where
  "open_channel_message env key envelope =
     (if length envelope < NONCE_SIZE + TAG_SIZE
      then Inl (ChMalformed ''channel envelope too short (need nonce + tag)'')
      else
        (case aes_gcm_decrypt env (group_key_bytes key) (take NONCE_SIZE envelope) (drop NONCE_SIZE envelope) [] of
           None \<Rightarrow> Inl ChDecrypt
         | Some pt \<Rightarrow> Inr pt))"

section \<open>Round trips\<close>

text \<open>What the proofs use of the crates beside \<open>aead_opens\<close> and \<open>dh_agrees\<close>: an envelope decodes
  to what was encoded, both records name one X25519, and a sealed text carries its tag.\<close>

definition box_coded :: "box_env \<Rightarrow> bool" where
  "box_coded env \<longleftrightarrow>
     (\<forall>e. \<exists>bs. bincode_envelope env e = Inr bs \<and> parse_envelope env bs = Inr e)
     \<and> (\<forall>s. x25519_public (bx_crypto env) s = x25519_base (bx_ratchet env) s)"

definition aead_tagged :: "ratchet_env \<Rightarrow> bool" where
  "aead_tagged env \<longleftrightarrow> (\<forall>k nonce pt aad ct. aes_gcm_encrypt env k nonce pt aad = Some ct \<longrightarrow> TAG_SIZE \<le> length ct)"

lemma dm_seal_opens:
  assumes "aead_opens (bx_ratchet env)" and "dh_agrees (bx_ratchet env)" and "box_coded env"
  shows "\<exists>bs. dm_seal env ephemeral sender (x25519_pub (device_public (bx_crypto env) recipient)) pt = Inr bs
    \<and> dm_open env recipient (x25519_pub (device_public (bx_crypto env) sender)) bs = Inr pt"
proof -
  let ?rt = "bx_ratchet env"
  let ?s = "dh_secret sender" and ?r = "dh_secret recipient"
  have pub: "x25519_pub (device_public (bx_crypto env) d) = x25519_base ?rt (dh_secret d)" for d
    using assms(3) by (simp add: box_coded_def device_public_def)
  obtain key nonce where k: "derive_key_nonce ?rt (x25519_dh ?rt ?s (x25519_base ?rt ?r))
      (x25519_dh ?rt ephemeral (x25519_base ?rt ?r)) (x25519_base ?rt ?s) (x25519_base ?rt ?r)
      (x25519_base ?rt ephemeral) = (key, nonce)" by fastforce
  have agree: "x25519_dh ?rt ?r (x25519_base ?rt t) = x25519_dh ?rt t (x25519_base ?rt ?r)" for t
    using assms(2) by (simp add: dh_agrees_def)
  obtain ct where ct: "aes_gcm_encrypt ?rt key nonce pt [] = Some ct" "aes_gcm_decrypt ?rt key nonce ct [] = Some pt"
    using assms(1) unfolding aead_opens_def by blast
  obtain bs where bs: "bincode_envelope env \<lparr>ephemeral_pub = x25519_base ?rt ephemeral, envelope_ciphertext = ct\<rparr> = Inr bs"
    "parse_envelope env bs = Inr \<lparr>ephemeral_pub = x25519_base ?rt ephemeral, envelope_ciphertext = ct\<rparr>"
    using assms(3) unfolding box_coded_def by blast
  show ?thesis
    using k ct bs by (simp add: dm_seal_def dm_open_def pub agree Let_def)
qed

lemma group_key_opens:
  assumes "aead_opens (bx_ratchet env)" and "dh_agrees (bx_ratchet env)" and "box_coded env"
  shows "\<exists>bs. seal_group_key env ephemeral sender (x25519_pub (device_public (bx_crypto env) recipient)) key = Inr bs
    \<and> open_group_key env recipient (x25519_pub (device_public (bx_crypto env) sender)) bs = Inr key"
  using dm_seal_opens [OF assms, of ephemeral sender recipient "array_bytes (group_key_bytes key)"]
  by (auto simp: seal_group_key_def open_group_key_def KEY_SIZE_def)

section \<open>Properties\<close>

text \<open>
  C32. A member reads the channel: a group key sealed to a member opens, for the member and under
  the sender's key, to exactly that key, and a message sealed with it under any nonce of twelve
  bytes opens with it. Any envelope too short for nonce and tag is refused as malformed whatever the
  key, and a sealed payload that is not 32 bytes long is refused as a group key.
\<close>

theorem group_key_reaches_member:
  assumes "aead_opens (bx_ratchet env)" and "dh_agrees (bx_ratchet env)" and "box_coded env"
    and "aead_tagged (bx_ratchet env)" and "length nonce = 12"
  shows "(\<exists>envelope wire.
      seal_group_key env ephemeral sender (x25519_pub (device_public (bx_crypto env) recipient)) key = Inr envelope
    \<and> open_group_key env recipient (x25519_pub (device_public (bx_crypto env) sender)) envelope = Inr key
    \<and> seal_channel_message (bx_ratchet env) nonce key pt = Inr wire
    \<and> open_channel_message (bx_ratchet env) key wire = Inr pt)
    \<and> (\<forall>k short. length short < 28 \<longrightarrow> (\<exists>why. open_channel_message (bx_ratchet env) k short = Inl (ChMalformed why)))
    \<and> (\<forall>payload. length payload \<noteq> 32 \<longrightarrow>
         (\<exists>envelope why. dm_seal env ephemeral sender (x25519_pub (device_public (bx_crypto env) recipient)) payload = Inr envelope
            \<and> open_group_key env recipient (x25519_pub (device_public (bx_crypto env) sender)) envelope = Inl (ChMalformed why)))"
proof (intro conjI allI impI)
  obtain envelope where e:
    "seal_group_key env ephemeral sender (x25519_pub (device_public (bx_crypto env) recipient)) key = Inr envelope"
    "open_group_key env recipient (x25519_pub (device_public (bx_crypto env) sender)) envelope = Inr key"
    using group_key_opens [OF assms(1-3)] by blast
  obtain ct where ct: "aes_gcm_encrypt (bx_ratchet env) (group_key_bytes key) nonce pt [] = Some ct"
    "aes_gcm_decrypt (bx_ratchet env) (group_key_bytes key) nonce ct [] = Some pt"
    using assms(1) unfolding aead_opens_def by blast
  have "16 \<le> length ct" using assms(4) ct(1) by (auto simp: aead_tagged_def TAG_SIZE_def)
  then have "open_channel_message (bx_ratchet env) key (nonce @ ct) = Inr pt"
    using ct(2) assms(5) by (simp add: open_channel_message_def NONCE_SIZE_def TAG_SIZE_def)
  then show "\<exists>envelope wire.
      seal_group_key env ephemeral sender (x25519_pub (device_public (bx_crypto env) recipient)) key = Inr envelope
    \<and> open_group_key env recipient (x25519_pub (device_public (bx_crypto env) sender)) envelope = Inr key
    \<and> seal_channel_message (bx_ratchet env) nonce key pt = Inr wire
    \<and> open_channel_message (bx_ratchet env) key wire = Inr pt"
    using e ct(1) by (auto simp: seal_channel_message_def)
next
  fix k short assume "length (short :: bytes) < 28"
  then show "\<exists>why. open_channel_message (bx_ratchet env) k short = Inl (ChMalformed why)"
    by (simp add: open_channel_message_def NONCE_SIZE_def TAG_SIZE_def)
next
  fix payload :: bytes assume "length payload \<noteq> 32"
  moreover obtain envelope where
    "dm_seal env ephemeral sender (x25519_pub (device_public (bx_crypto env) recipient)) payload = Inr envelope"
    "dm_open env recipient (x25519_pub (device_public (bx_crypto env) sender)) envelope = Inr payload"
    using dm_seal_opens [OF assms(1-3), of ephemeral sender recipient payload] by blast
  ultimately show "\<exists>envelope why.
      dm_seal env ephemeral sender (x25519_pub (device_public (bx_crypto env) recipient)) payload = Inr envelope
      \<and> open_group_key env recipient (x25519_pub (device_public (bx_crypto env) sender)) envelope = Inl (ChMalformed why)"
    by (auto simp: open_group_key_def KEY_SIZE_def)
qed

section \<open>Witnesses\<close>

definition demo_box :: box_env where
  "demo_box =
     \<lparr>bx_crypto = demo_env,
      bx_ratchet = demo_ratchet\<lparr>aes_gcm_encrypt := (\<lambda>k nonce pt aad. Some (replicate 16 0 @ pt)),
                               aes_gcm_decrypt := (\<lambda>k nonce ct aad. Some (drop 16 ct))\<rparr>,
      bincode_envelope = (\<lambda>e. Inr (array_bytes (ephemeral_pub e) @ envelope_ciphertext e)),
      parse_envelope = (\<lambda>bs. Inr \<lparr>ephemeral_pub = array_of_bytes (take 32 bs), envelope_ciphertext = drop 32 bs\<rparr>)\<rparr>"

theorem group_key_reaches_member_witness:
  "(\<exists>envelope wire.
      seal_group_key demo_box 7 \<lparr>signing_key = 1, dh_secret = 2\<rparr> 3 (GroupKey 5) = Inr envelope
    \<and> open_group_key demo_box \<lparr>signing_key = 2, dh_secret = 3\<rparr> 2 envelope = Inr (GroupKey 5)
    \<and> seal_channel_message (bx_ratchet demo_box) (replicate 12 0) (GroupKey 5) [9] = Inr wire
    \<and> open_channel_message (bx_ratchet demo_box) (GroupKey 5) wire = Inr [9])
    \<and> (\<exists>why. open_channel_message (bx_ratchet demo_box) (GroupKey 6) [1, 2, 3] = Inl (ChMalformed why))"
proof -
  have "x25519_pub (device_public (bx_crypto demo_box) \<lparr>signing_key = s, dh_secret = d\<rparr>) = d" for s d
    by (simp add: demo_box_def demo_env_def device_public_def)
  moreover have "aead_opens (bx_ratchet demo_box)" "dh_agrees (bx_ratchet demo_box)" "box_coded demo_box"
    "aead_tagged (bx_ratchet demo_box)"
    using demo_ratchet_laws(2)
    by (simp_all add: demo_box_def aead_opens_def dh_agrees_def box_coded_def aead_tagged_def TAG_SIZE_def
        demo_env_def demo_ratchet_def)
  ultimately show ?thesis
    using group_key_reaches_member [of demo_box "replicate 12 0" 7 "\<lparr>signing_key = 1, dh_secret = 2\<rparr>"
        "\<lparr>signing_key = 2, dh_secret = 3\<rparr>" "GroupKey 5" "[9]"] by auto
qed

end
