(* ===== verification/Channel_Model.thy ===== *)
theory Channel_Model
  imports Sender_Key Sealed_Box "HOL-Library.Char_ord"
begin

text \<open>
  A member's view of a channel, from \<^verbatim>\<open>channel/model.rs\<close> and
  \<^verbatim>\<open>channel/model/checkpoint.rs\<close>: membership snapshots and renames, invitations and their
  acceptance, ownership and departures, the sealing and opening of channel messages with the
  sender keys of \<open>Sender_Key\<close>, and the two device-local forms (the current state, and one
  receiving chain with its message). A \<open>HashMap\<close> is a map and a \<open>HashSet\<close> a set; where the
  source lists a map in its unspecified iteration order, the model keeps the map. The bincode
  encodings are the fields of \<open>channel_env\<close>; a key the source draws is an argument.
\<close>

section \<open>Data\<close>

record channel_meta =
  cm_name :: string
  cm_members :: "public_identity list"
  cm_epoch :: u64
  cm_owner :: string

record msg_header =
  mh_epoch :: u64
  mh_sender :: string
  mh_n :: u32

record channel_state =
  cs_id :: conversation_id
  cs_name :: string
  cs_name_version :: "u64 \<times> event_id"
  cs_members :: "public_identity list"
  cs_epoch :: u64
  cs_owner :: string
  cs_account_owner :: "string option"
  cs_account_members :: "string \<rightharpoonup> string"
  cs_dissolved :: bool
  cs_genesis_owner :: string
  cs_pending_invite :: bool
  cs_accepted_event_id :: "event_id option"
  cs_accepted_members :: "string set"
  cs_my_user_id :: "string option"
  cs_my_sender :: "u64 \<rightharpoonup> sender_key"
  cs_sender_chains :: "string \<times> u64 \<rightharpoonup> sender_chain"

record current_state =
  cu_version :: u8
  cu_id :: conversation_id
  cu_name :: string
  cu_name_version :: "u64 \<times> event_id"
  cu_members :: "public_identity list"
  cu_epoch :: u64
  cu_owner :: string
  cu_account_owner :: "string option"
  cu_account_members :: "string \<rightharpoonup> string"
  cu_dissolved :: bool
  cu_genesis_owner :: string
  cu_pending_invite :: bool
  cu_accepted_event_id :: "event_id option"
  cu_accepted_members :: "string set"
  cu_my_user_id :: "string option"

datatype checkpoint_message_error = MessageRejected | MessageGap u32 | MessageMalformed string

record prepared_channel_message =
  pm_next_position :: u32
  pm_epoch :: u64
  pm_author :: string
  pm_checkpoint :: bytes
  pm_plaintext :: bytes

text \<open>
  The crates: the primitives of the two records below it, and the bincode encoding and decoding
  of each type. The coder of the current state may fail with a text of its own.
\<close>

record channel_env =
  ch_crypto :: crypto_env
  ch_ratchet :: ratchet_env
  bincode_meta :: "channel_meta \<Rightarrow> bytes"
  parse_meta :: "bytes \<Rightarrow> channel_meta option"
  bincode_members :: "public_identity list \<Rightarrow> bytes"
  bincode_msg_header :: "msg_header \<Rightarrow> bytes"
  parse_msg_header :: "bytes \<Rightarrow> msg_header option"
  bincode_sender_key :: "sender_key \<Rightarrow> bytes"
  parse_sender_key :: "bytes \<Rightarrow> sender_key option"
  bincode_current :: "current_state \<Rightarrow> string + bytes"
  parse_current :: "bytes \<Rightarrow> string + current_state"

abbreviation uid :: "channel_env \<Rightarrow> public_identity \<Rightarrow> string" where
  "uid env p \<equiv> user_id (ch_crypto env) p"

section \<open>Membership snapshots\<close>

definition INVITATION_GENESIS :: bytes where
  "INVITATION_GENESIS = ascii ''MTCH2''"

definition encode_meta :: "channel_env \<Rightarrow> channel_meta \<Rightarrow> bytes" where
  "encode_meta env m = bincode_meta env m"

definition encode_invitation :: "channel_env \<Rightarrow> channel_meta \<Rightarrow> bytes" where
  "encode_invitation env m = INVITATION_GENESIS @ encode_meta env m"

definition is_invitation :: "bytes \<Rightarrow> bool" where
  "is_invitation bs \<longleftrightarrow> prefix INVITATION_GENESIS bs"

definition decode_meta :: "channel_env \<Rightarrow> bytes \<Rightarrow> channel_meta option" where
  "decode_meta env bs =
     parse_meta env (if prefix INVITATION_GENESIS bs then drop (length INVITATION_GENESIS) bs else bs)"

definition meta_is_member :: "channel_env \<Rightarrow> channel_meta \<Rightarrow> string \<Rightarrow> bool" where
  "meta_is_member env m u \<longleftrightarrow> (\<exists>p\<in>set (cm_members m). uid env p = u)"

definition encode_members :: "channel_env \<Rightarrow> public_identity list \<Rightarrow> bytes" where
  "encode_members env ms = bincode_members env ms"

text \<open>\<open>fresh\<close> are the bytes the generator draws.\<close>

definition new_channel_id :: "array32 \<Rightarrow> conversation_id" where
  "new_channel_id fresh = ConversationId fresh"

definition from_meta :: "channel_env \<Rightarrow> conversation_id \<Rightarrow> channel_meta \<Rightarrow> channel_state" where
  "from_meta env cid m =
     \<lparr>cs_id = cid, cs_name = cm_name m, cs_name_version = (0, EventId 0), cs_members = cm_members m,
      cs_epoch = cm_epoch m, cs_owner = cm_owner m, cs_account_owner = None,
      cs_account_members = Map.empty, cs_dissolved = False, cs_genesis_owner = cm_owner m,
      cs_pending_invite = False, cs_accepted_event_id = None,
      cs_accepted_members = uid env ` set (cm_members m), cs_my_user_id = None,
      cs_my_sender = Map.empty, cs_sender_chains = Map.empty\<rparr>"

definition apply_meta_with_departure ::
  "channel_env \<Rightarrow> channel_meta \<Rightarrow> bool \<Rightarrow> channel_state \<Rightarrow> channel_state" where
  "apply_meta_with_departure env m concurrent_leave st =
     (if cs_dissolved st then st
      else if cm_owner m \<noteq> cs_owner st then st
      else
        let takes =
          (if cm_epoch m > cs_epoch st then True
           else if cm_epoch m = cs_epoch st
             then concurrent_leave \<or> encode_members env (cm_members m) > encode_members env (cs_members st)
           else False)
        in if takes then st\<lparr>cs_members := cm_members m, cs_epoch := cm_epoch m\<rparr> else st)"

definition apply_meta :: "channel_env \<Rightarrow> channel_meta \<Rightarrow> channel_state \<Rightarrow> channel_state" where
  "apply_meta env m st = apply_meta_with_departure env m False st"

definition apply_meta_after_concurrent_leave ::
  "channel_env \<Rightarrow> channel_meta \<Rightarrow> channel_state \<Rightarrow> channel_state" where
  "apply_meta_after_concurrent_leave env m st = apply_meta_with_departure env m True st"

definition apply_rename :: "string \<Rightarrow> u64 \<Rightarrow> event_id \<Rightarrow> channel_state \<Rightarrow> channel_state" where
  "apply_rename name lam eid st =
     (if cs_dissolved st then st
      else if (lam, eid) > cs_name_version st then st\<lparr>cs_name := name, cs_name_version := (lam, eid)\<rparr>
      else st)"

section \<open>Members, invitations and ownership\<close>

definition is_member :: "channel_env \<Rightarrow> channel_state \<Rightarrow> string \<Rightarrow> bool" where
  "is_member env st u \<longleftrightarrow> (\<exists>p\<in>set (cs_members st). uid env p = u)"

definition is_accepted_member :: "channel_env \<Rightarrow> channel_state \<Rightarrow> string \<Rightarrow> bool" where
  "is_accepted_member env st u \<longleftrightarrow> is_member env st u \<and> u \<in> cs_accepted_members st"

definition member_account_id :: "channel_state \<Rightarrow> string \<Rightarrow> string option" where
  "member_account_id st u = cs_account_members st u"

definition can_admin :: "channel_env \<Rightarrow> channel_state \<Rightarrow> string \<Rightarrow> bool" where
  "can_admin env st u =
     (if cs_dissolved st then False
      else case cs_account_owner st of
        Some owner \<Rightarrow> is_accepted_member env st u \<and> cs_account_members st u = Some owner
      | None \<Rightarrow> cs_owner st = u)"

text \<open>What the three projections do last: a node that knows who it is recomputes whether its own
  invitation is open.\<close>

definition refresh_pending :: "channel_env \<Rightarrow> channel_state \<Rightarrow> channel_state" where
  "refresh_pending env st =
     (case cs_my_user_id st of
        Some me \<Rightarrow> st\<lparr>cs_pending_invite := is_member env st me \<and> \<not> is_accepted_member env st me\<rparr>
      | None \<Rightarrow> st)"

text \<open>\<open>sort_unstable_by_key\<close> may order identities that share a user id either way; the model
  keeps their order.\<close>

definition install_account_projection ::
  "channel_env \<Rightarrow> string \<Rightarrow> (public_identity \<times> string) list \<Rightarrow> u64 \<Rightarrow> channel_state \<Rightarrow> channel_state" where
  "install_account_projection env owner participants ep st =
     (let accounts = map_of (rev (map (\<lambda>(p, account). (uid env p, account)) participants))
      in refresh_pending env
        (st\<lparr>cs_account_owner := Some owner, cs_account_members := accounts,
            cs_accepted_members := dom accounts,
            cs_members := remdups_adj (sort_key (uid env) (map fst participants)),
            cs_epoch := ep\<rparr>))"

definition invite_one :: "channel_env \<Rightarrow> public_identity \<times> string \<Rightarrow> channel_state \<Rightarrow> channel_state" where
  "invite_one env pa st =
     (case pa of (p, account) \<Rightarrow>
        let u = uid env p;
            st1 = (if \<not> is_member env st u then st\<lparr>cs_members := cs_members st @ [p]\<rparr> else st)
        in (case cs_account_members st1 u of
              Some a \<Rightarrow> st1
            | None \<Rightarrow> st1\<lparr>cs_account_members := (cs_account_members st1)(u \<mapsto> account)\<rparr>))"

definition install_account_invites ::
  "channel_env \<Rightarrow> (public_identity \<times> string) list \<Rightarrow> channel_state \<Rightarrow> channel_state" where
  "install_account_invites env participants st =
     (let st1 = fold (invite_one env) participants st
      in refresh_pending env (st1\<lparr>cs_members := sort_key (uid env) (cs_members st1)\<rparr>))"

definition install_membership_projection ::
  "channel_env \<Rightarrow> channel_state \<Rightarrow> channel_state \<Rightarrow> channel_state" where
  "install_membership_projection env projected st =
     refresh_pending env
       (st\<lparr>cs_name := cs_name projected, cs_name_version := cs_name_version projected,
           cs_members := cs_members projected, cs_epoch := cs_epoch projected,
           cs_owner := cs_owner projected, cs_account_owner := cs_account_owner projected,
           cs_account_members := cs_account_members projected, cs_dissolved := cs_dissolved projected,
           cs_accepted_members := cs_accepted_members projected\<rparr>)"

definition install_indexed_membership_projection ::
  "channel_env \<Rightarrow> channel_state \<Rightarrow> channel_state \<Rightarrow> channel_state" where
  "install_indexed_membership_projection env projected st =
     install_membership_projection env projected
       (st\<lparr>cs_accepted_event_id := cs_accepted_event_id projected\<rparr>)"

definition dissolve :: "channel_state \<Rightarrow> channel_state" where
  "dissolve st = st\<lparr>cs_dissolved := True\<rparr>"

definition set_genesis_owner :: "string \<Rightarrow> channel_state \<Rightarrow> channel_state" where
  "set_genesis_owner owner st = st\<lparr>cs_genesis_owner := owner\<rparr>"

definition mark_invited :: "string \<Rightarrow> channel_state \<Rightarrow> channel_state" where
  "mark_invited u st =
     (let st1 = st\<lparr>cs_accepted_members := cs_accepted_members st - {u}\<rparr>
      in if cs_my_user_id st1 = Some u
         then st1\<lparr>cs_pending_invite := True, cs_accepted_event_id := None\<rparr>
         else st1)"

definition accept_invite :: "channel_env \<Rightarrow> string \<Rightarrow> event_id \<Rightarrow> channel_state \<Rightarrow> channel_state" where
  "accept_invite env u eid st =
     (if \<not> is_member env st u then st
      else let st1 = st\<lparr>cs_accepted_members := insert u (cs_accepted_members st)\<rparr>
        in if cs_my_user_id st1 = Some u \<and> cs_pending_invite st1
           then st1\<lparr>cs_pending_invite := False, cs_accepted_event_id := Some eid\<rparr>
           else st1)"

definition auto_accept_legacy_member :: "channel_env \<Rightarrow> string \<Rightarrow> channel_state \<Rightarrow> channel_state" where
  "auto_accept_legacy_member env u st =
     (if \<not> is_member env st u then st
      else let st1 = st\<lparr>cs_accepted_members := insert u (cs_accepted_members st)\<rparr>
        in if cs_my_user_id st1 = Some u
           then st1\<lparr>cs_pending_invite := False, cs_accepted_event_id := None\<rparr>
           else st1)"

definition transfer_owner :: "channel_env \<Rightarrow> string \<Rightarrow> channel_state \<Rightarrow> bool \<times> channel_state" where
  "transfer_owner env next_owner st =
     (if \<not> is_member env st next_owner \<or> next_owner \<notin> cs_accepted_members st then (False, st)
      else (True, st\<lparr>cs_owner := next_owner\<rparr>))"

definition leave_member :: "channel_env \<Rightarrow> string \<Rightarrow> channel_state \<Rightarrow> bool \<times> channel_state" where
  "leave_member env u st =
     (if u = cs_owner st \<or> \<not> is_member env st u then (False, st)
      else (True, st\<lparr>cs_members := filter (\<lambda>p. uid env p \<noteq> u) (cs_members st),
                     cs_accepted_members := cs_accepted_members st - {u},
                     cs_epoch := saturating_add (cs_epoch st) 1\<rparr>))"

definition recipient_members :: "channel_env \<Rightarrow> channel_state \<Rightarrow> public_identity list" where
  "recipient_members env st =
     filter (\<lambda>p. cs_account_owner st = None \<or> is_accepted_member env st (uid env p)) (cs_members st)"

definition set_identity :: "channel_env \<Rightarrow> string \<Rightarrow> channel_state \<Rightarrow> channel_state" where
  "set_identity env me st =
     st\<lparr>cs_pending_invite := is_member env st me \<and> \<not> is_accepted_member env st me,
        cs_my_user_id := Some me\<rparr>"

section \<open>History disclosed to a new member\<close>

text \<open>\<^verbatim>\<open>channel/history.rs\<close>: how much of the text before an invitation a new member is given.\<close>

datatype history_policy = HistoryOff | LastTen | LastThreeDays | LastTenWithinThreeDays

fun history_count :: "history_policy \<Rightarrow> nat" where
  "history_count HistoryOff = 0"
| "history_count LastTen = 10"
| "history_count LastTenWithinThreeDays = 10"
| "history_count LastThreeDays = 100"

definition permits_time :: "history_policy \<Rightarrow> u64 \<Rightarrow> u64 \<Rightarrow> bool" where
  "permits_time policy authored invitation \<longleftrightarrow>
     authored \<le> invitation
     \<and> (\<not> (policy = LastThreeDays \<or> policy = LastTenWithinThreeDays)
        \<or> authored \<ge> saturating_sub invitation (3 * 24 * 60 * 60 * 1000))"

section \<open>Messages\<close>

text \<open>The sending key of the current epoch, drawn when there is none yet.\<close>

definition current_sender :: "array32 \<Rightarrow> channel_state \<Rightarrow> sender_key" where
  "current_sender fresh st =
     (case cs_my_sender st (cs_epoch st) of Some sk \<Rightarrow> sk | None \<Rightarrow> sender_key_generate fresh)"

definition my_sender_distribution :: "array32 \<Rightarrow> channel_state \<Rightarrow> sender_key_distribution \<times> channel_state" where
  "my_sender_distribution fresh st =
     (let sk = current_sender fresh st
      in (distribution sk, st\<lparr>cs_my_sender := (cs_my_sender st)(cs_epoch st \<mapsto> sk)\<rparr>))"

definition has_my_sender :: "channel_state \<Rightarrow> u64 \<Rightarrow> bool" where
  "has_my_sender st ep \<longleftrightarrow> cs_my_sender st ep \<noteq> None"

definition export_my_senders :: "channel_env \<Rightarrow> channel_state \<Rightarrow> u64 \<rightharpoonup> bytes" where
  "export_my_senders env st = (\<lambda>ep. map_option (bincode_sender_key env) (cs_my_sender st ep))"

definition import_my_sender :: "u64 \<Rightarrow> sender_key \<Rightarrow> channel_state \<Rightarrow> channel_state" where
  "import_my_sender ep sk st = st\<lparr>cs_my_sender := (cs_my_sender st)(ep \<mapsto> sk)\<rparr>"

definition record_sender_chain ::
  "string \<Rightarrow> u64 \<Rightarrow> sender_key_distribution \<Rightarrow> channel_state \<Rightarrow> channel_state" where
  "record_sender_chain who ep skd st =
     (case cs_sender_chains st (who, ep) of
        Some chain \<Rightarrow> st
      | None \<Rightarrow> st\<lparr>cs_sender_chains := (cs_sender_chains st)((who, ep) \<mapsto> from_distribution skd)\<rparr>)"

definition message_wire :: "bytes \<Rightarrow> bytes \<Rightarrow> bytes" where
  "message_wire hdr ct = u16_to_be_bytes (of_nat (length hdr)) @ hdr @ ct"

definition seal_sender_message ::
  "channel_env \<Rightarrow> array32 \<Rightarrow> channel_state \<Rightarrow> bytes \<Rightarrow> (channel_error + bytes) \<times> channel_state" where
  "seal_sender_message env fresh st plaintext =
     (case cs_my_user_id st of
        None \<Rightarrow> (Inl (ChMalformed ''no identity''), st)
      | Some me \<Rightarrow>
          if \<not> is_member env st me \<or> cs_pending_invite st then (Inl (ChMalformed ''not a channel member''), st)
          else
            (case try_ratchet (ch_ratchet env) (current_sender fresh st) of (r, sk) \<Rightarrow>
              let st1 = st\<lparr>cs_my_sender := (cs_my_sender st)(cs_epoch st \<mapsto> sk)\<rparr>
              in (case r of
                    Inl e \<Rightarrow> (Inl (ChMalformed ''sender chain exhausted''), st1)
                  | Inr (n, mk) \<Rightarrow>
                      let hdr = bincode_msg_header env \<lparr>mh_epoch = cs_epoch st, mh_sender = me, mh_n = n\<rparr>
                      in (case seal_message (ch_ratchet env) mk plaintext hdr of
                            Inl e \<Rightarrow> (Inl ChEncrypt, st1)
                          | Inr ct \<Rightarrow> (Inr (message_wire hdr ct), st1)))))"

text \<open>A send prepared on a copy: the wire, the distribution if the key is new, and the sending keys
  to store. The copy of an existing key goes through its stored form.\<close>

definition prepare_sender_message ::
  "channel_env \<Rightarrow> array32 \<Rightarrow> channel_state \<Rightarrow> bytes
   \<Rightarrow> channel_error + (bytes \<times> sender_key_distribution option \<times> (u64 \<rightharpoonup> bytes))" where
  "prepare_sender_message env fresh st plaintext =
     (case cs_my_user_id st of
        None \<Rightarrow> Inl (ChMalformed ''no identity'')
      | Some me \<Rightarrow>
          bind_result
            (case cs_my_sender st (cs_epoch st) of
               Some key \<Rightarrow>
                 (case parse_sender_key env (bincode_sender_key env key) of
                    None \<Rightarrow> Inl (ChMalformed ''invalid sender snapshot'')
                  | Some copy \<Rightarrow> Inr copy)
             | None \<Rightarrow> Inr (sender_key_generate fresh))
            (\<lambda>key.
              let dist = (if has_my_sender st (cs_epoch st) then None else Some (distribution key))
              in (case try_ratchet (ch_ratchet env) key of (r, next_key) \<Rightarrow>
                    (case r of
                       Inl e \<Rightarrow> Inl (ChMalformed ''sender chain exhausted'')
                     | Inr (n, mk) \<Rightarrow>
                         let hdr = bincode_msg_header env \<lparr>mh_epoch = cs_epoch st, mh_sender = me, mh_n = n\<rparr>
                         in (case seal_message (ch_ratchet env) mk plaintext hdr of
                               Inl e \<Rightarrow> Inl ChEncrypt
                             | Inr ct \<Rightarrow>
                                 Inr (message_wire hdr ct, dist,
                                   (export_my_senders env st)(cs_epoch st \<mapsto> bincode_sender_key env next_key)))))))"

text \<open>
  The host's side of a send, from \<^verbatim>\<open>node/channels.rs\<close> and \<^verbatim>\<open>node/outgoing_message.rs\<close>: preparing does
  not look at membership, the host does first, against the membership it projects from the log. Of
  the account authority in that projection the code asks three things: its current event, its key
  epoch, and whether it admits this device. The journal entry around the prepared message, and an
  earlier refusal of accounts that left the group, are left out.
\<close>

record membership_projection =
  mp_state :: "channel_state option"
  mp_current_event :: "event_id option"
  mp_key_epoch :: "u64 option"
  mp_admits_device :: bool

definition channel_identity_is_current_in ::
  "channel_env \<Rightarrow> public_identity \<Rightarrow> channel_state \<Rightarrow> membership_projection \<Rightarrow> bool" where
  "channel_identity_is_current_in env public st current =
     (if \<not> is_accepted_member env st (uid env public) \<or> public \<notin> set (cs_members st) then False
      else if mp_current_event current \<noteq> None
        then mp_key_epoch current = Some (cs_epoch st) \<and> mp_admits_device current
      else cs_account_owner st = None
        \<and> (case mp_state current of
              None \<Rightarrow> False
            | Some fresh_st \<Rightarrow>
                cs_epoch fresh_st = cs_epoch st \<and> cs_members fresh_st = cs_members st
                \<and> cs_owner fresh_st = cs_owner st \<and> is_accepted_member env fresh_st (uid env public)
                \<and> \<not> cs_dissolved fresh_st))"

datatype outgoing_error = NotActiveMember | PrepareFailed channel_error

definition outgoing_payload ::
  "channel_env \<Rightarrow> public_identity \<Rightarrow> membership_projection \<Rightarrow> array32 \<Rightarrow> channel_state \<Rightarrow> bytes
   \<Rightarrow> outgoing_error + (bytes \<times> sender_key_distribution option \<times> (u64 \<rightharpoonup> bytes))" where
  "outgoing_payload env public current fresh st wrapped =
     (if \<not> channel_identity_is_current_in env public st current \<or> cs_pending_invite st \<or> cs_dissolved st
      then Inl NotActiveMember
      else (case prepare_sender_message env fresh st wrapped of
              Inl e \<Rightarrow> Inl (PrepareFailed e)
            | Inr prepared \<Rightarrow> Inr prepared))"

definition open_sender_message ::
  "channel_env \<Rightarrow> channel_state \<Rightarrow> string \<Rightarrow> bytes \<Rightarrow> bytes option \<times> channel_state" where
  "open_sender_message env st expected_sender wire =
     (if length wire < 2 then (None, st)
      else
        let hlen = unat (u16_from_be_bytes (take 2 wire))
        in if length wire < 2 + hlen then (None, st)
           else
             let hdr_bytes = take hlen (drop 2 wire); ct = drop (2 + hlen) wire
             in (case parse_msg_header env hdr_bytes of
                   None \<Rightarrow> (None, st)
                 | Some hdr \<Rightarrow>
                     if mh_sender hdr \<noteq> expected_sender then (None, st)
                     else
                       (case cs_sender_chains st (mh_sender hdr, mh_epoch hdr) of
                          None \<Rightarrow> (None, st)
                        | Some chain \<Rightarrow>
                            (case prepare_open (ch_ratchet env) chain (mh_n hdr) ct hdr_bytes of
                               Inl e \<Rightarrow> (None, st)
                             | Inr prepared \<Rightarrow>
                                 (case open_install prepared chain of (plaintext, chain') \<Rightarrow>
                                   (Some plaintext,
                                    st\<lparr>cs_sender_chains :=
                                         (cs_sender_chains st)((mh_sender hdr, mh_epoch hdr) \<mapsto> chain')\<rparr>))))))"

section \<open>The device-local forms\<close>

definition current_of :: "channel_state \<Rightarrow> current_state" where
  "current_of st =
     \<lparr>cu_version = 1, cu_id = cs_id st, cu_name = cs_name st, cu_name_version = cs_name_version st,
      cu_members = cs_members st, cu_epoch = cs_epoch st, cu_owner = cs_owner st,
      cu_account_owner = cs_account_owner st, cu_account_members = cs_account_members st,
      cu_dissolved = cs_dissolved st, cu_genesis_owner = cs_genesis_owner st,
      cu_pending_invite = cs_pending_invite st, cu_accepted_event_id = cs_accepted_event_id st,
      cu_accepted_members = cs_accepted_members st, cu_my_user_id = cs_my_user_id st\<rparr>"

definition encode_current :: "channel_env \<Rightarrow> channel_state \<Rightarrow> channel_error + bytes" where
  "encode_current env st =
     (case bincode_current env (current_of st) of Inl e \<Rightarrow> Inl (ChMalformed e) | Inr bs \<Rightarrow> Inr bs)"

definition decode_current :: "channel_env \<Rightarrow> bytes \<Rightarrow> channel_error + channel_state" where
  "decode_current env bs =
     (case parse_current env bs of
        Inl e \<Rightarrow> Inl (ChMalformed e)
      | Inr cu \<Rightarrow>
          if cu_version cu \<noteq> 1 \<or> \<not> distinct (map (uid env) (cu_members cu))
          then Inl (ChMalformed ''invalid current channel checkpoint'')
          else Inr \<lparr>cs_id = cu_id cu, cs_name = cu_name cu, cs_name_version = cu_name_version cu,
                    cs_members = cu_members cu, cs_epoch = cu_epoch cu, cs_owner = cu_owner cu,
                    cs_account_owner = cu_account_owner cu, cs_account_members = cu_account_members cu,
                    cs_dissolved = cu_dissolved cu, cs_genesis_owner = cu_genesis_owner cu,
                    cs_pending_invite = cu_pending_invite cu,
                    cs_accepted_event_id = cu_accepted_event_id cu,
                    cs_accepted_members = cu_accepted_members cu, cs_my_user_id = cu_my_user_id cu,
                    cs_my_sender = Map.empty, cs_sender_chains = Map.empty\<rparr>)"

definition message_parts :: "channel_env \<Rightarrow> bytes \<Rightarrow> (msg_header \<times> nat) option" where
  "message_parts env wire =
     (if length wire < 2 then None
      else
        let len = unat (u16_from_be_bytes (take 2 wire))
        in if length wire < 2 + len then None
           else map_option (\<lambda>hdr. (hdr, len)) (parse_msg_header env (take len (drop 2 wire))))"

definition receiver_malformed :: string where
  "receiver_malformed = ''invalid local receiver checkpoint''"

definition checkpoint_distribution :: "bytes \<Rightarrow> channel_error + sender_key_distribution" where
  "checkpoint_distribution bs =
     (case decode_checkpoint bs of
        Inl e \<Rightarrow> Inl (ChMalformed receiver_malformed)
      | Inr chain \<Rightarrow> Inr (current_distribution chain))"

definition sender_message_epoch :: "channel_env \<Rightarrow> string \<Rightarrow> bytes \<Rightarrow> u64 option" where
  "sender_message_epoch env expected_sender wire =
     (case message_parts env wire of
        None \<Rightarrow> None
      | Some (hdr, len) \<Rightarrow> if mh_sender hdr = expected_sender then Some (mh_epoch hdr) else None)"

definition open_failure :: "u32 \<Rightarrow> sender_key_error \<Rightarrow> checkpoint_message_error" where
  "open_failure n e =
     (case e of SkTooManySkipped \<Rightarrow> MessageGap (saturating_sub n MAX_SKIP) | _ \<Rightarrow> MessageRejected)"

definition prepare_checkpoint_message ::
  "channel_env \<Rightarrow> string \<Rightarrow> bytes \<Rightarrow> bytes \<Rightarrow> checkpoint_message_error + prepared_channel_message" where
  "prepare_checkpoint_message env expected_sender checkpoint wire =
     (case message_parts env wire of
        None \<Rightarrow> Inl MessageRejected
      | Some (hdr, len) \<Rightarrow>
          if mh_sender hdr \<noteq> expected_sender then Inl MessageRejected
          else
            (case decode_checkpoint checkpoint of
               Inl e \<Rightarrow> Inl (MessageMalformed receiver_malformed)
             | Inr chain \<Rightarrow>
                 (case prepare_open (ch_ratchet env) chain (mh_n hdr) (drop (2 + len) wire) (take len (drop 2 wire)) of
                    Inl e \<Rightarrow> Inl (open_failure (mh_n hdr) e)
                  | Inr prepared \<Rightarrow>
                      (case open_into_checkpoint prepared of
                         Inl e \<Rightarrow> Inl (MessageMalformed receiver_malformed)
                       | Inr (next_checkpoint, plaintext, next_position) \<Rightarrow>
                           Inr \<lparr>pm_next_position = next_position, pm_epoch = mh_epoch hdr,
                                pm_author = mh_sender hdr, pm_checkpoint = next_checkpoint,
                                pm_plaintext = plaintext\<rparr>))))"

definition refreshed_receiver_checkpoint ::
  "bytes \<Rightarrow> sender_key_distribution \<Rightarrow> channel_error + bytes" where
  "refreshed_receiver_checkpoint checkpoint skd =
     (case decode_checkpoint checkpoint of
        Inl e \<Rightarrow> Inl (ChMalformed receiver_malformed)
      | Inr chain \<Rightarrow>
          (case encode_checkpoint (refresh_distribution chain skd) of
             Inl e \<Rightarrow> Inl (ChMalformed receiver_malformed)
           | Inr bs \<Rightarrow> Inr bs))"

definition use_indexed_receivers :: "channel_state \<Rightarrow> channel_state" where
  "use_indexed_receivers st =
     st\<lparr>cs_sender_chains := Map.empty, cs_my_sender := cs_my_sender st |` {cs_epoch st}\<rparr>"

definition initial_receiver_checkpoint :: "sender_key_distribution \<Rightarrow> channel_error + bytes" where
  "initial_receiver_checkpoint skd =
     (case encode_checkpoint (from_distribution skd) of
        Inl e \<Rightarrow> Inl (ChMalformed receiver_malformed)
      | Inr bs \<Rightarrow> Inr bs)"

section \<open>Last writer wins\<close>

text \<open>
  A register in a larger state: an operation is written when it is authorised and its version
  beats the one held. Whatever order the operations come in, and however often each comes, the
  state ends the same, provided operations of equal version write the same.
\<close>

locale lww_register =
  fixes authorised :: "'op \<Rightarrow> 's \<Rightarrow> bool"
    and version :: "'s \<Rightarrow> 'v::linorder"
    and op_version :: "'op \<Rightarrow> 'v"
    and put :: "'op \<Rightarrow> 's \<Rightarrow> 's"
    and store :: "'op \<Rightarrow> 's \<Rightarrow> 's"
  assumes store_eq: "store x s = (if authorised x s \<and> version s < op_version x then put x s else s)"
    and version_put: "version (put x s) = op_version x"
    and put_put: "put x (put y s) = put x s"
    and authorised_put: "authorised x (put y s) = authorised x s"
begin

lemma fold_store_cases:
  "fold store xs s = s \<and> (\<forall>x\<in>set xs. authorised x s \<longrightarrow> op_version x \<le> version s)
   \<or> (\<exists>x\<in>set xs. authorised x s \<and> version s < op_version x \<and> fold store xs s = put x s
        \<and> (\<forall>y\<in>set xs. authorised y s \<longrightarrow> op_version y \<le> op_version x))"
proof (induction xs rule: rev_induct)
  case Nil
  then show ?case by simp
next
  case (snoc z xs)
  from snoc.IH consider
      (same) "fold store xs s = s" "\<forall>x\<in>set xs. authorised x s \<longrightarrow> op_version x \<le> version s"
    | (put) x where "x \<in> set xs" "authorised x s" "version s < op_version x" "fold store xs s = put x s"
        "\<forall>y\<in>set xs. authorised y s \<longrightarrow> op_version y \<le> op_version x"
    by blast
  then show ?case
  proof cases
    case same
    then have *: "fold store (xs @ [z]) s = (if authorised z s \<and> version s < op_version z then put z s else s)"
      by (simp add: store_eq [of z s])
    show ?thesis
    proof (cases "authorised z s \<and> version s < op_version z")
      case True
      with * same(2) show ?thesis by (intro disjI2 bexI [of _ z]) auto
    next
      case False
      with * same(2) show ?thesis by (intro disjI1) auto
    qed
  next
    case put
    show ?thesis
    proof (cases "authorised z s \<and> op_version x < op_version z")
      case True
      then have "fold store (xs @ [z]) s = put z s"
        using put by (simp add: store_eq [of z "put x s"] version_put put_put authorised_put)
      with True put show ?thesis by (intro disjI2 bexI [of _ z]) auto
    next
      case False
      then have "fold store (xs @ [z]) s = put x s"
        using put by (auto simp: store_eq [of z "put x s"] version_put authorised_put)
      with False put show ?thesis by (intro disjI2 bexI [of _ x]) auto
    qed
  qed
qed

lemma converges:
  assumes "set xs = set ys"
    and "\<And>x y. x \<in> set xs \<Longrightarrow> y \<in> set xs \<Longrightarrow> authorised x s \<Longrightarrow> authorised y s
      \<Longrightarrow> op_version x = op_version y \<Longrightarrow> put x s = put y s"
  shows "fold store xs s = fold store ys s"
proof -
  consider
      (same) "fold store xs s = s" "\<forall>x\<in>set xs. authorised x s \<longrightarrow> op_version x \<le> version s"
    | (put) x where "x \<in> set xs" "authorised x s" "version s < op_version x" "fold store xs s = put x s"
        "\<forall>y\<in>set xs. authorised y s \<longrightarrow> op_version y \<le> op_version x"
    using fold_store_cases [of xs s] by blast
  then show ?thesis
  proof cases
    case same
    then have "\<not> (\<exists>x\<in>set ys. authorised x s \<and> version s < op_version x)"
      using assms(1) by (auto simp: not_less)
    with same(1) show ?thesis using fold_store_cases [of ys s] by auto
  next
    case put
    then have "\<not> (\<forall>y\<in>set ys. authorised y s \<longrightarrow> op_version y \<le> version s)"
      using assms(1) by (auto simp: not_le)
    then obtain y where y: "y \<in> set ys" "authorised y s" "fold store ys s = put y s"
      "\<forall>z\<in>set ys. authorised z s \<longrightarrow> op_version z \<le> op_version y"
      using fold_store_cases [of ys s] by blast
    have "y \<in> set xs" using y(1) assms(1) by simp
    moreover have "op_version x = op_version y"
      using put(1,2,5) y(1,2,4) assms(1) by (intro order_antisym) simp_all
    ultimately have "put x s = put y s" using put(1,2) y(2) assms(2) by blast
    with put(4) y(3) show ?thesis by simp
  qed
qed

end

text \<open>The name is such a register, under the version of the rename event; so is the membership,
  under its epoch and the encoding of its members.\<close>

definition put_name :: "string \<times> u64 \<times> event_id \<Rightarrow> channel_state \<Rightarrow> channel_state" where
  "put_name x st = (case x of (name, lam, eid) \<Rightarrow> st\<lparr>cs_name := name, cs_name_version := (lam, eid)\<rparr>)"

definition put_members :: "channel_meta \<Rightarrow> channel_state \<Rightarrow> channel_state" where
  "put_members m st = st\<lparr>cs_members := cm_members m, cs_epoch := cm_epoch m\<rparr>"

interpretation nm: lww_register
  "\<lambda>x st. \<not> cs_dissolved st" cs_name_version snd put_name "\<lambda>(name, lam, eid). apply_rename name lam eid"
  by unfold_locales (auto simp: apply_rename_def put_name_def split: prod.splits)

interpretation mb: lww_register
  "\<lambda>m st. \<not> cs_dissolved st \<and> cm_owner m = cs_owner st"
  "\<lambda>st. (cs_epoch st, encode_members env (cs_members st))"
  "\<lambda>m. (cm_epoch m, encode_members env (cm_members m))"
  put_members "apply_meta env" for env
  by unfold_locales
    (simp_all add: apply_meta_def apply_meta_with_departure_def put_members_def Let_def)

section \<open>Convergence\<close>

datatype channel_op = Rename string u64 event_id | Snapshot channel_meta

fun apply_op :: "channel_env \<Rightarrow> channel_op \<Rightarrow> channel_state \<Rightarrow> channel_state" where
  "apply_op env (Rename name lam eid) st = apply_rename name lam eid st"
| "apply_op env (Snapshot m) st = apply_meta env m st"

fun renames :: "channel_op list \<Rightarrow> (string \<times> u64 \<times> event_id) list" where
  "renames [] = []"
| "renames (Rename name lam eid # xs) = (name, lam, eid) # renames xs"
| "renames (Snapshot m # xs) = renames xs"

fun snapshots :: "channel_op list \<Rightarrow> channel_meta list" where
  "snapshots [] = []"
| "snapshots (Rename name lam eid # xs) = snapshots xs"
| "snapshots (Snapshot m # xs) = m # snapshots xs"

lemma rename_meta_commute:
  "apply_rename name lam eid (apply_meta env m st) = apply_meta env m (apply_rename name lam eid st)"
  by (simp add: apply_rename_def apply_meta_def apply_meta_with_departure_def Let_def)

lemma renames_after_meta:
  "fold (\<lambda>(name, lam, eid). apply_rename name lam eid) rs (apply_meta env m st)
   = apply_meta env m (fold (\<lambda>(name, lam, eid). apply_rename name lam eid) rs st)"
  by (induction rs arbitrary: st) (auto simp: rename_meta_commute)

lemma fold_apply_op:
  "fold (apply_op env) xs st
   = fold (apply_meta env) (snapshots xs) (fold (\<lambda>(name, lam, eid). apply_rename name lam eid) (renames xs) st)"
  by (induction xs arbitrary: st rule: renames.induct) (auto simp: renames_after_meta)

lemma set_renames: "set (renames xs) = {(name, lam, eid). Rename name lam eid \<in> set xs}"
  by (induction xs rule: renames.induct) auto

lemma set_snapshots: "set (snapshots xs) = {m. Snapshot m \<in> set xs}"
  by (induction xs rule: snapshots.induct) auto

lemma rename_keeps [simp]:
  "cs_members (fold (\<lambda>(name, lam, eid). apply_rename name lam eid) rs st) = cs_members st"
  by (induction rs arbitrary: st) (auto simp: apply_rename_def)

lemma renames_converge:
  assumes "set rs = set rs'"
    and "\<And>a b v. (a, v) \<in> set rs \<Longrightarrow> (b, v) \<in> set rs \<Longrightarrow> a = b"
  shows "fold (\<lambda>(name, lam, eid). apply_rename name lam eid) rs st
       = fold (\<lambda>(name, lam, eid). apply_rename name lam eid) rs' st"
  using assms(1)
proof (rule nm.converges)
  fix x y assume "x \<in> set rs" "y \<in> set rs" "snd x = snd y"
  then have "x = y" using assms(2) by (metis prod.collapse)
  then show "put_name x st = put_name y st" by simp
qed

lemma snapshots_converge:
  assumes "set ms = set ms'" and "inj_on (encode_members env) (cm_members ` set ms)"
  shows "fold (apply_meta env) ms st = fold (apply_meta env) ms' st"
  using assms(1)
proof (rule mb.converges)
  fix x y assume "x \<in> set ms" "y \<in> set ms"
    "(cm_epoch x, encode_members env (cm_members x)) = (cm_epoch y, encode_members env (cm_members y))"
  then have "cm_epoch x = cm_epoch y" "cm_members x = cm_members y"
    using assms(2) by (auto dest: inj_onD)
  then show "put_members x st = put_members y st" by (simp add: put_members_def)
qed

lemma ops_converge:
  assumes "set xs = set ys"
    and "\<And>a b lam eid. Rename a lam eid \<in> set xs \<Longrightarrow> Rename b lam eid \<in> set xs \<Longrightarrow> a = b"
    and "inj_on (encode_members env) {cm_members m |m. Snapshot m \<in> set xs}"
  shows "fold (apply_op env) xs st = fold (apply_op env) ys st"
proof -
  have "fold (\<lambda>(name, lam, eid). apply_rename name lam eid) (renames xs) st
      = fold (\<lambda>(name, lam, eid). apply_rename name lam eid) (renames ys) st"
    by (rule renames_converge) (use assms(1,2) in \<open>auto simp: set_renames\<close>)
  moreover have "cm_members ` set (snapshots xs) = {cm_members m |m. Snapshot m \<in> set xs}"
    by (auto simp: set_snapshots)
  then have "fold (apply_meta env) (snapshots xs) st' = fold (apply_meta env) (snapshots ys) st'" for st'
    using assms(1,3) by (intro snapshots_converge) (simp_all add: set_snapshots)
  ultimately show ?thesis by (simp add: fold_apply_op)
qed

section \<open>Invitations\<close>

text \<open>The states a channel goes through: any operation, in any order, with any arguments.\<close>

inductive channel_reachable :: "channel_env \<Rightarrow> channel_state \<Rightarrow> bool" for env where
  start: "channel_reachable env (from_meta env cid m)"
| snapshot: "channel_reachable env st \<Longrightarrow> channel_reachable env (apply_meta_with_departure env m b st)"
| rename: "channel_reachable env st \<Longrightarrow> channel_reachable env (apply_rename name lam eid st)"
| accounts: "channel_reachable env st \<Longrightarrow> channel_reachable env (install_account_projection env owner ps ep st)"
| invites: "channel_reachable env st \<Longrightarrow> channel_reachable env (install_account_invites env ps st)"
| project: "channel_reachable env st \<Longrightarrow> channel_reachable env (install_membership_projection env pr st)"
| project_indexed: "channel_reachable env st \<Longrightarrow> channel_reachable env (install_indexed_membership_projection env pr st)"
| dissolve: "channel_reachable env st \<Longrightarrow> channel_reachable env (dissolve st)"
| genesis: "channel_reachable env st \<Longrightarrow> channel_reachable env (set_genesis_owner owner st)"
| invited: "channel_reachable env st \<Longrightarrow> channel_reachable env (mark_invited u st)"
| accept: "channel_reachable env st \<Longrightarrow> channel_reachable env (accept_invite env u eid st)"
| auto_accept: "channel_reachable env st \<Longrightarrow> channel_reachable env (auto_accept_legacy_member env u st)"
| transfer: "channel_reachable env st \<Longrightarrow> channel_reachable env (snd (transfer_owner env u st))"
| leave: "channel_reachable env st \<Longrightarrow> channel_reachable env (snd (leave_member env u st))"
| identity: "channel_reachable env st \<Longrightarrow> channel_reachable env (set_identity env u st)"
| distribute: "channel_reachable env st \<Longrightarrow> channel_reachable env (snd (my_sender_distribution fresh st))"
| import_key: "channel_reachable env st \<Longrightarrow> channel_reachable env (import_my_sender ep sk st)"
| record_chain: "channel_reachable env st \<Longrightarrow> channel_reachable env (record_sender_chain u ep skd st)"
| seal: "channel_reachable env st \<Longrightarrow> channel_reachable env (snd (seal_sender_message env fresh st pt))"
| open_message: "channel_reachable env st \<Longrightarrow> channel_reachable env (snd (open_sender_message env st u wire))"
| indexed: "channel_reachable env st \<Longrightarrow> channel_reachable env (use_indexed_receivers st)"
| reload: "channel_reachable env st \<Longrightarrow> parse_current env bs = Inr (current_of st) \<Longrightarrow>
    decode_current env bs = Inr st' \<Longrightarrow> channel_reachable env st'"

text \<open>What the operations on keys leave alone.\<close>

abbreviation same_members :: "channel_state \<Rightarrow> channel_state \<Rightarrow> bool" where
  "same_members st st' \<equiv>
     st'\<lparr>cs_my_sender := cs_my_sender st, cs_sender_chains := cs_sender_chains st\<rparr> = st"

lemma seal_same_members: "same_members st (snd (seal_sender_message env fresh st pt))"
  by (simp add: seal_sender_message_def Let_def split: option.split sum.split prod.split)

lemma open_same_members: "same_members st (snd (open_sender_message env st u wire))"
  by (simp add: open_sender_message_def Let_def open_install_def split: option.split sum.split)

definition pending_ok :: "channel_state \<Rightarrow> bool" where
  "pending_ok st \<longleftrightarrow>
     (\<forall>me. cs_my_user_id st = Some me \<longrightarrow> cs_pending_invite st \<longrightarrow> me \<notin> cs_accepted_members st)"

lemma pending_ok_refresh: "pending_ok (refresh_pending env st)"
  by (auto simp: refresh_pending_def pending_ok_def is_accepted_member_def split: option.splits)

lemma pending_ok_same_members:
  assumes "pending_ok st" and same: "same_members st st'"
  shows "pending_ok st'"
  using assms(1) arg_cong [OF same, of cs_my_user_id] arg_cong [OF same, of cs_pending_invite]
    arg_cong [OF same, of cs_accepted_members]
  by (simp add: pending_ok_def)

lemma pending_ok_installs:
  "pending_ok (install_account_projection env owner ps ep st)"
  "pending_ok (install_account_invites env ps st)"
  "pending_ok (install_membership_projection env pr st)"
  "pending_ok (install_indexed_membership_projection env pr st)"
  by (simp_all add: install_account_projection_def install_account_invites_def Let_def pending_ok_refresh
      install_membership_projection_def install_indexed_membership_projection_def)

lemma decode_current_fields:
  assumes "parse_current env bs = Inr (current_of st)" and "decode_current env bs = Inr st'"
  shows "st' = st\<lparr>cs_my_sender := Map.empty, cs_sender_chains := Map.empty\<rparr>"
  using assms by (auto simp: decode_current_def current_of_def split: if_splits)

lemmas pending_op_defs = from_meta_def apply_meta_with_departure_def Let_def apply_rename_def dissolve_def
  set_genesis_owner_def mark_invited_def accept_invite_def auto_accept_legacy_member_def
  transfer_owner_def leave_member_def set_identity_def is_accepted_member_def
  my_sender_distribution_def import_my_sender_def record_sender_chain_def use_indexed_receivers_def

lemma channel_reachable_pending_ok: "channel_reachable env st \<Longrightarrow> pending_ok st"
proof (induction rule: channel_reachable.induct)
  case (reload st bs st')
  then show ?case using decode_current_fields [of env bs st st'] by (simp add: pending_ok_def)
next
  case (seal st fresh pt)
  then show ?case using pending_ok_same_members seal_same_members by blast
next
  case (open_message st u wire)
  then show ?case using pending_ok_same_members open_same_members by blast
qed (simp_all add: pending_ok_installs, simp_all add: pending_ok_def pending_op_defs split: option.split, auto)

section \<open>Departures\<close>

lemma stale_meta_ignored:
  "cm_epoch m < cs_epoch st \<Longrightarrow> apply_meta_with_departure env m b st = st"
  by (auto simp: apply_meta_with_departure_def Let_def)

lemma stale_metas_ignored:
  assumes "\<forall>(m, b)\<in>set ms. cm_epoch m < cs_epoch st"
  shows "fold (\<lambda>(m, b). apply_meta_with_departure env m b) ms st = st"
  using assms by (induction ms) (auto simp: stale_meta_ignored)

section \<open>Sealing and opening\<close>

text \<open>What the header encoding is relied on for: a header of this sender decodes to what was
  encoded, and fits the two bytes that carry its length.\<close>

definition header_coded :: "channel_env \<Rightarrow> string \<Rightarrow> bool" where
  "header_coded env me \<longleftrightarrow>
     (\<forall>h. mh_sender h = me \<longrightarrow> parse_msg_header env (bincode_msg_header env h) = Some h
        \<and> length (bincode_msg_header env h) < 2 ^ 16)"

lemma unat_u16_length: "n < 2 ^ 16 \<Longrightarrow> unat (of_nat n :: u16) = n"
  by (simp add: unat_of_nat)

lemma message_wire_parts:
  assumes "length hdr < 2 ^ 16"
  shows "take 2 (message_wire hdr ct) = u16_to_be_bytes (of_nat (length hdr))"
    and "take (length hdr) (drop 2 (message_wire hdr ct)) = hdr"
    and "drop (2 + length hdr) (message_wire hdr ct) = ct"
    and "unat (u16_from_be_bytes (take 2 (message_wire hdr ct))) = length hdr"
    and "length (message_wire hdr ct) = 2 + length hdr + length ct"
  using assms by (simp_all add: message_wire_def unat_u16_length)

lemma open_by_parts:
  "open_sender_message env st who wire =
     (case message_parts env wire of
        None \<Rightarrow> (None, st)
      | Some (hdr, len) \<Rightarrow>
          if mh_sender hdr \<noteq> who then (None, st)
          else (case cs_sender_chains st (who, mh_epoch hdr) of
                  None \<Rightarrow> (None, st)
                | Some chain \<Rightarrow>
                    (case prepare_open (ch_ratchet env) chain (mh_n hdr) (drop (2 + len) wire) (take len (drop 2 wire)) of
                       Inl e \<Rightarrow> (None, st)
                     | Inr p \<Rightarrow> (Some (po_plaintext p),
                         st\<lparr>cs_sender_chains := (cs_sender_chains st)((who, mh_epoch hdr) \<mapsto> po_next p)\<rparr>))))"
  by (auto simp: open_sender_message_def message_parts_def Let_def open_install_def
      split: option.split sum.split)

lemma message_parts_wire:
  assumes "header_coded env (mh_sender h)"
  shows "message_parts env (message_wire (bincode_msg_header env h) ct)
    = Some (h, length (bincode_msg_header env h))"
proof -
  have "length (bincode_msg_header env h) < 2 ^ 16" "parse_msg_header env (bincode_msg_header env h) = Some h"
    using assms by (auto simp: header_coded_def)
  then show ?thesis using message_wire_parts [of "bincode_msg_header env h" ct] by (simp add: message_parts_def)
qed

lemma open_wire:
  assumes "header_coded env who" and "h = bincode_msg_header env \<lparr>mh_epoch = ep, mh_sender = who, mh_n = n\<rparr>"
    and "cs_sender_chains st (who, ep) = Some chain"
    and "prepare_open (ch_ratchet env) chain n ct h = Inr p"
  shows "open_sender_message env st who (message_wire h ct)
    = (Some (po_plaintext p), st\<lparr>cs_sender_chains := (cs_sender_chains st)((who, ep) \<mapsto> po_next p)\<rparr>)"
proof -
  have len: "length h < 2 ^ 16" using assms(1,2) by (auto simp: header_coded_def)
  show ?thesis
    unfolding open_by_parts assms(2)
    using message_parts_wire [of env "\<lparr>mh_epoch = ep, mh_sender = who, mh_n = n\<rparr>" ct] assms(1)
      message_wire_parts(2,3) [OF len, of ct] assms(2-4) by simp
qed

lemma open_other_sender:
  assumes "header_coded env me" and "who \<noteq> me"
  shows "open_sender_message env st who
      (message_wire (bincode_msg_header env \<lparr>mh_epoch = ep, mh_sender = me, mh_n = n\<rparr>) ct) = (None, st)"
  using assms by (simp add: open_by_parts message_parts_wire)

lemma message_key_next:
  assumes "chain_ok sc" and "follows env p0 ck0 sc" and "can_open sc target" and "sc_n sc \<le> target"
  shows "sc_n (snd (message_key env sc target)) = target + 1"
proof -
  have "sc_skipped sc target = None"
    using chain_okD(4) [OF assms(1), of target] assms(4) by (metis leD domI not_None_eq)
  then show ?thesis using message_key_fresh [OF assms(1,2) _ assms(3)] by auto
qed

text \<open>One message from a member to another that follows their chain.\<close>

definition in_touch :: "channel_env \<Rightarrow> string \<Rightarrow> u64 \<Rightarrow> nat \<Rightarrow> sender_key \<Rightarrow> channel_state \<Rightarrow> bool" where
  "in_touch env me ep lag sk b \<longleftrightarrow>
     (\<exists>sc p0 ck0. cs_sender_chains b (me, ep) = Some sc \<and> receiver_reachable (ch_ratchet env) p0 ck0 sc
        \<and> p0 \<le> unat (sk_n sk) \<and> sk_chain_key sk = chain_key (ch_ratchet env) ck0 (unat (sk_n sk) - p0)
        \<and> sc_n sc \<le> sk_n sk \<and> unat (sk_n sk) - unat (sc_n sc) \<le> lag)"

definition may_send :: "channel_env \<Rightarrow> string \<Rightarrow> channel_state \<Rightarrow> bool" where
  "may_send env me a \<longleftrightarrow> cs_my_user_id a = Some me \<and> is_member env a me \<and> \<not> cs_pending_invite a"

lemma seal_step:
  assumes "aead_opens (ch_ratchet env)" and "may_send env me a"
    and "unat (sk_n (current_sender fresh a)) < 2 ^ 32 - 1"
  obtains mk sk ct hdr where
    "try_ratchet (ch_ratchet env) (current_sender fresh a) = (Inr (sk_n (current_sender fresh a), mk), sk)"
    "hdr = bincode_msg_header env \<lparr>mh_epoch = cs_epoch a, mh_sender = me, mh_n = sk_n (current_sender fresh a)\<rparr>"
    "seal_message (ch_ratchet env) mk pt hdr = Inr ct"
    "seal_sender_message env fresh a pt
       = (Inr (message_wire hdr ct), a\<lparr>cs_my_sender := (cs_my_sender a)(cs_epoch a \<mapsto> sk)\<rparr>)"
proof -
  obtain mk sk where r: "try_ratchet (ch_ratchet env) (current_sender fresh a) = (Inr (sk_n (current_sender fresh a), mk), sk)"
    using assms(3) by (auto simp: try_ratchet_def checked_add_1_u32 case_prod_unfold)
  define hdr where "hdr = bincode_msg_header env \<lparr>mh_epoch = cs_epoch a, mh_sender = me, mh_n = sk_n (current_sender fresh a)\<rparr>"
  obtain key nonce where k: "message_keys (ch_ratchet env) mk = (key, nonce)" by fastforce
  obtain ct where "aes_gcm_encrypt (ch_ratchet env) key nonce pt hdr = Some ct"
    using assms(1) unfolding aead_opens_def by blast
  then have "seal_message (ch_ratchet env) mk pt hdr = Inr ct" using k by (simp add: seal_message_def)
  then show ?thesis using that [OF r hdr_def] assms(2) r
    by (simp add: seal_sender_message_def may_send_def hdr_def [symmetric])
qed

lemma next_sender:
  assumes "try_ratchet env sk = (Inr (n, mk), sk')" and "p0 \<le> unat (sk_n sk)"
    and "sk_chain_key sk = chain_key env ck0 (unat (sk_n sk) - p0)"
  shows "unat (sk_n sk') = Suc (unat (sk_n sk)) \<and> sk_chain_key sk' = chain_key env ck0 (unat (sk_n sk') - p0)"
proof -
  have less: "unat (sk_n sk) < 2 ^ 32 - 1"
    and sk': "sk' = \<lparr>sk_chain_key = fst (kdf_ck env (sk_chain_key sk)), sk_n = sk_n sk + 1\<rparr>"
    using assms(1) by (auto simp: try_ratchet_def checked_add_1_u32 case_prod_unfold split: if_splits)
  have "unat (sk_n sk') = Suc (unat (sk_n sk))"
    using less unat_succ_less [of "sk_n sk" "- 1"]
    by (simp add: sk' word_less_nat_alt unsigned_minus_1_eq_mask mask_eq_exp_minus_1)
  moreover from this have "unat (sk_n sk') - p0 = Suc (unat (sk_n sk) - p0)" using assms(2) by simp
  ultimately show ?thesis using assms(3) by (simp add: sk')
qed

lemma message_lost:
  assumes "in_touch env me ep lag sk b" and "try_ratchet (ch_ratchet env) sk = (Inr (n, mk), sk')"
  shows "in_touch env me ep (Suc lag) sk' b"
proof -
  obtain sc p0 ck0 where t: "cs_sender_chains b (me, ep) = Some sc" "receiver_reachable (ch_ratchet env) p0 ck0 sc"
    "p0 \<le> unat (sk_n sk)" "sk_chain_key sk = chain_key (ch_ratchet env) ck0 (unat (sk_n sk) - p0)"
    "sc_n sc \<le> sk_n sk" "unat (sk_n sk) - unat (sc_n sc) \<le> lag"
    using assms(1) by (auto simp: in_touch_def)
  note n = next_sender [OF assms(2) t(3,4)]
  have "p0 \<le> unat (sk_n sk')" "sc_n sc \<le> sk_n sk'" "unat (sk_n sk') - unat (sc_n sc) \<le> Suc lag"
    using n t(3,5,6) by (auto simp: word_le_nat_alt)
  with t(1,2) n show ?thesis unfolding in_touch_def by blast
qed

lemma message_delivered:
  assumes "aead_opens (ch_ratchet env)" and "header_coded env me" and "in_touch env me ep lag sk b" and "lag \<le> 1000"
    and r: "try_ratchet (ch_ratchet env) sk = (Inr (sk_n sk, mk), sk')"
    and hdr: "hdr = bincode_msg_header env \<lparr>mh_epoch = ep, mh_sender = me, mh_n = sk_n sk\<rparr>"
    and ct: "seal_message (ch_ratchet env) mk pt hdr = Inr ct"
  shows "\<exists>b'. open_sender_message env b me (message_wire hdr ct) = (Some pt, b') \<and> in_touch env me ep 0 sk' b'"
proof -
  obtain sc p0 ck0 where t: "cs_sender_chains b (me, ep) = Some sc" "receiver_reachable (ch_ratchet env) p0 ck0 sc"
    "p0 \<le> unat (sk_n sk)" "sk_chain_key sk = chain_key (ch_ratchet env) ck0 (unat (sk_n sk) - p0)"
    "sc_n sc \<le> sk_n sk" "unat (sk_n sk) - unat (sc_n sc) \<le> lag"
    using assms(3) by (auto simp: in_touch_def)
  have less: "unat (sk_n sk) < 2 ^ 32 - 1"
    using r by (auto simp: try_ratchet_def checked_add_1_u32 case_prod_unfold split: if_splits)
  have can: "can_open sc (sk_n sk)"
    using t(5,6) assms(4) less by (simp add: can_open_def word_le_nat_alt)
  define sc' where "sc' = snd (message_key (ch_ratchet env) sc (sk_n sk))"
  have op: "prepare_open (ch_ratchet env) sc (sk_n sk) ct hdr = Inr \<lparr>po_next = sc', po_plaintext = pt\<rparr>"
    and reach: "receiver_reachable (ch_ratchet env) p0 ck0 sc'"
    using sealed_position_opens [OF assms(1) t(2-4) can less, of pt hdr] r ct by (auto simp: sc'_def)
  have ok: "chain_ok sc" "follows (ch_ratchet env) p0 ck0 sc" using receiver_reachable_ok [OF t(2)] by auto
  have "sc_n sc' = sk_n sk + 1" unfolding sc'_def by (rule message_key_next [OF ok can t(5)])
  moreover have "sk_n sk' = sk_n sk + 1"
    using r by (auto simp: try_ratchet_def checked_add_1_u32 case_prod_unfold split: if_splits)
  ultimately have "sc_n sc' = sk_n sk'" by simp
  moreover note next_sender [OF r t(3,4)]
  ultimately show ?thesis
    using open_wire [OF assms(2) hdr t(1) op] reach t(3)
    by (auto simp: in_touch_def intro!: exI [of _ p0] exI [of _ ck0])
qed

text \<open>A member's messages in the order they are sealed, some of them lost on the way.\<close>

fun channel_talk ::
  "channel_env \<Rightarrow> array32 \<Rightarrow> string \<Rightarrow> channel_state \<Rightarrow> channel_state \<Rightarrow> (bool \<times> bytes) list \<Rightarrow> bytes option list" where
  "channel_talk env fresh me a b [] = []"
| "channel_talk env fresh me a b ((arrives, pt) # msgs) =
     (case seal_sender_message env fresh a pt of
        (Inl e, a') \<Rightarrow> None # channel_talk env fresh me a' b msgs
      | (Inr wire, a') \<Rightarrow>
          if arrives
          then (case open_sender_message env b me wire of (r, b') \<Rightarrow> r # channel_talk env fresh me a' b' msgs)
          else channel_talk env fresh me a' b msgs)"

lemma channel_talk_opens:
  assumes "aead_opens (ch_ratchet env)" and "header_coded env me" and "may_send env me a"
    and "in_touch env me (cs_epoch a) lag (current_sender fresh a) b"
    and "lag + length (filter (\<lambda>m. \<not> fst m) msgs) \<le> 1000"
    and "unat (sk_n (current_sender fresh a)) + length msgs < 2 ^ 32"
  shows "channel_talk env fresh me a b msgs = map (\<lambda>m. Some (snd m)) (filter fst msgs)"
  using assms(3-)
proof (induction msgs arbitrary: a b lag)
  case Nil
  then show ?case by simp
next
  case (Cons m msgs)
  obtain arrives pt where m: "m = (arrives, pt)" by fastforce
  have "unat (sk_n (current_sender fresh a)) < 2 ^ 32 - 1" using Cons.prems(4) by simp
  then obtain mk sk ct hdr where s:
    "try_ratchet (ch_ratchet env) (current_sender fresh a) = (Inr (sk_n (current_sender fresh a), mk), sk)"
    "hdr = bincode_msg_header env \<lparr>mh_epoch = cs_epoch a, mh_sender = me, mh_n = sk_n (current_sender fresh a)\<rparr>"
    "seal_message (ch_ratchet env) mk pt hdr = Inr ct"
    "seal_sender_message env fresh a pt
       = (Inr (message_wire hdr ct), a\<lparr>cs_my_sender := (cs_my_sender a)(cs_epoch a \<mapsto> sk)\<rparr>)"
    by (rule seal_step [OF assms(1) Cons.prems(1), of fresh pt])
  let ?a = "a\<lparr>cs_my_sender := (cs_my_sender a)(cs_epoch a \<mapsto> sk)\<rparr>"
  have a': "current_sender fresh ?a = sk" "cs_epoch ?a = cs_epoch a" "may_send env me ?a"
    using Cons.prems(1) by (simp_all add: current_sender_def may_send_def is_member_def)
  have "unat (sk_n sk) = Suc (unat (sk_n (current_sender fresh a)))"
    using s(1) Cons.prems(2) next_sender [OF s(1)] by (auto simp: in_touch_def)
  then have n: "unat (sk_n (current_sender fresh ?a)) + length msgs < 2 ^ 32" using Cons.prems(4) a' by simp
  show ?case
  proof (cases arrives)
    case True
    have "lag \<le> 1000" using Cons.prems(3) by simp
    then obtain b' where b': "open_sender_message env b me (message_wire hdr ct) = (Some pt, b')"
      "in_touch env me (cs_epoch a) 0 sk b'"
      using message_delivered [OF assms(1,2) Cons.prems(2) _ s(1-3)] by blast
    have "channel_talk env fresh me ?a b' msgs = map (\<lambda>m. Some (snd m)) (filter fst msgs)"
      by (rule Cons.IH [OF a'(3), of 0]) (use b'(2) a' n Cons.prems(3) m True in simp_all)
    then show ?thesis using m True s(4) b'(1) by simp
  next
    case False
    have "in_touch env me (cs_epoch ?a) (Suc lag) (current_sender fresh ?a) b"
      using message_lost [OF Cons.prems(2) s(1)] a' by simp
    then have "channel_talk env fresh me ?a b msgs = map (\<lambda>m. Some (snd m)) (filter fst msgs)"
      by (rule Cons.IH [OF a'(3)]) (use n Cons.prems(3) m False in simp_all)
    then show ?thesis using m False s(4) by simp
  qed
qed

lemma introduction_in_touch:
  assumes "cs_sender_chains b (me, cs_epoch a) = None" and "my_sender_distribution fresh a = (skd, a')"
  shows "in_touch env me (cs_epoch a) 0 (current_sender fresh a') (record_sender_chain me (cs_epoch a) skd b)"
proof -
  let ?sk = "current_sender fresh a"
  have skd: "skd = \<lparr>skd_chain_key = sk_chain_key ?sk, skd_n = sk_n ?sk\<rparr>" and a': "current_sender fresh a' = ?sk"
    using assms(2) by (auto simp: my_sender_distribution_def Let_def distribution_def current_sender_def)
  have "receiver_reachable (ch_ratchet env) (unat (sk_n ?sk)) (sk_chain_key ?sk) (from_distribution skd)"
    unfolding skd by (rule receiver_reachable.start) simp
  then show ?thesis
    unfolding in_touch_def using assms(1) a'
    by (intro exI [of _ "from_distribution skd"] exI [of _ "unat (sk_n ?sk)"] exI [of _ "sk_chain_key ?sk"])
      (simp add: record_sender_chain_def, simp add: skd from_distribution_def)
qed

section \<open>Receivers in memory and in a stored row\<close>

definition receivers_ok :: "channel_env \<Rightarrow> channel_state \<Rightarrow> bool" where
  "receivers_ok env st \<longleftrightarrow>
     (\<forall>k sc. cs_sender_chains st k = Some sc \<longrightarrow> (\<exists>p0 ck0. receiver_reachable (ch_ratchet env) p0 ck0 sc))"

lemma prepare_open_result:
  assumes "receiver_reachable env p0 ck0 sc"
  shows "prepare_open env sc n ct aad =
     (case message_key env sc n of (r, sc') \<Rightarrow>
        bind_result r (\<lambda>key. bind_result (open_message env key ct aad)
          (\<lambda>pt. Inr \<lparr>po_next = sc', po_plaintext = pt\<rparr>)))"
  using decode_encode_checkpoint [of sc] receiver_reachable_ok [OF assms] by (auto simp: prepare_open_def)

lemma prepare_open_once:
  assumes "receiver_reachable env p0 ck0 sc" and "prepare_open env sc n ct aad = Inr p"
  shows "receiver_reachable env p0 ck0 (po_next p) \<and> isl (prepare_open env (po_next p) n ct' aad')"
proof -
  obtain r sc' where mk: "message_key env sc n = (r, sc')"
    "can_open sc n \<longrightarrow> \<not> can_open sc' n" "\<not> can_open sc n \<longrightarrow> isl r"
    using message_key_total [of sc env p0 ck0 n] receiver_reachable_ok [OF assms(1)] by blast
  have p: "po_next p = sc'" "\<not> isl r"
    using assms(2) mk(1) prepare_open_result [OF assms(1), of n ct aad]
    by (cases r; cases "open_message env (projr r) ct aad"; auto)+
  have reach: "receiver_reachable env p0 ck0 sc'"
    using receiver_reachable.request [OF assms(1), of n] mk(1) by simp
  obtain r' sc'' where mk': "message_key env sc' n = (r', sc'')" "isl r'"
    using message_key_total [of sc' env p0 ck0 n] receiver_reachable_ok [OF reach] mk(2,3) p(2) by blast
  then have "isl (prepare_open env sc' n ct' aad')"
    using prepare_open_result [OF reach, of n ct' aad'] by (cases r') auto
  with reach p show ?thesis by simp
qed

lemma open_receivers_ok:
  assumes "receivers_ok env st"
  shows "receivers_ok env (snd (open_sender_message env st who wire))"
proof (cases "message_parts env wire")
  case None
  with assms show ?thesis by (simp add: open_by_parts)
next
  case (Some hl)
  then obtain hdr len where h: "message_parts env wire = Some (hdr, len)" by (cases hl) auto
  show ?thesis
  proof (cases "mh_sender hdr = who \<and> cs_sender_chains st (who, mh_epoch hdr) \<noteq> None")
    case True
    then obtain chain where c: "cs_sender_chains st (who, mh_epoch hdr) = Some chain" by auto
    then obtain p0 ck0 where "receiver_reachable (ch_ratchet env) p0 ck0 chain"
      using assms unfolding receivers_ok_def by blast
    then have "prepare_open (ch_ratchet env) chain (mh_n hdr) ct aad = Inr p
        \<Longrightarrow> \<exists>p0 ck0. receiver_reachable (ch_ratchet env) p0 ck0 (po_next p)" for ct aad p
      using prepare_open_once by blast
    then show ?thesis
      using assms h c True by (auto simp: open_by_parts receivers_ok_def split: sum.split)
  next
    case False
    with assms h show ?thesis by (auto simp: open_by_parts split: option.split)
  qed
qed

lemma open_outcome:
  assumes "receivers_ok env st" and "open_sender_message env st who wire = (Some pt, st')"
  obtains hdr len chain p where "message_parts env wire = Some (hdr, len)" "mh_sender hdr = who"
    "cs_sender_chains st (who, mh_epoch hdr) = Some chain"
    "prepare_open (ch_ratchet env) chain (mh_n hdr) (drop (2 + len) wire) (take len (drop 2 wire)) = Inr p"
    "pt = po_plaintext p" "st' = st\<lparr>cs_sender_chains := (cs_sender_chains st)((who, mh_epoch hdr) \<mapsto> po_next p)\<rparr>"
  using assms(2) by (auto simp: open_by_parts split: option.splits if_splits sum.splits)

lemma open_failed:
  assumes "open_sender_message env st who wire = (None, st')"
  shows "st' = st"
  using assms by (auto simp: open_by_parts split: option.splits if_splits sum.splits)

lemma open_once:
  assumes "receivers_ok env st" and "open_sender_message env st who wire = (Some pt, st')"
  shows "open_sender_message env st' who wire = (None, st')"
proof -
  obtain hdr len chain p where o: "message_parts env wire = Some (hdr, len)" "mh_sender hdr = who"
    "cs_sender_chains st (who, mh_epoch hdr) = Some chain"
    "prepare_open (ch_ratchet env) chain (mh_n hdr) (drop (2 + len) wire) (take len (drop 2 wire)) = Inr p"
    "st' = st\<lparr>cs_sender_chains := (cs_sender_chains st)((who, mh_epoch hdr) \<mapsto> po_next p)\<rparr>"
    using open_outcome [OF assms] by metis
  obtain p0 ck0 where "receiver_reachable (ch_ratchet env) p0 ck0 chain"
    using assms(1) o(3) unfolding receivers_ok_def by blast
  from prepare_open_once [OF this o(4)]
  obtain e where "prepare_open (ch_ratchet env) (po_next p) (mh_n hdr) (drop (2 + len) wire) (take len (drop 2 wire)) = Inl e"
    by (meson isl_def)
  then show ?thesis using o(1,2,5) by (simp add: open_by_parts)
qed

text \<open>The stored row holds the encoded chain, and preparing on it is opening in memory.\<close>

lemma checkpoint_message_simulates:
  assumes "receivers_ok env st" and "cs_sender_chains st (who, ep) = Some chain"
    and "encode_checkpoint chain = Inr row" and "message_parts env wire = Some (hdr, len)"
    and "mh_epoch hdr = ep"
  shows "(\<exists>pm. prepare_checkpoint_message env who row wire = Inr pm
        \<and> fst (open_sender_message env st who wire) = Some (pm_plaintext pm)
        \<and> (\<exists>chain'. cs_sender_chains (snd (open_sender_message env st who wire)) (who, ep) = Some chain'
             \<and> encode_checkpoint chain' = Inr (pm_checkpoint pm) \<and> sc_n chain' = pm_next_position pm)
        \<and> pm_epoch pm = ep \<and> pm_author pm = who)
   \<or> (\<exists>e. prepare_checkpoint_message env who row wire = Inl e \<and> (\<forall>t. e \<noteq> MessageMalformed t)
        \<and> open_sender_message env st who wire = (None, st))"
proof (cases "mh_sender hdr = who")
  case False
  with assms show ?thesis by (simp add: prepare_checkpoint_message_def open_by_parts)
next
  case True
  obtain p0 ck0 where reach: "receiver_reachable (ch_ratchet env) p0 ck0 chain"
    using assms(1,2) unfolding receivers_ok_def by blast
  then have dec: "decode_checkpoint row = Inr chain"
    using decode_encode_checkpoint [of chain] receiver_reachable_ok [OF reach] assms(3) by auto
  show ?thesis
  proof (cases "prepare_open (ch_ratchet env) chain (mh_n hdr) (drop (2 + len) wire) (take len (drop 2 wire))")
    case (Inl e)
    then show ?thesis using True assms dec
      by (auto simp: prepare_checkpoint_message_def open_by_parts open_failure_def split: sender_key_error.split)
  next
    case (Inr p)
    then have "receiver_reachable (ch_ratchet env) p0 ck0 (po_next p)" using prepare_open_once [OF reach] by blast
    then obtain bs where "encode_checkpoint (po_next p) = Inr bs"
      using decode_encode_checkpoint [of "po_next p"] receiver_reachable_ok by blast
    then show ?thesis using True assms dec Inr
      by (simp add: prepare_checkpoint_message_def open_by_parts open_into_checkpoint_def)
  qed
qed

text \<open>What sealing at once gives a host to send and to store: a send prepared by a member that may
  send is that. Then the refusals around it.\<close>

definition sealed_send ::
  "channel_env \<Rightarrow> array32 \<Rightarrow> channel_state \<Rightarrow> bytes
   \<Rightarrow> channel_error + (bytes \<times> sender_key_distribution option \<times> (u64 \<rightharpoonup> bytes))" where
  "sealed_send env fresh st pt =
    (case seal_sender_message env fresh st pt of
       (Inl e, st') \<Rightarrow> Inl e
     | (Inr wire, st') \<Rightarrow>
         Inr (wire,
              if has_my_sender st (cs_epoch st) then None else Some (fst (my_sender_distribution fresh st)),
              export_my_senders env st'))"

lemma prepare_is_seal:
  assumes "cs_my_user_id st = Some me" and "is_member env st me" and "\<not> cs_pending_invite st"
    and "\<forall>sk. cs_my_sender st (cs_epoch st) = Some sk \<longrightarrow> parse_sender_key env (bincode_sender_key env sk) = Some sk"
  shows "prepare_sender_message env fresh st pt = sealed_send env fresh st pt"
proof (cases "cs_my_sender st (cs_epoch st)")
  case None
  with assms show ?thesis
    by (auto simp: sealed_send_def prepare_sender_message_def seal_sender_message_def current_sender_def Let_def
        my_sender_distribution_def has_my_sender_def export_my_senders_def fun_eq_iff split: sum.split prod.split)
next
  case (Some sk)
  with assms show ?thesis
    by (auto simp: sealed_send_def prepare_sender_message_def seal_sender_message_def current_sender_def Let_def
        has_my_sender_def export_my_senders_def fun_eq_iff split: sum.split prod.split)
qed

lemma prepare_no_identity:
  "cs_my_user_id st = None \<Longrightarrow> prepare_sender_message env fresh st pt = Inl (ChMalformed ''no identity'')"
  by (simp add: prepare_sender_message_def)

lemma prepare_ignores_members:
  "prepare_sender_message env fresh (st\<lparr>cs_members := ms, cs_pending_invite := b\<rparr>) pt = prepare_sender_message env fresh st pt"
  by (cases "cs_my_user_id st") (simp_all add: prepare_sender_message_def has_my_sender_def export_my_senders_def cong: sum.case_cong prod.case_cong)

lemma seal_refused:
  "cs_my_user_id st = None \<Longrightarrow> seal_sender_message env fresh st pt = (Inl (ChMalformed ''no identity''), st)"
  "cs_my_user_id st = Some me \<Longrightarrow> \<not> (is_member env st me \<and> \<not> cs_pending_invite st)
     \<Longrightarrow> seal_sender_message env fresh st pt = (Inl (ChMalformed ''not a channel member''), st)"
  by (auto simp: seal_sender_message_def)

section \<open>Properties\<close>

text \<open>
  C24. Members agree on a channel: two members that start alike and are given the same renames and
  membership snapshots, in different orders and some of them more than once, end with the same
  name, members and epoch. Two renames by one event carry one name, and the encoding tells the
  member lists in question apart.
\<close>

theorem channel_view_converges:
  assumes "set xs = set ys"
    and "\<forall>a b lam eid. Rename a lam eid \<in> set xs \<longrightarrow> Rename b lam eid \<in> set xs \<longrightarrow> a = b"
    and "inj_on (encode_members env) {cm_members m |m. Snapshot m \<in> set xs}"
  shows "fold (apply_op env) xs st = fold (apply_op env) ys st"
  using ops_converge [OF assms(1) _ assms(3)] assms(2) by blast

text \<open>
  C25. An open invitation confines: a node that has not accepted its invitation, after whatever
  operations, cannot send, neither by sealing nor through the host's admission of an outgoing
  message, whatever membership the host projects; it cannot be made owner and, where roles go by
  account, neither administers nor receives content; a member that accepts is accepted, with the
  event recorded as the cutoff. (Preparing a send on its own does not look at the invitation: the
  admission in front of it does.)
\<close>

theorem pending_invite_confines:
  assumes "channel_reachable env st" and "cs_my_user_id st = Some me" and "cs_pending_invite st"
  shows "seal_sender_message env fresh st pt = (Inl (ChMalformed ''not a channel member''), st)
    \<and> outgoing_payload env public current fresh st pt = Inl NotActiveMember
    \<and> transfer_owner env me st = (False, st)
    \<and> (cs_account_owner st \<noteq> None \<longrightarrow>
         \<not> can_admin env st me \<and> me \<notin> uid env ` set (recipient_members env st))
    \<and> (is_member env st me \<longrightarrow>
         is_accepted_member env (accept_invite env me eid st) me
         \<and> \<not> cs_pending_invite (accept_invite env me eid st)
         \<and> cs_accepted_event_id (accept_invite env me eid st) = Some eid)"
proof -
  have "me \<notin> cs_accepted_members st"
    using channel_reachable_pending_ok [OF assms(1)] assms(2,3) by (simp add: pending_ok_def)
  with assms(2,3) show ?thesis
    by (auto simp: seal_sender_message_def outgoing_payload_def transfer_owner_def can_admin_def recipient_members_def
        is_accepted_member_def accept_invite_def is_member_def Let_def)
qed

text \<open>
  C26. A departure lasts: once a member other than the owner has left, at an epoch below the greatest
  one, they are neither a member nor accepted, everyone else is as before, the epoch has moved on, and no snapshot of an epoch up
  to the one they left in, of whichever kind and however many, changes the membership again.
\<close>

theorem departure_lasts:
  assumes "leave_member env u st = (True, st')" and "unat (cs_epoch st) < 2 ^ 64 - 1"
    and "\<forall>m\<in>set ms. cm_epoch (fst m) \<le> cs_epoch st"
  shows "\<not> is_member env st' u \<and> u \<notin> cs_accepted_members st' \<and> unat (cs_epoch st') = Suc (unat (cs_epoch st))
    \<and> (\<forall>v. v \<noteq> u \<longrightarrow> is_member env st' v = is_member env st v
          \<and> is_accepted_member env st' v = is_accepted_member env st v)
    \<and> fold (\<lambda>(m, left). apply_meta_with_departure env m left) ms st' = st'"
proof -
  have st': "st' = st\<lparr>cs_members := filter (\<lambda>p. uid env p \<noteq> u) (cs_members st),
                 cs_accepted_members := cs_accepted_members st - {u},
                 cs_epoch := saturating_add (cs_epoch st) 1\<rparr>"
    using assms(1) by (auto simp: leave_member_def split: if_splits)
  have "cs_epoch st < - 1"
    using assms(2) by (simp add: word_less_nat_alt unsigned_minus_1_eq_mask mask_eq_exp_minus_1)
  then have ep: "unat (cs_epoch st') = Suc (unat (cs_epoch st))"
    using assms(2) by (simp add: st' saturating_add_def unat_succ_less)
  have "fold (\<lambda>(m, left). apply_meta_with_departure env m left) ms st' = st'"
    by (rule stale_metas_ignored) (use assms(3) ep in \<open>auto simp: word_le_nat_alt word_less_nat_alt le_imp_less_Suc\<close>)
  with ep show ?thesis by (auto simp: st' is_member_def is_accepted_member_def)
qed

text \<open>
  C27. Channel messages are read: when a member hands out the sending key of the epoch and another
  records it, everything the first then seals, in the order sealed and with up to a thousand
  messages lost anywhere, opens for the second to what was written.
\<close>

theorem channel_messages_read:
  assumes "aead_opens (ch_ratchet env)" and "header_coded env me"
    and "cs_my_user_id a = Some me" and "is_member env a me" and "\<not> cs_pending_invite a"
    and "my_sender_distribution fresh a = (skd, a')"
    and "cs_sender_chains b (me, cs_epoch a) = None"
    and "length (filter (\<lambda>m. \<not> fst m) msgs) \<le> 1000" and "unat (skd_n skd) + length msgs < 2 ^ 32"
  shows "channel_talk env fresh me a' (record_sender_chain me (cs_epoch a) skd b) msgs
    = map (\<lambda>m. Some (snd m)) (filter fst msgs)"
proof (rule channel_talk_opens [OF assms(1,2)])
  have a': "a' = a\<lparr>cs_my_sender := (cs_my_sender a)(cs_epoch a \<mapsto> current_sender fresh a)\<rparr>"
    "skd = distribution (current_sender fresh a)"
    using assms(6) by (auto simp: my_sender_distribution_def Let_def)
  show "may_send env me a'" using assms(3-5) by (simp add: may_send_def a' is_member_def)
  show "in_touch env me (cs_epoch a') 0 (current_sender fresh a') (record_sender_chain me (cs_epoch a) skd b)"
    using introduction_in_touch [OF assms(7,6)] by (simp add: a')
  show "0 + length (filter (\<lambda>m. \<not> fst m) msgs) \<le> 1000" using assms(8) by simp
  show "unat (sk_n (current_sender fresh a')) + length msgs < 2 ^ 32"
    using assms(9) by (simp add: a' current_sender_def distribution_def)
qed

text \<open>
  C28. Opening is confined: whatever arrives under an author's name, a message that does not open
  leaves the state as it was; one that does consumes a position of that author only, changes
  nothing but the receiving chains, and does not open a second time.
\<close>

theorem opening_confined:
  assumes "receivers_ok env st" and "open_sender_message env st who wire = (r, st')"
  shows "receivers_ok env st' \<and> (r = None \<longrightarrow> st' = st)
    \<and> (\<forall>author ep. author \<noteq> who \<longrightarrow> cs_sender_chains st' (author, ep) = cs_sender_chains st (author, ep))
    \<and> st'\<lparr>cs_sender_chains := cs_sender_chains st\<rparr> = st
    \<and> open_sender_message env st' who wire = (None, if r = None then st else st')"
proof (cases r)
  case None
  then have "st' = st" using assms(2) open_failed by blast
  with None assms show ?thesis by simp
next
  case (Some pt)
  with assms(2) have opened: "open_sender_message env st who wire = (Some pt, st')" by simp
  obtain hdr :: msg_header and p :: prepared_receiver_open where "st' = st\<lparr>cs_sender_chains := (cs_sender_chains st)((who, mh_epoch hdr) \<mapsto> po_next p)\<rparr>"
    by (rule open_outcome [OF assms(1) opened]) (rule that, assumption)
  moreover have "receivers_ok env st'" using open_receivers_ok [OF assms(1), of who wire] opened by simp
  ultimately show ?thesis using Some open_once [OF assms(1) opened] by simp
qed

text \<open>
  C29. A prepared send is the send. Without an identity both refuse. For a member that may send,
  preparing gives the same error or the same message as sealing at once, with the sending keys that
  sealing leaves behind, and the key's distribution exactly when sealing would draw the key. For
  anyone else sealing refuses, while preparing looks at neither members nor invitation; the host's
  admission makes up for it: it passes only accepted members, and what it sends is what sealing
  would send.
\<close>

theorem prepared_send_matches:
  assumes "\<forall>sk. cs_my_sender st (cs_epoch st) = Some sk \<longrightarrow> parse_sender_key env (bincode_sender_key env sk) = Some sk"
  shows "(cs_my_user_id st = None \<longrightarrow>
            prepare_sender_message env fresh st pt = Inl (ChMalformed ''no identity'')
            \<and> seal_sender_message env fresh st pt = (Inl (ChMalformed ''no identity''), st))
    \<and> (\<forall>me. cs_my_user_id st = Some me \<longrightarrow>
          (if is_member env st me \<and> \<not> cs_pending_invite st
           then prepare_sender_message env fresh st pt = sealed_send env fresh st pt
           else seal_sender_message env fresh st pt = (Inl (ChMalformed ''not a channel member''), st)))
    \<and> prepare_sender_message env fresh (st\<lparr>cs_members := ms, cs_pending_invite := b\<rparr>) pt
        = prepare_sender_message env fresh st pt
    \<and> (cs_my_user_id st = Some (uid env public) \<longrightarrow>
          outgoing_payload env public current fresh st pt =
            (if channel_identity_is_current_in env public st current \<and> \<not> cs_pending_invite st \<and> \<not> cs_dissolved st
             then (case sealed_send env fresh st pt of Inl e \<Rightarrow> Inl (PrepareFailed e) | Inr prepared \<Rightarrow> Inr prepared)
             else Inl NotActiveMember))"
proof -
  have eq: "prepare_sender_message env fresh st pt = sealed_send env fresh st pt"
    if "cs_my_user_id st = Some me" "is_member env st me" "\<not> cs_pending_invite st" for me
    using prepare_is_seal [OF that assms(1)] .
  moreover have "is_member env st (uid env public)" if "channel_identity_is_current_in env public st current"
    using that by (auto simp: channel_identity_is_current_in_def is_accepted_member_def split: if_splits)
  moreover have "prepare_sender_message env fresh (st\<lparr>cs_members := ms, cs_pending_invite := b\<rparr>) pt
      = prepare_sender_message env fresh st pt"
    by (rule prepare_ignores_members)
  ultimately show ?thesis
    by (auto simp: outgoing_payload_def prepare_no_identity seal_refused)
qed

text \<open>
  C30. A stored receiver simulates the one in memory: given the row of a chain, preparing a message
  on the row and opening it in memory agree on whether it opens and on its text, and the row to
  store is that of the chain memory moves to; a good row is never reported as damaged.
\<close>

theorem stored_receiver_simulates:
  assumes "receivers_ok env st" and "cs_sender_chains st (who, ep) = Some chain"
    and "encode_checkpoint chain = Inr row" and "sender_message_epoch env who wire = Some ep"
  shows "case prepare_checkpoint_message env who row wire of
      Inr pm \<Rightarrow> \<exists>chain' st'. open_sender_message env st who wire = (Some (pm_plaintext pm), st')
        \<and> cs_sender_chains st' (who, ep) = Some chain' \<and> encode_checkpoint chain' = Inr (pm_checkpoint pm)
        \<and> sc_n chain' = pm_next_position pm \<and> pm_epoch pm = ep \<and> pm_author pm = who
    | Inl e \<Rightarrow> open_sender_message env st who wire = (None, st) \<and> (\<forall>why. e \<noteq> MessageMalformed why)"
proof -
  obtain hdr len where "message_parts env wire = Some (hdr, len)" "mh_epoch hdr = ep"
    using assms(4) by (auto simp: sender_message_epoch_def split: option.splits if_splits)
  from checkpoint_message_simulates [OF assms(1-3) this] show ?thesis
    by (cases "open_sender_message env st who wire") (auto split: sum.split)
qed

text \<open>
  C31. The stored view reloads: what is written for a view whose members are distinct is read back
  as that view without its keys, and nothing is read back whose members repeat.
\<close>

theorem channel_view_reloads:
  assumes "parse_current env bs = Inr cu"
  shows "(cu = current_of st \<and> bincode_current env cu = Inr bs \<and> distinct (map (uid env) (cs_members st)) \<longrightarrow>
      encode_current env st = Inr bs
      \<and> decode_current env bs = Inr (st\<lparr>cs_my_sender := Map.empty, cs_sender_chains := Map.empty\<rparr>))
    \<and> (decode_current env bs = Inr st' \<longrightarrow> distinct (map (uid env) (cs_members st')) \<and> current_of st' = cu)"
  using assms by (auto simp: encode_current_def decode_current_def current_of_def split: if_splits)

section \<open>Witnesses\<close>

text \<open>A computable instance of the parameters, in which everyone has one user id.\<close>

definition demo_channel :: channel_env where
  "demo_channel =
     \<lparr>ch_crypto = demo_env\<lparr>hex_encode := (\<lambda>bs. ''me'')\<rparr>, ch_ratchet = demo_ratchet,
      bincode_meta = (\<lambda>m. []), parse_meta = (\<lambda>bs. None),
      bincode_members = (\<lambda>ms. [of_nat (length ms)]),
      bincode_msg_header = (\<lambda>h. u64_to_le_bytes (mh_epoch h) @ u32_to_be_bytes (mh_n h)),
      parse_msg_header = (\<lambda>bs. Some \<lparr>mh_epoch = u64_from_le_bytes (take 8 bs), mh_sender = ''me'',
                                     mh_n = u32_from_be_bytes (drop 8 bs)\<rparr>),
      bincode_sender_key = (\<lambda>sk. array_bytes (sk_chain_key sk) @ u32_to_be_bytes (sk_n sk)),
      parse_sender_key = (\<lambda>bs. Some \<lparr>sk_chain_key = array_of_bytes (take 32 bs),
                                     sk_n = u32_from_be_bytes (drop 32 bs)\<rparr>),
      bincode_current = (\<lambda>cu. Inr []),
      parse_current = (\<lambda>bs. Inr
        \<lparr>cu_version = 1, cu_id = ConversationId 1, cu_name = ''n'', cu_name_version = (0, EventId 0),
         cu_members = [], cu_epoch = 3, cu_owner = ''o'', cu_account_owner = None,
         cu_account_members = Map.empty, cu_dissolved = False, cu_genesis_owner = ''o'',
         cu_pending_invite = False, cu_accepted_event_id = None, cu_accepted_members = {},
         cu_my_user_id = None\<rparr>)\<rparr>"

lemma demo_uid [simp]: "uid demo_channel p = ''me''"
  by (simp add: user_id_def user_id_from_def demo_channel_def)

lemma demo_ch_ratchet [simp]: "ch_ratchet demo_channel = demo_ratchet"
  by (simp add: demo_channel_def)

lemma demo_header_coded: "header_coded demo_channel ''me''"
  by (auto simp: header_coded_def demo_channel_def)

definition demo_view :: "string \<Rightarrow> public_identity list \<Rightarrow> channel_state" where
  "demo_view owner ms =
     from_meta demo_channel (ConversationId 1) \<lparr>cm_name = ''n'', cm_members = ms, cm_epoch = 3, cm_owner = owner\<rparr>"

abbreviation demo_member :: public_identity where
  "demo_member \<equiv> \<lparr>ed25519_pub = 1, x25519_pub = 2\<rparr>"

theorem channel_view_converges_witness:
  "cs_members (fold (apply_op demo_channel)
       [Rename ''x'' 2 (EventId 5), Snapshot \<lparr>cm_name = [], cm_members = [demo_member], cm_epoch = 3, cm_owner = ''o''\<rparr>]
       (demo_view ''o'' [])) = [demo_member]
   \<and> fold (apply_op demo_channel)
       [Rename ''x'' 2 (EventId 5), Snapshot \<lparr>cm_name = [], cm_members = [demo_member], cm_epoch = 3, cm_owner = ''o''\<rparr>]
       (demo_view ''o'' [])
     = fold (apply_op demo_channel)
       [Snapshot \<lparr>cm_name = [], cm_members = [demo_member], cm_epoch = 3, cm_owner = ''o''\<rparr>, Rename ''x'' 2 (EventId 5)]
       (demo_view ''o'' [])"
proof (intro conjI channel_view_converges)
  show "cs_members (fold (apply_op demo_channel)
       [Rename ''x'' 2 (EventId 5), Snapshot \<lparr>cm_name = [], cm_members = [demo_member], cm_epoch = 3, cm_owner = ''o''\<rparr>]
       (demo_view ''o'' [])) = [demo_member]"
    by (simp add: demo_view_def from_meta_def apply_meta_def apply_meta_with_departure_def apply_rename_def
        encode_members_def demo_channel_def)
qed (auto simp: inj_on_def)

theorem pending_invite_confines_witness:
  "seal_sender_message demo_channel 9 (mark_invited ''me'' (set_identity demo_channel ''me'' (demo_view ''o'' [demo_member]))) [1]
     = (Inl (ChMalformed ''not a channel member''),
        mark_invited ''me'' (set_identity demo_channel ''me'' (demo_view ''o'' [demo_member])))
   \<and> outgoing_payload demo_channel demo_member
       \<lparr>mp_state = None, mp_current_event = Some (EventId 4), mp_key_epoch = Some 3, mp_admits_device = True\<rparr> 9
       (mark_invited ''me'' (set_identity demo_channel ''me'' (demo_view ''o'' [demo_member]))) [1] = Inl NotActiveMember
   \<and> is_accepted_member demo_channel (accept_invite demo_channel ''me'' (EventId 7)
       (mark_invited ''me'' (set_identity demo_channel ''me'' (demo_view ''o'' [demo_member])))) ''me''"
proof -
  let ?st = "mark_invited ''me'' (set_identity demo_channel ''me'' (demo_view ''o'' [demo_member]))"
  have "channel_reachable demo_channel ?st"
    unfolding demo_view_def by (intro channel_reachable.intros)
  moreover have "cs_my_user_id ?st = Some ''me''" "cs_pending_invite ?st" "is_member demo_channel ?st ''me''"
    by (simp_all add: mark_invited_def set_identity_def demo_view_def from_meta_def is_member_def)
  ultimately show ?thesis
    using pending_invite_confines [of demo_channel ?st "''me''"] by blast
qed

theorem departure_lasts_witness:
  "\<exists>st'. leave_member demo_channel ''me'' (demo_view ''o'' [demo_member]) = (True, st')
     \<and> \<not> is_member demo_channel st' ''me''
     \<and> fold (\<lambda>(m, left). apply_meta_with_departure demo_channel m left)
         [(\<lparr>cm_name = [], cm_members = [demo_member], cm_epoch = 3, cm_owner = ''o''\<rparr>, True)] st' = st'"
proof -
  let ?st = "demo_view ''o'' [demo_member]"
  obtain st' where "leave_member demo_channel ''me'' ?st = (True, st')"
    by (simp add: leave_member_def is_member_def demo_view_def from_meta_def)
  moreover have "cs_epoch ?st = 3" by (simp add: demo_view_def from_meta_def)
  ultimately show ?thesis
    using departure_lasts [of demo_channel "''me''" ?st st'
        "[(\<lparr>cm_name = [], cm_members = [demo_member], cm_epoch = 3, cm_owner = ''o''\<rparr>, True)]"] by auto
qed

theorem channel_messages_read_witness:
  "\<exists>skd a'. my_sender_distribution 9 (set_identity demo_channel ''me'' (demo_view ''o'' [demo_member])) = (skd, a')
     \<and> channel_talk demo_channel 9 ''me'' a' (record_sender_chain ''me'' 3 skd (demo_view ''o'' [demo_member]))
         [(True, [1]), (False, [2]), (True, [3])] = [Some [1], Some [3]]"
proof -
  let ?a = "set_identity demo_channel ''me'' (demo_view ''o'' [demo_member])"
  have a: "cs_my_user_id ?a = Some ''me''" "is_member demo_channel ?a ''me''" "\<not> cs_pending_invite ?a"
    "cs_epoch ?a = 3" "cs_my_sender ?a = Map.empty"
    by (auto simp: set_identity_def demo_view_def from_meta_def is_member_def is_accepted_member_def)
  obtain skd a' where d: "my_sender_distribution 9 ?a = (skd, a')" by fastforce
  then have "skd_n skd = 0"
    using a(5) by (auto simp: my_sender_distribution_def Let_def distribution_def current_sender_def
        sender_key_generate_def)
  moreover have "cs_sender_chains (demo_view ''o'' [demo_member]) (''me'', cs_epoch ?a) = None"
    by (simp add: demo_view_def from_meta_def)
  ultimately have "channel_talk demo_channel 9 ''me'' a'
      (record_sender_chain ''me'' (cs_epoch ?a) skd (demo_view ''o'' [demo_member])) [(True, [1]), (False, [2]), (True, [3])]
    = map (\<lambda>m. Some (snd m)) (filter fst [(True, [1]), (False, [2]), (True, [3])])"
    by (intro channel_messages_read [OF _ demo_header_coded a(1-3) d]) (simp_all add: demo_ratchet_laws(1))
  with d show ?thesis unfolding a(4) by (simp del: channel_talk.simps)
qed

theorem opening_confined_witness:
  "open_sender_message demo_channel (demo_view ''o'' [demo_member]) ''you'' [0, 0]
     = (None, demo_view ''o'' [demo_member])"
proof -
  have "receivers_ok demo_channel (demo_view ''o'' [demo_member])"
    by (simp add: receivers_ok_def demo_view_def from_meta_def)
  moreover have "fst (open_sender_message demo_channel (demo_view ''o'' [demo_member]) ''you'' [0, 0]) = None"
    by (simp add: open_sender_message_def demo_channel_def Let_def)
  ultimately show ?thesis
    using opening_confined [of demo_channel "demo_view ''o'' [demo_member]" "''you''" "[0, 0]"]
    by (metis prod.collapse)
qed

theorem prepared_send_matches_witness:
  "prepare_sender_message demo_channel 9 (set_identity demo_channel ''me'' (demo_view ''o'' [demo_member])) [1]
   = (case seal_sender_message demo_channel 9 (set_identity demo_channel ''me'' (demo_view ''o'' [demo_member])) [1] of
       (Inl e, st') \<Rightarrow> Inl e
     | (Inr wire, st') \<Rightarrow>
         Inr (wire, Some \<lparr>skd_chain_key = 9, skd_n = 0\<rparr>, export_my_senders demo_channel st'))"
proof -
  let ?st = "set_identity demo_channel ''me'' (demo_view ''o'' [demo_member])"
  have st: "cs_my_user_id ?st = Some ''me''" "is_member demo_channel ?st ''me''" "\<not> cs_pending_invite ?st"
    "cs_my_sender ?st = Map.empty"
    by (auto simp: set_identity_def demo_view_def from_meta_def is_member_def is_accepted_member_def)
  then have "\<not> has_my_sender ?st (cs_epoch ?st)"
    "fst (my_sender_distribution 9 ?st) = \<lparr>skd_chain_key = 9, skd_n = 0\<rparr>"
    by (simp_all add: has_my_sender_def my_sender_distribution_def current_sender_def sender_key_generate_def
        distribution_def Let_def)
  then show ?thesis using prepared_send_matches [of ?st demo_channel 9 "[1]"] st by (simp add: sealed_send_def split: prod.split sum.split)
qed

theorem stored_receiver_simulates_witness:
  "\<exists>row. encode_checkpoint (from_distribution \<lparr>skd_chain_key = 8, skd_n = 0\<rparr>) = Inr row
     \<and> (case prepare_checkpoint_message demo_channel ''me'' row
              (message_wire (bincode_msg_header demo_channel \<lparr>mh_epoch = 3, mh_sender = ''me'', mh_n = 2\<rparr>) [7]) of
          Inr pm \<Rightarrow> pm_author pm = ''me''
        | Inl e \<Rightarrow> \<forall>why. e \<noteq> MessageMalformed why)"
proof -
  let ?sc = "from_distribution \<lparr>skd_chain_key = 8, skd_n = 0\<rparr>"
  let ?st = "record_sender_chain ''me'' 3 \<lparr>skd_chain_key = 8, skd_n = 0\<rparr> (demo_view ''o'' [demo_member])"
  let ?wire = "message_wire (bincode_msg_header demo_channel \<lparr>mh_epoch = 3, mh_sender = ''me'', mh_n = 2\<rparr>) [7]"
  have chains: "cs_sender_chains ?st = [(''me'', 3) \<mapsto> ?sc]"
    by (simp add: record_sender_chain_def demo_view_def from_meta_def)
  then have "receivers_ok demo_channel ?st"
    using demo_receiver by (auto simp: receivers_ok_def split: if_splits)
  moreover obtain row where "encode_checkpoint ?sc = Inr row"
    using decode_encode_checkpoint [of ?sc] receiver_reachable_ok [OF demo_receiver] by blast
  moreover have "sender_message_epoch demo_channel ''me'' ?wire = Some 3"
    using message_parts_wire [of demo_channel "\<lparr>mh_epoch = 3, mh_sender = ''me'', mh_n = 2\<rparr>" "[7]"] demo_header_coded
    by (simp add: sender_message_epoch_def)
  ultimately show ?thesis
    using stored_receiver_simulates [of demo_channel ?st "''me''" 3 ?sc row ?wire] chains
    by (auto split: sum.splits)
qed

theorem channel_view_reloads_witness:
  "\<exists>env. encode_current env (set_identity demo_channel ''me'' (demo_view ''o'' [demo_member])) = Inr []
   \<and> decode_current env [] = Inr (set_identity demo_channel ''me'' (demo_view ''o'' [demo_member]))"
proof -
  let ?st = "set_identity demo_channel ''me'' (demo_view ''o'' [demo_member])"
  let ?env = "demo_channel\<lparr>parse_current := (\<lambda>bs. Inr (current_of ?st))\<rparr>"
  have "bincode_current ?env (current_of ?st) = Inr []" by (simp add: demo_channel_def)
  moreover have "distinct (map (uid ?env) (cs_members ?st))" "?st\<lparr>cs_my_sender := Map.empty, cs_sender_chains := Map.empty\<rparr> = ?st"
    by (simp_all add: set_identity_def demo_view_def from_meta_def)
  ultimately show ?thesis
    using channel_view_reloads [of ?env "[]" "current_of ?st" ?st ?st] by auto
qed

end
