(* ===== verification/Event_Store.thy ===== *)
theory Event_Store
  imports Event_Model
begin

text \<open>
  The in-memory validating index \<open>EventLog\<close> of \<open>eventlog/store.rs\<close> and the errors of
  \<open>eventlog/mod.rs\<close>. A \<open>HashMap\<close> is a map, a \<open>HashSet\<close> a set and a
  \<open>BTreeSet\<close> an ascending list.

  The specification is \<open>index_of\<close>: every index of the log as a function of the events it
  holds. \<open>index_trusted\<close> refines adding one event to that set, so a log never depends on the
  order its events arrived in.
\<close>

section \<open>Errors\<close>

datatype log_error =
    AdmissionRejected string
  | CorruptId
  | BadSignature
  | NonCanonical
  | ClockExhausted
  | SequenceExhausted
  | StaleCursor
  | ConversationRetiring
  | RelayMailboxUnavailable
  | RelayCapacityUnavailable
  | RelayEventTooLarge
  | InvalidPageBudget
  | PageBudgetTooSmall nat
  | RepositoryCounterExhausted
  | IncompatibleEventSchema
  | MissingParents "event_id list"
  | AuthorEquivocation author u64
  | Storage string
  | Database string
  | Serialization string
  | Io string
  | CorruptFile string

fun is_peer_rejection :: "log_error \<Rightarrow> bool" where
  "is_peer_rejection (AdmissionRejected _) = True"
| "is_peer_rejection NonCanonical = True"
| "is_peer_rejection CorruptId = True"
| "is_peer_rejection BadSignature = True"
| "is_peer_rejection (MissingParents _) = True"
| "is_peer_rejection (AuthorEquivocation _ _) = True"
| "is_peer_rejection _ = False"

section \<open>The log\<close>

datatype append_outcome = Appended | Duplicate

type_synonym order_key = "u64 \<times> event_id"

record event_log =
  l_events :: "event_id \<rightharpoonup> event"
  l_by_conversation :: "conversation_id \<rightharpoonup> order_key list"
  l_messages_by_author :: "conversation_id \<times> author \<rightharpoonup> order_key list"
  l_replica_v2 :: "conversation_id set"
  l_history_v3 :: "conversation_id set"
  l_account_v4 :: "conversation_id set"
  l_metadata_v5 :: "conversation_id set"
  l_heads :: "conversation_id \<rightharpoonup> event_id set"
  l_version :: "conversation_id \<rightharpoonup> (author \<rightharpoonup> u64)"
  l_max_lamport :: "conversation_id \<rightharpoonup> u64"
  l_author_seq :: "conversation_id \<times> author \<times> u64 \<rightharpoonup> event_id"

definition event_log_default :: event_log where
  "event_log_default =
     \<lparr>l_events = Map.empty, l_by_conversation = Map.empty, l_messages_by_author = Map.empty,
      l_replica_v2 = {}, l_history_v3 = {}, l_account_v4 = {}, l_metadata_v5 = {},
      l_heads = Map.empty, l_version = Map.empty, l_max_lamport = Map.empty,
      l_author_seq = Map.empty\<rparr>"

text \<open>\<open>HashMap::entry(k).or_insert(d)\<close> reads the entry, \<open>d\<close> where there is none.\<close>

definition entry_or :: "'v \<Rightarrow> ('k \<rightharpoonup> 'v) \<Rightarrow> 'k \<Rightarrow> 'v" where
  "entry_or d m k = (case m k of None \<Rightarrow> d | Some v \<Rightarrow> v)"

definition missing_parents :: "event_log \<Rightarrow> event \<Rightarrow> event_id list" where
  "missing_parents l e =
     filter (\<lambda>p. map_option conversation_id (l_events l p) \<noteq> Some (conversation_id e)) (parents e)"

definition validate :: "crypto_env \<Rightarrow> event_log \<Rightarrow> event \<Rightarrow> log_error + bool" where
  "validate cr l e =
     (if \<not> is_canonical e then Inl NonCanonical
      else if \<not> verify_integrity cr e then Inl CorruptId
      else if \<not> verify_signature cr e then Inl BadSignature
      else if l_events l (ev_id e) \<noteq> None then Inr False
      else let missing = missing_parents l e in
        if missing \<noteq> [] then Inl (MissingParents missing)
        else (case l_author_seq l (conversation_id e, author e, seq e) of
            Some existing \<Rightarrow>
              if existing \<noteq> ev_id e then Inl (AuthorEquivocation (author e) (seq e)) else Inr True
          | None \<Rightarrow> Inr True))"

definition index_trusted :: "event_log \<Rightarrow> event \<Rightarrow> event_log" where
  "index_trusted l e =
     (let conv = conversation_id e;
          i = ev_id e;
          heads' = (if kind e \<noteq> Profile
                    then (l_heads l)(conv \<mapsto> insert i (entry_or {} (l_heads l) conv - set (parents e)))
                    else l_heads l);
          vv = entry_or Map.empty (l_version l) conv;
          slot = entry_or 0 vv (author e);
          version' = (l_version l)(conv \<mapsto> vv(author e \<mapsto> (if seq e > slot then seq e else slot)));
          ml = entry_or 0 (l_max_lamport l) conv;
          max' = (l_max_lamport l)(conv \<mapsto> (if lamport e > ml then lamport e else ml));
          author_seq' = (l_author_seq l)((conv, author e, seq e) \<mapsto> i);
          by_conv' = (l_by_conversation l)
            (conv \<mapsto> insort_insert (lamport e, i) (entry_or [] (l_by_conversation l) conv));
          msgs' = (if kind e = Message
                   then (l_messages_by_author l)
                     ((conv, author e) \<mapsto>
                        insort_insert (lamport e, i) (entry_or [] (l_messages_by_author l) (conv, author e)))
                   else l_messages_by_author l)
      in \<lparr>l_events = (l_events l)(i \<mapsto> e),
          l_by_conversation = by_conv',
          l_messages_by_author = msgs',
          l_replica_v2 = (if kind e = ChannelReplica then insert conv (l_replica_v2 l) else l_replica_v2 l),
          l_history_v3 = (if kind e = ChannelHistoryPolicy \<or> kind e = ChannelJoinHistory
                          then insert conv (l_history_v3 l) else l_history_v3 l),
          l_account_v4 = (if kind e = ChannelAccountAuthority \<or> kind e = ChannelDeviceInheritance
                          then insert conv (l_account_v4 l) else l_account_v4 l),
          l_metadata_v5 = (if kind e = ChannelMetadata then insert conv (l_metadata_v5 l) else l_metadata_v5 l),
          l_heads = heads',
          l_version = version',
          l_max_lamport = max',
          l_author_seq = author_seq'\<rparr>)"

definition log_append :: "crypto_env \<Rightarrow> event_log \<Rightarrow> event \<Rightarrow> log_error + (append_outcome \<times> event_log)" where
  "log_append cr l e =
     (case validate cr l e of
        Inl err \<Rightarrow> Inl err
      | Inr False \<Rightarrow> Inr (Duplicate, l)
      | Inr True \<Rightarrow> Inr (Appended, index_trusted l e))"

section \<open>Queries\<close>

definition log_has :: "event_log \<Rightarrow> event_id \<Rightarrow> bool" where
  "log_has l i \<longleftrightarrow> l_events l i \<noteq> None"

definition log_requires_channel_v2 :: "event_log \<Rightarrow> conversation_id \<Rightarrow> bool" where
  "log_requires_channel_v2 l c \<longleftrightarrow> c \<in> l_replica_v2 l"

definition log_requires_channel_v3 :: "event_log \<Rightarrow> conversation_id \<Rightarrow> bool" where
  "log_requires_channel_v3 l c \<longleftrightarrow> c \<in> l_history_v3 l"

definition log_requires_channel_v4 :: "event_log \<Rightarrow> conversation_id \<Rightarrow> bool" where
  "log_requires_channel_v4 l c \<longleftrightarrow> c \<in> l_account_v4 l"

definition log_requires_channel_v5 :: "event_log \<Rightarrow> conversation_id \<Rightarrow> bool" where
  "log_requires_channel_v5 l c \<longleftrightarrow> c \<in> l_metadata_v5 l"

text \<open>\<open>all_event_ids\<close> and \<open>conversations\<close> come in arbitrary order: they are sets.\<close>

definition all_event_ids :: "event_log \<Rightarrow> event_id set" where
  "all_event_ids l = dom (l_events l)"

definition conversations :: "event_log \<Rightarrow> conversation_id set" where
  "conversations l = dom (l_by_conversation l)"

definition log_get :: "event_log \<Rightarrow> event_id \<Rightarrow> event option" where
  "log_get l i = l_events l i"

definition authored_event :: "event_log \<Rightarrow> conversation_id \<Rightarrow> author \<Rightarrow> u64 \<Rightarrow> event option" where
  "authored_event l c a s =
     (case l_author_seq l (c, a, s) of None \<Rightarrow> None | Some i \<Rightarrow> l_events l i)"

definition log_events :: "event_log \<Rightarrow> conversation_id \<Rightarrow> event list" where
  "log_events l c =
     (case l_by_conversation l c of
        Some ids \<Rightarrow> List.map_filter (\<lambda>(_, i). l_events l i) ids
      | None \<Rightarrow> [])"

definition message_keys_after ::
  "event_log \<Rightarrow> conversation_id \<Rightarrow> author \<Rightarrow> order_key option \<Rightarrow> nat \<Rightarrow> order_key list" where
  "message_keys_after l c a cursor limit =
     (case l_messages_by_author l (c, a) of
        None \<Rightarrow> []
      | Some keys \<Rightarrow>
          let target = min limit (length keys) in
          (case cursor of
             Some after \<Rightarrow>
               let result = take target (filter (\<lambda>k. after < k) keys)
               in if length result < target
                  then result @ take (target - length result) keys else result
           | None \<Rightarrow> take target keys))"

definition log_heads :: "event_log \<Rightarrow> conversation_id \<Rightarrow> event_id list" where
  "log_heads l c = sorted_list_of_set (entry_or {} (l_heads l) c)"

definition version_vector :: "event_log \<Rightarrow> conversation_id \<Rightarrow> (author \<rightharpoonup> u64)" where
  "version_vector l c = entry_or Map.empty (l_version l) c"

definition next_sequence :: "event_log \<Rightarrow> conversation_id \<Rightarrow> author \<Rightarrow> log_error + u64" where
  "next_sequence l c a =
     (case checked_add (entry_or 0 (entry_or Map.empty (l_version l) c) a) 1 of
        None \<Rightarrow> Inl SequenceExhausted
      | Some n \<Rightarrow> Inr n)"

definition prepare :: "event_log \<Rightarrow> conversation_id \<Rightarrow> log_error + (event_id list \<times> u64)" where
  "prepare l c =
     (case checked_add (entry_or 0 (l_max_lamport l) c) 1 of
        None \<Rightarrow> Inl ClockExhausted
      | Some n \<Rightarrow> Inr (log_heads l c, n))"

section \<open>The specification: a log as a function of its events\<close>

definition conv_set :: "(event_id \<rightharpoonup> event) \<Rightarrow> conversation_id \<Rightarrow> event set" where
  "conv_set M c = {e \<in> ran M. conversation_id e = c}"

abbreviation order_key_of :: "event \<Rightarrow> order_key" where
  "order_key_of e \<equiv> (lamport e, ev_id e)"

definition keys_of :: "event set \<Rightarrow> order_key list option" where
  "keys_of S = (if S = {} then None else Some (sorted_list_of_set (order_key_of ` S)))"

definition frontier_of :: "event set \<Rightarrow> event_id set option" where
  "frontier_of S =
     (let T = {e \<in> S. kind e \<noteq> Profile} in
      if T = {} then None
      else Some {ev_id e | e. e \<in> T \<and> (\<forall>f\<in>T. ev_id e \<notin> set (parents f))})"

definition greatest_of :: "('b \<Rightarrow> 'a::linorder) \<Rightarrow> 'b set \<Rightarrow> 'a option" where
  "greatest_of f S = (if S = {} then None else Some (Max (f ` S)))"

definition version_of :: "event set \<Rightarrow> (author \<rightharpoonup> u64) option" where
  "version_of S =
     (if S = {} then None else Some (\<lambda>a. greatest_of seq {e \<in> S. author e = a}))"

definition slot_of :: "event set \<Rightarrow> event_id option" where
  "slot_of S = (if S = {} then None else Some (ev_id (THE e. e \<in> S)))"

definition index_of :: "(event_id \<rightharpoonup> event) \<Rightarrow> event_log" where
  "index_of M =
     \<lparr>l_events = M,
      l_by_conversation = (\<lambda>c. keys_of (conv_set M c)),
      l_messages_by_author = (\<lambda>(c, a). keys_of {e \<in> conv_set M c. author e = a \<and> kind e = Message}),
      l_replica_v2 = {c. \<exists>e\<in>conv_set M c. kind e = ChannelReplica},
      l_history_v3 = {c. \<exists>e\<in>conv_set M c. kind e = ChannelHistoryPolicy \<or> kind e = ChannelJoinHistory},
      l_account_v4 =
        {c. \<exists>e\<in>conv_set M c. kind e = ChannelAccountAuthority \<or> kind e = ChannelDeviceInheritance},
      l_metadata_v5 = {c. \<exists>e\<in>conv_set M c. kind e = ChannelMetadata},
      l_heads = (\<lambda>c. frontier_of (conv_set M c)),
      l_version = (\<lambda>c. version_of (conv_set M c)),
      l_max_lamport = (\<lambda>c. greatest_of lamport (conv_set M c)),
      l_author_seq = (\<lambda>(c, a, s). slot_of {e \<in> conv_set M c. author e = a \<and> seq e = s})\<rparr>"

text \<open>
  What the events of a log satisfy among themselves: each is stored under its own id and passed
  the checks of \<open>validate\<close>, its parents are there and in its conversation, the parent edges have
  no cycle, and no author has two events at one sequence number of a conversation.
\<close>

definition parent_edges :: "(event_id \<rightharpoonup> event) \<Rightarrow> (event_id \<times> event_id) set" where
  "parent_edges M = {(p, i). \<exists>e. M i = Some e \<and> p \<in> set (parents e)}"

definition event_valid :: "crypto_env \<Rightarrow> event \<Rightarrow> bool" where
  "event_valid cr e \<longleftrightarrow> is_canonical e \<and> verify_integrity cr e \<and> verify_signature cr e"

definition event_dag :: "crypto_env \<Rightarrow> (event_id \<rightharpoonup> event) \<Rightarrow> bool" where
  "event_dag cr M \<longleftrightarrow>
     finite (dom M)
     \<and> (\<forall>i e. M i = Some e \<longrightarrow> ev_id e = i \<and> event_valid cr e)
     \<and> (\<forall>i e p. M i = Some e \<longrightarrow> p \<in> set (parents e)
          \<longrightarrow> (\<exists>q. M p = Some q \<and> conversation_id q = conversation_id e))
     \<and> acyclic (parent_edges M)
     \<and> (\<forall>e\<in>ran M. \<forall>f\<in>ran M. conversation_id e = conversation_id f \<longrightarrow> author e = author f
          \<longrightarrow> seq e = seq f \<longrightarrow> ev_id e = ev_id f)"

definition log_wf :: "crypto_env \<Rightarrow> event_log \<Rightarrow> bool" where
  "log_wf cr l \<longleftrightarrow> event_dag cr (l_events l) \<and> l = index_of (l_events l)"

section \<open>Adding an event to the specification\<close>

lemma conv_set_upd:
  assumes "M i = None"
  shows "conv_set (M(i \<mapsto> e)) c = (if conversation_id e = c then insert e (conv_set M c) else conv_set M c)"
proof -
  have "ran (M(i \<mapsto> e)) = insert e (ran M)" using assms by (rule ran_map_upd)
  then show ?thesis by (auto simp: conv_set_def)
qed

lemma finite_conv_set: "finite (dom M) \<Longrightarrow> finite (conv_set M c)"
  by (rule finite_subset [of _ "ran M"]) (auto simp: conv_set_def intro: finite_ran)

lemma sorted_list_of_set_insert_eq:
  "finite S \<Longrightarrow> sorted_list_of_set (insert x S) = insort_insert x (sorted_list_of_set S)"
  for x :: "'a::linorder"
  by (rule ascending_unique)
    (simp_all add: sorted_insort_insert distinct_insort_insert set_insort_insert
      del: sorted_list_of_set_insert_remove)

lemma keys_of_insert:
  "finite S \<Longrightarrow> keys_of (insert e S)
     = Some (insort_insert (order_key_of e) (case keys_of S of None \<Rightarrow> [] | Some ks \<Rightarrow> ks))"
  by (simp add: keys_of_def sorted_list_of_set_insert_eq del: sorted_list_of_set_insert_remove)

lemma greatest_of_insert:
  "finite S \<Longrightarrow> greatest_of f (insert e S)
     = Some (case greatest_of f S of None \<Rightarrow> f e | Some m \<Rightarrow> max (f e) m)"
  by (auto simp: greatest_of_def)

lemma greatest_of_word:
  fixes f :: "'b \<Rightarrow> 'a::len word"
  assumes "finite S" and "s = (case greatest_of f S of None \<Rightarrow> 0 | Some v \<Rightarrow> v)"
  shows "greatest_of f (insert e S) = Some (if f e > s then f e else s)"
  using assms
  by (auto simp: greatest_of_insert max_def word_gt_0 not_less split: option.splits)

lemma frontier_of_profile:
  "kind e = Profile \<Longrightarrow> frontier_of (insert e S) = frontier_of S"
proof -
  assume "kind e = Profile"
  then have "{x \<in> insert e S. kind x \<noteq> Profile} = {x \<in> S. kind x \<noteq> Profile}" by auto
  then show ?thesis by (simp add: frontier_of_def)
qed

lemma frontier_of_insert:
  assumes "kind e \<noteq> Profile"
    and "\<forall>f\<in>S. ev_id e \<notin> set (parents f)"
    and "ev_id e \<notin> set (parents e)"
  shows "frontier_of (insert e S)
    = Some (insert (ev_id e) ((case frontier_of S of None \<Rightarrow> {} | Some H \<Rightarrow> H) - set (parents e)))"
proof -
  let ?T = "{x \<in> S. kind x \<noteq> Profile}"
  have T: "{x \<in> insert e S. kind x \<noteq> Profile} = insert e ?T" using assms(1) by auto
  have "{ev_id x | x. x \<in> insert e ?T \<and> (\<forall>f\<in>insert e ?T. ev_id x \<notin> set (parents f))}
    = insert (ev_id e) ({ev_id x | x. x \<in> ?T \<and> (\<forall>f\<in>?T. ev_id x \<notin> set (parents f))} - set (parents e))"
    using assms(2,3) by auto
  moreover have "(case frontier_of S of None \<Rightarrow> {} | Some H \<Rightarrow> H)
    = {ev_id x | x. x \<in> ?T \<and> (\<forall>f\<in>?T. ev_id x \<notin> set (parents f))}"
    by (auto simp: frontier_of_def Let_def)
  ultimately show ?thesis unfolding frontier_of_def T Let_def by simp
qed

lemma version_of_insert:
  assumes "finite S" and V: "V = (case version_of S of None \<Rightarrow> Map.empty | Some v \<Rightarrow> v)"
    and s: "s = (case V (author e) of None \<Rightarrow> 0 | Some v \<Rightarrow> v)"
  shows "version_of (insert e S) = Some (V(author e \<mapsto> (if seq e > s then seq e else s)))"
proof -
  have V': "V a = greatest_of seq {x \<in> S. author x = a}" for a
    by (auto simp: V version_of_def greatest_of_def)
  have same: "{x \<in> insert e S. author x = author e} = insert e {x \<in> S. author x = author e}" by auto
  have other: "{x \<in> insert e S. author x = a} = {x \<in> S. author x = a}" if "a \<noteq> author e" for a
    using that by auto
  have "greatest_of seq {x \<in> insert e S. author x = a}
    = (V(author e \<mapsto> (if seq e > s then seq e else s))) a" for a
  proof (cases "a = author e")
    case True
    have "greatest_of seq (insert e {x \<in> S. author x = author e})
      = Some (if seq e > s then seq e else s)"
      using assms(1) by (intro greatest_of_word) (simp_all add: s V')
    with True show ?thesis by (simp only: same fun_upd_same)
  next
    case False
    then show ?thesis unfolding other [OF False] by (simp add: V')
  qed
  then have "(\<lambda>a. greatest_of seq {x \<in> insert e S. author x = a})
    = V(author e \<mapsto> (if seq e > s then seq e else s))" by (rule ext)
  then show ?thesis by (simp only: version_of_def) simp
qed

lemma slot_of_singleton: "slot_of {e} = Some (ev_id e)"
  by (simp add: slot_of_def)

text \<open>The event is new: no stored event is under its id, refers to it or shares its slot.\<close>

definition fresh_event :: "(event_id \<rightharpoonup> event) \<Rightarrow> event \<Rightarrow> bool" where
  "fresh_event M e \<longleftrightarrow>
     M (ev_id e) = None
     \<and> (\<forall>p\<in>set (parents e). \<exists>q. M p = Some q \<and> conversation_id q = conversation_id e)
     \<and> (\<forall>f\<in>ran M. ev_id e \<notin> set (parents f))
     \<and> (\<forall>f\<in>ran M. conversation_id f = conversation_id e \<longrightarrow> author f = author e \<longrightarrow> seq f \<noteq> seq e)"

lemma index_of_heads_upd:
  assumes "fresh_event M e"
  shows "(if kind e \<noteq> Profile
      then (\<lambda>c. frontier_of (conv_set M c))(conversation_id e \<mapsto>
        insert (ev_id e) (entry_or {} (\<lambda>c. frontier_of (conv_set M c)) (conversation_id e) - set (parents e)))
      else (\<lambda>c. frontier_of (conv_set M c)))
    = (\<lambda>c. frontier_of (conv_set (M(ev_id e \<mapsto> e)) c))"
proof -
  from assms have new: "M (ev_id e) = None"
    and refs: "\<forall>f\<in>conv_set M (conversation_id e). ev_id e \<notin> set (parents f)"
    and self: "ev_id e \<notin> set (parents e)"
    by (auto simp: fresh_event_def conv_set_def)
  show ?thesis
    by (cases "kind e = Profile")
      (auto simp: fun_eq_iff conv_set_upd [of M "ev_id e" e, OF new] frontier_of_profile
        frontier_of_insert [OF _ refs self] entry_or_def)
qed

lemma index_of_version_upd:
  assumes "M (ev_id e) = None" and "finite (dom M)"
    and "V = entry_or Map.empty (\<lambda>c. version_of (conv_set M c)) (conversation_id e)"
    and "s = entry_or 0 V (author e)"
  shows "(\<lambda>c. version_of (conv_set M c))(conversation_id e \<mapsto>
      V(author e \<mapsto> (if seq e > s then seq e else s)))
    = (\<lambda>c. version_of (conv_set (M(ev_id e \<mapsto> e)) c))"
proof -
  have "version_of (insert e (conv_set M (conversation_id e)))
    = Some (V(author e \<mapsto> (if seq e > s then seq e else s)))"
    using assms by (intro version_of_insert) (simp_all add: finite_conv_set entry_or_def)
  then show ?thesis by (auto simp: fun_eq_iff conv_set_upd [of M "ev_id e" e, OF assms(1)])
qed

lemma index_of_lamport_upd:
  assumes "M (ev_id e) = None" and "finite (dom M)"
    and "s = entry_or 0 (\<lambda>c. greatest_of lamport (conv_set M c)) (conversation_id e)"
  shows "(\<lambda>c. greatest_of lamport (conv_set M c))(conversation_id e \<mapsto>
      (if lamport e > s then lamport e else s))
    = (\<lambda>c. greatest_of lamport (conv_set (M(ev_id e \<mapsto> e)) c))"
proof -
  have "greatest_of lamport (insert e (conv_set M (conversation_id e)))
    = Some (if lamport e > s then lamport e else s)"
    using assms by (intro greatest_of_word) (simp_all add: finite_conv_set entry_or_def)
  then show ?thesis by (auto simp: fun_eq_iff conv_set_upd [of M "ev_id e" e, OF assms(1)])
qed

lemma index_of_slot_upd:
  assumes "fresh_event M e"
  shows "(\<lambda>(c, a, s). slot_of {x \<in> conv_set M c. author x = a \<and> seq x = s})
      ((conversation_id e, author e, seq e) \<mapsto> ev_id e)
    = (\<lambda>(c, a, s). slot_of {x \<in> conv_set (M(ev_id e \<mapsto> e)) c. author x = a \<and> seq x = s})"
proof -
  from assms have new: "M (ev_id e) = None" by (simp add: fresh_event_def)
  have only: "{x \<in> insert e (conv_set M (conversation_id e)). author x = author e \<and> seq x = seq e} = {e}"
    using assms by (auto simp: fresh_event_def conv_set_def)
  have other: "{x \<in> insert e S. author x = a \<and> seq x = s} = {x \<in> S. author x = a \<and> seq x = s}"
    if "(a, s) \<noteq> (author e, seq e)" for a s S
    using that by auto
  have "((\<lambda>(c, a, s). slot_of {x \<in> conv_set M c. author x = a \<and> seq x = s})
      ((conversation_id e, author e, seq e) \<mapsto> ev_id e)) (c, a, s)
    = slot_of {x \<in> conv_set (M(ev_id e \<mapsto> e)) c. author x = a \<and> seq x = s}" for c a s
  proof (cases "c = conversation_id e")
    case c: True
    show ?thesis
    proof (cases "(a, s) = (author e, seq e)")
      case True
      then show ?thesis using only by (simp add: c conv_set_upd [of M "ev_id e" e, OF new] slot_of_singleton)
    next
      case False
      then show ?thesis using other [OF False] by (auto simp: c conv_set_upd [of M "ev_id e" e, OF new])
    qed
  next
    case False
    then show ?thesis by (simp add: conv_set_upd [of M "ev_id e" e, OF new])
  qed
  then show ?thesis by (simp add: fun_eq_iff)
qed

lemma index_of_keys_upd:
  assumes "M (ev_id e) = None" and "finite (dom M)"
  shows "(\<lambda>c. keys_of (conv_set M c))(conversation_id e \<mapsto>
      insort_insert (order_key_of e) (entry_or [] (\<lambda>c. keys_of (conv_set M c)) (conversation_id e)))
    = (\<lambda>c. keys_of (conv_set (M(ev_id e \<mapsto> e)) c))"
  using assms
  by (auto simp: fun_eq_iff conv_set_upd [of M "ev_id e" e, OF assms(1)] keys_of_insert finite_conv_set entry_or_def)

lemma index_of_messages_upd:
  assumes "M (ev_id e) = None" and "finite (dom M)"
    and "K = (\<lambda>(c, a). keys_of {x \<in> conv_set M c. author x = a \<and> kind x = Message})"
  shows "(if kind e = Message
      then K((conversation_id e, author e) \<mapsto>
        insort_insert (order_key_of e) (entry_or [] K (conversation_id e, author e)))
      else K)
    = (\<lambda>(c, a). keys_of {x \<in> conv_set (M(ev_id e \<mapsto> e)) c. author x = a \<and> kind x = Message})"
proof -
  have same: "{x \<in> insert e S. author x = author e \<and> kind x = Message}
      = insert e {x \<in> S. author x = author e \<and> kind x = Message}" if "kind e = Message" for S
    using that by auto
  have other: "{x \<in> insert e S. author x = a \<and> kind x = Message}
      = {x \<in> S. author x = a \<and> kind x = Message}" if "kind e \<noteq> Message \<or> a \<noteq> author e" for a S
    using that by auto
  have fin: "finite {x \<in> conv_set M c. P x}" for c P
    using finite_conv_set [OF assms(2)] by simp
  show ?thesis
  proof (cases "kind e = Message")
    case True
    then show ?thesis
      by (auto simp: fun_eq_iff assms(3) conv_set_upd [of M "ev_id e" e, OF assms(1)] entry_or_def
          same [OF True, simplified] other [simplified] keys_of_insert [OF fin])
  next
    case False
    then show ?thesis
      by (auto simp: fun_eq_iff assms(3) conv_set_upd [of M "ev_id e" e, OF assms(1)] other [simplified])
  qed
qed

lemma index_of_kind_upd:
  assumes "M (ev_id e) = None"
  shows "(if P (kind e) then insert (conversation_id e) {c. \<exists>x\<in>conv_set M c. P (kind x)}
      else {c. \<exists>x\<in>conv_set M c. P (kind x)})
    = {c. \<exists>x\<in>conv_set (M(ev_id e \<mapsto> e)) c. P (kind x)}"
  by (auto simp: conv_set_upd [of M "ev_id e" e, OF assms])

lemma index_trusted_index_of:
  assumes "fresh_event M e" and "finite (dom M)"
  shows "index_trusted (index_of M) e = index_of (M(ev_id e \<mapsto> e))"
proof -
  from assms(1) have new: "M (ev_id e) = None" by (simp add: fresh_event_def)
  note kinds = index_of_kind_upd [of M e "\<lambda>k. k = ChannelReplica", OF new]
    index_of_kind_upd [of M e "\<lambda>k. k = ChannelHistoryPolicy \<or> k = ChannelJoinHistory", OF new]
    index_of_kind_upd [of M e "\<lambda>k. k = ChannelAccountAuthority \<or> k = ChannelDeviceInheritance", OF new]
    index_of_kind_upd [of M e "\<lambda>k. k = ChannelMetadata", OF new]
  show ?thesis
    unfolding index_trusted_def index_of_def Let_def event_log.simps
    unfolding index_of_heads_upd [OF assms(1)] index_of_slot_upd [OF assms(1)]
      index_of_version_upd [of M e, OF new assms(2) refl refl]
      index_of_lamport_upd [of M e, OF new assms(2) refl] index_of_keys_upd [of M e, OF new assms(2)]
      index_of_messages_upd [of M e, OF new assms(2) refl] kinds
    by simp
qed

section \<open>Validation\<close>

lemma index_of_simps [simp]:
  "l_events (index_of M) = M"
  "l_by_conversation (index_of M) c = keys_of (conv_set M c)"
  "l_heads (index_of M) c = frontier_of (conv_set M c)"
  "l_version (index_of M) c = version_of (conv_set M c)"
  "l_max_lamport (index_of M) c = greatest_of lamport (conv_set M c)"
  "l_author_seq (index_of M) (c, a, s) = slot_of {e \<in> conv_set M c. author e = a \<and> seq e = s}"
  "l_messages_by_author (index_of M) (c, a) = keys_of {e \<in> conv_set M c. author e = a \<and> kind e = Message}"
  by (simp_all add: index_of_def)

lemma event_dagD:
  assumes "event_dag cr M"
  shows "finite (dom M)"
    and "M i = Some e \<Longrightarrow> ev_id e = i"
    and "M i = Some e \<Longrightarrow> event_valid cr e"
    and "M i = Some e \<Longrightarrow> p \<in> set (parents e) \<Longrightarrow> \<exists>q. M p = Some q \<and> conversation_id q = conversation_id e"
    and "acyclic (parent_edges M)"
    and "e \<in> ran M \<Longrightarrow> f \<in> ran M \<Longrightarrow> conversation_id e = conversation_id f \<Longrightarrow> author e = author f
      \<Longrightarrow> seq e = seq f \<Longrightarrow> e = f"
proof -
  show "e = f" if "e \<in> ran M" "f \<in> ran M" "conversation_id e = conversation_id f"
    "author e = author f" "seq e = seq f" for e f
  proof -
    from that assms have "ev_id e = ev_id f" unfolding event_dag_def by blast
    moreover from that obtain i j where "M i = Some e" "M j = Some f" by (auto simp: ran_def)
    ultimately show ?thesis using assms unfolding event_dag_def by auto
  qed
qed (use assms in \<open>auto simp: event_dag_def\<close>)

lemma conv_setD:
  assumes "event_dag cr M" and "e \<in> conv_set M c"
  shows "M (ev_id e) = Some e" and "conversation_id e = c"
  using assms by (auto simp: conv_set_def ran_def event_dag_def)

lemma conv_setI: "M i = Some e \<Longrightarrow> conversation_id e = c \<Longrightarrow> e \<in> conv_set M c"
  by (auto simp: conv_set_def intro: ranI)

lemma finite_parent_edges: "finite (dom M) \<Longrightarrow> finite (parent_edges M)"
proof -
  assume fin: "finite (dom M)"
  have "parent_edges M = (\<Union>e\<in>ran M. \<Union>i\<in>{i. M i = Some e}. set (parents e) \<times> {i})"
    by (auto simp: parent_edges_def intro: ranI)
  moreover have "finite {i. M i = Some e}" for e
    by (rule finite_subset [OF _ fin]) auto
  ultimately show ?thesis using finite_ran [OF fin] by simp
qed

lemma acyclic_add_sink:
  assumes "acyclic r" and "i \<notin> Domain r" and "i \<notin> P"
  shows "acyclic (r \<union> P \<times> {i})"
proof -
  have path: "b = i \<or> (a, b) \<in> r\<^sup>+" if "(a, b) \<in> (r \<union> P \<times> {i})\<^sup>+" for a b
    using that
  proof (induction rule: trancl_induct)
    case (base y)
    then show ?case by auto
  next
    case (step y z)
    show ?case
    proof (cases "z = i")
      case False
      with step.hyps have "(y, z) \<in> r" by auto
      moreover from this assms(2) have "y \<noteq> i" by auto
      ultimately show ?thesis using step.IH by (auto intro: trancl_into_trancl)
    qed simp
  qed
  show ?thesis
  proof (rule acyclicI, rule allI, rule notI)
    fix x
    assume cyc: "(x, x) \<in> (r \<union> P \<times> {i})\<^sup>+"
    then have "x \<in> Domain (r \<union> P \<times> {i})" by (metis DomainI tranclD)
    then have "x \<noteq> i" using assms(2,3) by auto
    with path [OF cyc] assms(1) show False by (auto simp: acyclic_def)
  qed
qed

lemma event_dag_upd:
  assumes dag: "event_dag cr M" and fresh: "fresh_event M e" and val: "event_valid cr e"
  shows "event_dag cr (M(ev_id e \<mapsto> e))"
proof -
  from fresh have new: "M (ev_id e) = None" by (simp add: fresh_event_def)
  have edges: "parent_edges (M(ev_id e \<mapsto> e)) = parent_edges M \<union> set (parents e) \<times> {ev_id e}"
    using new by (auto simp: parent_edges_def)
  have "ev_id e \<notin> Domain (parent_edges M)" and "ev_id e \<notin> set (parents e)"
    using fresh by (auto simp: fresh_event_def parent_edges_def intro: ranI)
  then have "acyclic (parent_edges (M(ev_id e \<mapsto> e)))"
    unfolding edges by (rule acyclic_add_sink [OF event_dagD(5) [OF dag]])
  moreover have "\<exists>q. (M(ev_id e \<mapsto> e)) p = Some q \<and> conversation_id q = conversation_id f"
    if "(M(ev_id e \<mapsto> e)) i = Some f" "p \<in> set (parents f)" for i f p
  proof -
    from that have "\<exists>q. M p = Some q \<and> conversation_id q = conversation_id f"
      using fresh event_dagD(4) [OF dag] by (auto simp: fresh_event_def split: if_splits)
    then show ?thesis using new by auto
  qed
  moreover have "ev_id x = ev_id y"
    if "x \<in> ran (M(ev_id e \<mapsto> e))" "y \<in> ran (M(ev_id e \<mapsto> e))"
      "conversation_id x = conversation_id y" "author x = author y" "seq x = seq y" for x y
  proof -
    have "ran (M(ev_id e \<mapsto> e)) = insert e (ran M)" using new by (rule ran_map_upd)
    with that fresh event_dagD(6) [OF dag, of x y] show ?thesis
      by (force simp: fresh_event_def)
  qed
  moreover have "ev_id f = i \<and> event_valid cr f" if "(M(ev_id e \<mapsto> e)) i = Some f" for i f
    using that val event_dagD(2,3) [OF dag] by (auto split: if_splits)
  moreover have "finite (dom (M(ev_id e \<mapsto> e)))" using event_dagD(1) [OF dag] by simp
  ultimately show ?thesis unfolding event_dag_def by blast
qed

lemma missing_parents_Nil:
  "missing_parents l e = [] \<longleftrightarrow>
     (\<forall>p\<in>set (parents e). \<exists>q. l_events l p = Some q \<and> conversation_id q = conversation_id e)"
  by (auto simp: missing_parents_def filter_empty_conv)

lemma slot_of_None: "slot_of S = None \<longleftrightarrow> S = {}"
  by (simp add: slot_of_def)

lemma log_wf_author_seq:
  assumes "log_wf cr l"
  shows "l_author_seq l (c, a, s) = Some i \<longleftrightarrow>
    (\<exists>e. l_events l i = Some e \<and> conversation_id e = c \<and> author e = a \<and> seq e = s)"
proof -
  let ?S = "{e \<in> conv_set (l_events l) c. author e = a \<and> seq e = s}"
  from assms have dag: "event_dag cr (l_events l)" and l: "l = index_of (l_events l)"
    by (auto simp: log_wf_def)
  have slot: "l_author_seq l (c, a, s) = slot_of ?S" by (subst l) simp
  have uniq: "?S = {e}" if "e \<in> ?S" for e
    using that event_dagD(6) [OF dag] by (auto simp: conv_set_def)
  show ?thesis
  proof
    assume "l_author_seq l (c, a, s) = Some i"
    then have S: "slot_of ?S = Some i" using slot by simp
    then obtain e where e: "e \<in> ?S" using slot_of_None [of ?S] by auto
    from S have "ev_id e = i" by (simp add: uniq [OF e] slot_of_singleton)
    with e show "\<exists>e. l_events l i = Some e \<and> conversation_id e = c \<and> author e = a \<and> seq e = s"
      using conv_setD [OF dag, of e c] by auto
  next
    assume "\<exists>e. l_events l i = Some e \<and> conversation_id e = c \<and> author e = a \<and> seq e = s"
    then obtain e where e: "l_events l i = Some e" "e \<in> ?S" by (auto intro: conv_setI)
    then show "l_author_seq l (c, a, s) = Some i"
      using event_dagD(2) [OF dag e(1)] by (simp add: slot uniq [OF e(2)] slot_of_singleton)
  qed
qed

lemma log_wf_empty: "log_wf cr event_log_default"
proof -
  have "conv_set Map.empty c = {}" for c by (simp add: conv_set_def)
  then have "event_log_default = index_of Map.empty"
    by (auto simp: event_log_default_def index_of_def keys_of_def frontier_of_def version_of_def
        greatest_of_def slot_of_def fun_eq_iff)
  then show ?thesis
    by (simp add: log_wf_def event_log_default_def event_dag_def parent_edges_def acyclic_def)
qed

text \<open>What \<open>validate\<close> accepts, on a well-formed log.\<close>

lemma validate_True_iff:
  assumes wf: "log_wf cr l"
  shows "validate cr l e = Inr True \<longleftrightarrow> event_valid cr e \<and> fresh_event (l_events l) e"
proof -
  from wf have dag: "event_dag cr (l_events l)" by (simp add: log_wf_def)
  have refs: "ev_id e \<notin> set (parents f)" if "l_events l (ev_id e) = None" "f \<in> ran (l_events l)" for f
    using that event_dagD(4) [OF dag] by (force simp: ran_def)
  have slot: "l_author_seq l (conversation_id e, author e, seq e) = None \<longleftrightarrow>
    (\<forall>f\<in>ran (l_events l). conversation_id f = conversation_id e \<longrightarrow> author f = author e \<longrightarrow> seq f \<noteq> seq e)"
  proof -
    have "l_author_seq l (conversation_id e, author e, seq e) = None
      \<longleftrightarrow> (\<forall>i. l_author_seq l (conversation_id e, author e, seq e) \<noteq> Some i)"
      by simp
    then show ?thesis by (simp only: log_wf_author_seq [OF wf]) (auto simp: ran_def)
  qed
  have same: "l_author_seq l (conversation_id e, author e, seq e) \<noteq> Some (ev_id e)"
    if "l_events l (ev_id e) = None"
    using that log_wf_author_seq [OF wf, of "conversation_id e" "author e" "seq e" "ev_id e"] by auto
  have "validate cr l e = Inr True \<longleftrightarrow> event_valid cr e \<and> l_events l (ev_id e) = None
    \<and> missing_parents l e = []
    \<and> l_author_seq l (conversation_id e, author e, seq e) \<in> {None, Some (ev_id e)}"
    by (auto simp: validate_def event_valid_def Let_def split: option.splits)
  also have "\<dots> \<longleftrightarrow> event_valid cr e \<and> l_events l (ev_id e) = None
    \<and> missing_parents l e = [] \<and> l_author_seq l (conversation_id e, author e, seq e) = None"
    using same by auto
  also have "\<dots> \<longleftrightarrow> event_valid cr e \<and> fresh_event (l_events l) e"
    unfolding slot missing_parents_Nil fresh_event_def using refs by blast
  finally show ?thesis .
qed

lemma validate_False_iff:
  "validate cr l e = Inr False \<longleftrightarrow> event_valid cr e \<and> l_events l (ev_id e) \<noteq> None"
  by (auto simp: validate_def event_valid_def Let_def split: option.splits if_splits)

lemma log_append_cases:
  assumes "log_wf cr l" and "log_append cr l e = Inr (outcome, l')"
  obtains (dup) "outcome = Duplicate" "l' = l" "event_valid cr e" "l_events l (ev_id e) \<noteq> None"
  | (new) "outcome = Appended" "event_valid cr e" "fresh_event (l_events l) e"
      "l_events l' = (l_events l)(ev_id e \<mapsto> e)" "log_wf cr l'"
proof (cases "validate cr l e")
  case (Inl err)
  with assms(2) show thesis by (simp add: log_append_def)
next
  case (Inr b)
  show thesis
  proof (cases b)
    case True
    with Inr have v: "event_valid cr e" "fresh_event (l_events l) e"
      using validate_True_iff [OF assms(1)] by auto
    have dag: "event_dag cr (l_events l)" and l: "l = index_of (l_events l)"
      using assms(1) by (auto simp: log_wf_def)
    have "l' = index_trusted l e" "outcome = Appended"
      using Inr True assms(2) by (auto simp: log_append_def)
    moreover have "index_trusted l e = index_of ((l_events l)(ev_id e \<mapsto> e))"
      using index_trusted_index_of [OF v(2) event_dagD(1) [OF dag]] l by simp
    ultimately show thesis
      using event_dag_upd [OF dag v(2,1)] v by (intro new) (auto simp: log_wf_def)
  next
    case False
    with Inr assms(2) validate_False_iff [of cr l e] show thesis
      by (intro dup) (auto simp: log_append_def)
  qed
qed

lemma log_append_wf: "log_wf cr l \<Longrightarrow> log_append cr l e = Inr (outcome, l') \<Longrightarrow> log_wf cr l'"
  by (auto elim: log_append_cases)

lemma log_append_error_is_peer_rejection: "log_append cr l e = Inl err \<Longrightarrow> is_peer_rejection err"
  by (auto simp: log_append_def validate_def Let_def split: sum.splits bool.splits if_splits option.splits)

lemma log_append_new:
  assumes "log_wf cr l" and "event_valid cr e" and "fresh_event (l_events l) e"
  obtains l' where "log_append cr l e = Inr (Appended, l')" and "log_wf cr l'"
    and "l_events l' = (l_events l)(ev_id e \<mapsto> e)"
proof -
  have "log_append cr l e = Inr (Appended, index_trusted l e)"
    using validate_True_iff [OF assms(1), of e] assms(2,3) by (simp add: log_append_def)
  from log_append_cases [OF assms(1) this] this that show thesis by blast
qed

lemma log_append_new_iff:
  assumes "log_wf cr l"
  shows "log_append cr l e = Inr (Appended, l') \<longleftrightarrow>
    event_valid cr e \<and> fresh_event (l_events l) e \<and> l' = index_of ((l_events l)(ev_id e \<mapsto> e))"
proof
  assume app: "log_append cr l e = Inr (Appended, l')"
  from assms app show "event_valid cr e \<and> fresh_event (l_events l) e \<and> l' = index_of ((l_events l)(ev_id e \<mapsto> e))"
    by (cases rule: log_append_cases) (auto simp: log_wf_def)
next
  assume r: "event_valid cr e \<and> fresh_event (l_events l) e \<and> l' = index_of ((l_events l)(ev_id e \<mapsto> e))"
  then obtain l'' where l'': "log_append cr l e = Inr (Appended, l'')" "log_wf cr l''"
    "l_events l'' = (l_events l)(ev_id e \<mapsto> e)"
    using log_append_new [OF assms] by blast
  then have "l'' = l'" using r by (simp add: log_wf_def)
  with l''(1) show "log_append cr l e = Inr (Appended, l')" by simp
qed

text \<open>What the error of a refused event says about it.\<close>

definition refusal_reason :: "crypto_env \<Rightarrow> event_log \<Rightarrow> event \<Rightarrow> log_error \<Rightarrow> bool" where
  "refusal_reason cr l e err \<longleftrightarrow>
     (case err of
        NonCanonical \<Rightarrow> \<not> is_canonical e
      | CorruptId \<Rightarrow> \<not> verify_integrity cr e
      | BadSignature \<Rightarrow> \<not> verify_signature cr e
      | MissingParents ps \<Rightarrow>
          ps \<noteq> [] \<and> set ps = {p \<in> set (parents e). \<nexists>q. l_events l p = Some q \<and> conversation_id q = conversation_id e}
      | AuthorEquivocation a s \<Rightarrow>
          a = author e \<and> s = seq e
          \<and> (\<exists>f \<in> ran (l_events l). conversation_id f = conversation_id e \<and> author f = a \<and> seq f = s \<and> f \<noteq> e)
      | _ \<Rightarrow> False)"

lemma log_append_refusal:
  assumes wf: "log_wf cr l"
  shows "log_append cr l e = Inl err \<Longrightarrow> refusal_reason cr l e err"
proof -
  assume "log_append cr l e = Inl err"
  then have v: "validate cr l e = Inl err" by (auto simp: log_append_def split: sum.splits bool.splits)
  have missing: "set (missing_parents l e)
      = {p \<in> set (parents e). \<nexists>q. l_events l p = Some q \<and> conversation_id q = conversation_id e}"
    by (auto simp: missing_parents_def)
  have slot: "\<exists>f \<in> ran (l_events l). conversation_id f = conversation_id e \<and> author f = author e \<and> seq f = seq e \<and> f \<noteq> e"
    if "l_author_seq l (conversation_id e, author e, seq e) = Some i" "i \<noteq> ev_id e" for i
  proof -
    from that(1) obtain f where f: "l_events l i = Some f" "conversation_id f = conversation_id e" "author f = author e" "seq f = seq e"
      unfolding log_wf_author_seq [OF wf] by blast
    moreover have "event_dag cr (l_events l)" using wf by (simp add: log_wf_def)
    then have "ev_id f = i" using event_dagD(2) f(1) by blast
    ultimately show ?thesis using that(2) by (auto intro: ranI)
  qed
  show "refusal_reason cr l e err"
    using v missing slot
    by (auto simp: validate_def refusal_reason_def Let_def split: if_splits option.splits)
qed

section \<open>Queries\<close>

lemma log_wfD:
  assumes "log_wf cr l"
  shows "event_dag cr (l_events l)" and "finite (conv_set (l_events l) c)"
    and "l_by_conversation l c = keys_of (conv_set (l_events l) c)"
    and "l_messages_by_author l (c, a)
      = keys_of {e \<in> conv_set (l_events l) c. author e = a \<and> kind e = Message}"
    and "l_heads l c = frontier_of (conv_set (l_events l) c)"
    and "l_version l c = version_of (conv_set (l_events l) c)"
    and "l_max_lamport l c = greatest_of lamport (conv_set (l_events l) c)"
proof -
  from assms have dag: "event_dag cr (l_events l)" and l: "l = index_of (l_events l)"
    by (auto simp: log_wf_def)
  show "event_dag cr (l_events l)" by (rule dag)
  show "finite (conv_set (l_events l) c)" by (rule finite_conv_set [OF event_dagD(1) [OF dag]])
  show "l_by_conversation l c = keys_of (conv_set (l_events l) c)" by (subst l) simp
  show "l_messages_by_author l (c, a)
      = keys_of {e \<in> conv_set (l_events l) c. author e = a \<and> kind e = Message}" by (subst l) simp
  show "l_heads l c = frontier_of (conv_set (l_events l) c)" by (subst l) simp
  show "l_version l c = version_of (conv_set (l_events l) c)" by (subst l) simp
  show "l_max_lamport l c = greatest_of lamport (conv_set (l_events l) c)" by (subst l) simp
qed

lemma map_filter_inverse:
  "(\<And>k. k \<in> set ks \<Longrightarrow> \<exists>e. f k = Some e \<and> g e = k) \<Longrightarrow> map g (List.map_filter f ks) = ks"
proof (induction ks)
  case (Cons k ks)
  then obtain e where "f k = Some e" "g e = k" by auto
  with Cons show ?case by (simp add: map_filter_simps)
qed (simp add: map_filter_simps)

lemma set_map_filter: "set (List.map_filter f ks) = {e. \<exists>k\<in>set ks. f k = Some e}"
  by (induction ks) (auto simp: map_filter_simps split: option.splits)

lemma log_events_keys:
  assumes wf: "log_wf cr l"
  shows "map order_key_of (log_events l c) = sorted_list_of_set (order_key_of ` conv_set (l_events l) c)"
    and "set (log_events l c) = conv_set (l_events l) c"
proof -
  let ?S = "conv_set (l_events l) c"
  note dag = log_wfD(1) [OF wf] and fin = log_wfD(2) [OF wf, of c]
  have keys: "\<exists>e. (case k of (_, i) \<Rightarrow> l_events l i) = Some e \<and> order_key_of e = k"
    if "k \<in> set (sorted_list_of_set (order_key_of ` ?S))" for k
    using that fin conv_setD(1) [OF dag] by force
  show "map order_key_of (log_events l c) = sorted_list_of_set (order_key_of ` ?S)"
    using map_filter_inverse [OF keys]
    by (auto simp: log_events_def log_wfD(3) [OF wf] keys_of_def)
  show "set (log_events l c) = ?S"
  proof (cases "?S = {}")
    case False
    have "set (log_events l c) = {e. \<exists>k\<in>order_key_of ` ?S. (case k of (_, i) \<Rightarrow> l_events l i) = Some e}"
      using False fin by (simp add: log_events_def log_wfD(3) [OF wf] keys_of_def set_map_filter)
    also have "\<dots> = ?S"
      using conv_setD(1) [OF dag] by (force simp: image_iff)
    finally show ?thesis .
  qed (simp add: log_events_def log_wfD(3) [OF wf] keys_of_def)
qed

lemma log_events_ascending:
  assumes "log_wf cr l"
  shows "ascending (map order_key_of (log_events l c))"
  by (simp add: log_events_keys(1) [OF assms])

lemma distinct_log_events: "log_wf cr l \<Longrightarrow> distinct (map ev_id (log_events l c))"
proof -
  assume wf: "log_wf cr l"
  have "distinct (log_events l c)" using log_events_ascending [OF wf] by (metis distinct_map)
  moreover have "inj_on ev_id (set (log_events l c))"
    using conv_setD(1) [OF log_wfD(1) [OF wf]]
    by (intro inj_onI) (metis log_events_keys(2) [OF wf] option.inject)
  ultimately show ?thesis by (simp add: distinct_map)
qed

lemma set_log_heads:
  assumes wf: "log_wf cr l"
  shows "set (log_heads l c) =
    {ev_id e | e. e \<in> conv_set (l_events l) c \<and> kind e \<noteq> Profile
      \<and> (\<forall>f\<in>conv_set (l_events l) c. kind f \<noteq> Profile \<longrightarrow> ev_id e \<notin> set (parents f))}" (is "_ = ?H")
proof -
  have eq: "entry_or {} (l_heads l) c = ?H"
    by (auto simp: entry_or_def log_wfD(5) [OF wf] frontier_of_def Let_def)
  have "finite ?H"
    by (rule finite_subset [of _ "ev_id ` conv_set (l_events l) c"]) (auto simp: log_wfD(2) [OF wf])
  then show ?thesis unfolding log_heads_def eq by simp
qed

text \<open>Every event that is not a profile is an ancestor of a head, or is one.\<close>

lemma heads_cover:
  assumes wf: "log_wf cr l" and e: "e \<in> conv_set (l_events l) c" "kind e \<noteq> Profile"
  shows "\<exists>h\<in>set (log_heads l c). (ev_id e, h) \<in> (parent_edges (l_events l))\<^sup>*"
proof -
  let ?E = "parent_edges (l_events l)"
  note dag = log_wfD(1) [OF wf]
  have "wf (?E\<inverse>)"
    using finite_parent_edges [OF event_dagD(1) [OF dag]] event_dagD(5) [OF dag]
    by (rule finite_acyclic_wf_converse)
  then show ?thesis using e
  proof (induction "ev_id e" arbitrary: e rule: wf_induct_rule)
    case less
    show ?case
    proof (cases "\<exists>f\<in>conv_set (l_events l) c. kind f \<noteq> Profile \<and> ev_id e \<in> set (parents f)")
      case True
      then obtain f where f: "f \<in> conv_set (l_events l) c" "kind f \<noteq> Profile" "ev_id e \<in> set (parents f)"
        by auto
      have edge: "(ev_id e, ev_id f) \<in> ?E"
        using f conv_setD(1) [OF dag f(1)] by (auto simp: parent_edges_def)
      with less.hyps [of f] f obtain h where "h \<in> set (log_heads l c)" "(ev_id f, h) \<in> ?E\<^sup>*" by auto
      with edge show ?thesis by (meson converse_rtrancl_into_rtrancl)
    next
      case False
      then have "ev_id e \<in> set (log_heads l c)"
        using less.prems by (auto simp: set_log_heads [OF wf])
      then show ?thesis by blast
    qed
  qed
qed

lemma greatest_of_bound: "finite S \<Longrightarrow> greatest_of f S = Some m \<Longrightarrow> x \<in> S \<Longrightarrow> f x \<le> m"
  by (auto simp: greatest_of_def split: if_splits)

lemma less_checked_add_1:
  fixes a b c :: "'a::len word"
  assumes "a \<le> b" and "checked_add b 1 = Some c"
  shows "a < c"
proof -
  have "unat c = unat b + 1" using unat_checked_add [OF assms(2)] by simp
  then show ?thesis using assms(1) by (simp add: word_le_nat_alt word_less_nat_alt)
qed

lemma prepare_lamport:
  assumes wf: "log_wf cr l" and "prepare l c = Inr (ps, n)" and "e \<in> conv_set (l_events l) c"
  shows "lamport e < n" and "ps = log_heads l c"
proof -
  from assms(2) have add: "checked_add (entry_or 0 (l_max_lamport l) c) 1 = Some n"
    by (auto simp: prepare_def split: option.splits)
  have "lamport e \<le> entry_or 0 (l_max_lamport l) c"
    using greatest_of_bound [OF log_wfD(2) [OF wf]] assms(3)
    by (auto simp: entry_or_def log_wfD(7) [OF wf] greatest_of_def split: option.splits)
  from less_checked_add_1 [OF this add] show "lamport e < n" .
  show "ps = log_heads l c" using assms(2) by (auto simp: prepare_def split: option.splits)
qed

lemma next_sequence_fresh:
  assumes wf: "log_wf cr l" and "next_sequence l c a = Inr n"
    and e: "e \<in> conv_set (l_events l) c" "author e = a"
  shows "seq e < n"
proof -
  let ?T = "{x \<in> conv_set (l_events l) c. author x = a}"
  from assms(2) have add: "checked_add (entry_or 0 (entry_or Map.empty (l_version l) c) a) 1 = Some n"
    by (auto simp: next_sequence_def split: option.splits)
  have "entry_or 0 (entry_or Map.empty (l_version l) c) a
      = (case greatest_of seq ?T of None \<Rightarrow> 0 | Some v \<Rightarrow> v)"
    using e by (auto simp: entry_or_def log_wfD(6) [OF wf] version_of_def)
  moreover have "seq e \<le> (case greatest_of seq ?T of None \<Rightarrow> 0 | Some v \<Rightarrow> v)"
    using greatest_of_bound [of ?T seq _ e] e log_wfD(2) [OF wf, of c]
    by (auto simp: greatest_of_def)
  ultimately show ?thesis using less_checked_add_1 [OF _ add] by simp
qed

section \<open>Authoring a local event\<close>

lemma entry_heads_eq:
  assumes "log_wf cr l"
  shows "entry_or {} (l_heads l) c = set (log_heads l c)"
proof -
  have "finite (entry_or {} (l_heads l) c)"
    by (rule finite_subset [of _ "ev_id ` conv_set (l_events l) c"])
      (auto simp: entry_or_def log_wfD(5) [OF assms] frontier_of_def Let_def log_wfD(2) [OF assms])
  then show ?thesis by (simp add: log_heads_def)
qed

lemma heads_are_parents:
  assumes "log_wf cr l" and "p \<in> set (log_heads l c)"
  shows "\<exists>q. l_events l p = Some q \<and> conversation_id q = c"
  using assms(2) conv_setD [OF log_wfD(1) [OF assms(1)]]
  by (auto simp: set_log_heads [OF assms(1)])

lemma authored_fresh:
  assumes wf: "log_wf cr l" and prep: "prepare l c = Inr (ps, lam)"
    and sq: "next_sequence l c (author e) = Inr (seq e)"
    and e: "conversation_id e = c" "set (parents e) = set ps" "l_events l (ev_id e) = None"
  shows "fresh_event (l_events l) e"
proof -
  note dag = log_wfD(1) [OF wf]
  have ps: "ps = log_heads l c" using prep by (auto simp: prepare_def split: option.splits)
  have "ev_id e \<notin> set (parents f)" if "f \<in> ran (l_events l)" for f
    using that e(3) event_dagD(4) [OF dag] by (force simp: ran_def)
  moreover have "seq f \<noteq> seq e"
    if "f \<in> ran (l_events l)" "conversation_id f = c" "author f = author e" for f
    using next_sequence_fresh [OF wf sq, of f] that by (auto simp: conv_set_def)
  ultimately show ?thesis
    using e heads_are_parents [OF wf] by (auto simp: fresh_event_def ps)
qed

lemma index_trusted_heads:
  "kind e \<noteq> Profile \<Longrightarrow> l_heads (index_trusted l e) (conversation_id e)
    = Some (insert (ev_id e) (entry_or {} (l_heads l) (conversation_id e) - set (parents e)))"
  by (simp add: index_trusted_def Let_def)

lemma log_append_Appended_eq:
  "log_append cr l e = Inr (Appended, l') \<Longrightarrow> l' = index_trusted l e"
  by (auto simp: log_append_def split: sum.splits bool.splits)

lemma parent_edges_upd:
  "M i = None \<Longrightarrow> parent_edges (M(i \<mapsto> e)) = parent_edges M \<union> set (parents e) \<times> {i}"
  by (auto simp: parent_edges_def)

text \<open>An event built on the current heads is above every event of the conversation but profiles.\<close>

lemma authored_dominates:
  assumes wf: "log_wf cr l" and ps: "set (parents e) = set (log_heads l c)"
    and new: "l_events l (ev_id e) = None"
    and f: "f \<in> conv_set (l_events l) c" "kind f \<noteq> Profile"
  shows "(ev_id f, ev_id e) \<in> (parent_edges ((l_events l)(ev_id e \<mapsto> e)))\<^sup>+"
proof -
  obtain h where h: "h \<in> set (log_heads l c)" "(ev_id f, h) \<in> (parent_edges (l_events l))\<^sup>*"
    using heads_cover [OF wf f] by blast
  have edges: "parent_edges ((l_events l)(ev_id e \<mapsto> e))
      = parent_edges (l_events l) \<union> set (parents e) \<times> {ev_id e}"
    by (rule parent_edges_upd [of "l_events l" "ev_id e", OF new])
  have "(ev_id f, h) \<in> (parent_edges ((l_events l)(ev_id e \<mapsto> e)))\<^sup>*"
    using h(2) rtrancl_mono [of "parent_edges (l_events l)"] unfolding edges by blast
  moreover have "(h, ev_id e) \<in> parent_edges ((l_events l)(ev_id e \<mapsto> e))"
    using h(1) ps edges by auto
  ultimately show ?thesis by (rule rtrancl_into_trancl1)
qed

section \<open>Runs of appends\<close>

fun append_all :: "crypto_env \<Rightarrow> event_log \<Rightarrow> event list \<Rightarrow> log_error + event_log" where
  "append_all cr l [] = Inr l"
| "append_all cr l (e # es) =
     (case log_append cr l e of Inl err \<Rightarrow> Inl err | Inr (_, l') \<Rightarrow> append_all cr l' es)"

lemma append_all_ran:
  assumes "log_wf cr l" and "append_all cr l es = Inr l'"
    and "inj_on ev_id (ran (l_events l) \<union> set es)"
  shows "log_wf cr l' \<and> ran (l_events l') = ran (l_events l) \<union> set es"
  using assms
proof (induction es arbitrary: l)
  case (Cons e es)
  from Cons.prems(2) obtain out l1 where step: "log_append cr l e = Inr (out, l1)"
    and rest: "append_all cr l1 es = Inr l'"
    by (auto split: sum.splits prod.splits)
  have "log_wf cr l1 \<and> ran (l_events l1) = insert e (ran (l_events l))"
    using Cons.prems(1) step
  proof (cases rule: log_append_cases)
    case dup
    then obtain f where f: "l_events l (ev_id e) = Some f" by auto
    then have "ev_id f = ev_id e" "f \<in> ran (l_events l)"
      using event_dagD(2) [OF log_wfD(1) [OF Cons.prems(1)]] by (auto intro: ranI)
    then have "f = e" by (intro inj_onD [OF Cons.prems(3)]) auto
    then show ?thesis using dup f Cons.prems(1) by (auto intro: ranI)
  next
    case new
    then show ?thesis using ran_map_upd [of "l_events l" "ev_id e" e]
      by (simp add: fresh_event_def)
  qed
  with Cons.IH [OF _ rest] Cons.prems(3) show ?case by auto
qed simp

lemma event_dag_lookup:
  "event_dag cr M \<Longrightarrow> M i = Some e \<longleftrightarrow> e \<in> ran M \<and> ev_id e = i"
  by (auto simp: event_dag_def ran_def)

lemma event_dag_eqI: "event_dag cr M \<Longrightarrow> event_dag cr N \<Longrightarrow> ran M = ran N \<Longrightarrow> M = N"
proof (rule ext)
  fix i
  assume dags: "event_dag cr M" "event_dag cr N" and ran: "ran M = ran N"
  have "M i = Some e \<longleftrightarrow> N i = Some e" for e
    using event_dag_lookup [OF dags(1)] event_dag_lookup [OF dags(2)] ran by simp
  then show "M i = N i" by (metis option.exhaust)
qed

lemma log_wf_eqI:
  "log_wf cr l \<Longrightarrow> log_wf cr l' \<Longrightarrow> ran (l_events l) = ran (l_events l') \<Longrightarrow> l = l'"
  using event_dag_eqI [of cr "l_events l" "l_events l'"] by (auto simp: log_wf_def)

section \<open>The message cursor\<close>

lemma ascending_split:
  assumes "ascending ks"
  shows "ks = filter (\<lambda>k. k \<le> a) ks @ filter (\<lambda>k. a < k) ks"
  using assms
proof (induction ks)
  case (Cons k ks)
  show ?case
  proof (cases "k \<le> a")
    case True
    with Cons show ?thesis by auto
  next
    case False
    with Cons.prems have "\<forall>x\<in>set (k # ks). a < x" by auto
    then have "filter (\<lambda>x. a < x) (k # ks) = k # ks" and "filter (\<lambda>x. x \<le> a) (k # ks) = []"
      by (auto simp: filter_id_conv filter_empty_conv)
    then show ?thesis by simp
  qed
qed simp

lemma take_wrap:
  "(let r = take t xs in if length r < t then r @ take (t - length r) zs else r)
    = take t (xs @ zs)"
  by (auto simp: Let_def min_def)

lemma take_wrapped_keys:
  assumes "ascending ks" and "t \<le> length ks"
  shows "take t (filter (\<lambda>k. a < k) ks @ ks)
    = take t (filter (\<lambda>k. a < k) ks @ filter (\<lambda>k. k \<le> a) ks)"
proof -
  let ?hi = "filter (\<lambda>k. a < k) ks" and ?lo = "filter (\<lambda>k. k \<le> a) ks"
  have ks: "ks = ?lo @ ?hi" by (rule ascending_split [OF assms(1)])
  have "t \<le> length (?hi @ ?lo)" using assms(2) arg_cong [OF ks, of length] by simp
  then have "take t ((?hi @ ?lo) @ ?hi) = take t (?hi @ ?lo)" by (subst take_append) simp
  moreover have "?hi @ ks = (?hi @ ?lo) @ ?hi" using ks by simp
  ultimately show ?thesis by metis
qed

section \<open>Properties of the log\<close>

text \<open>The log after offering it a sequence of events, those it rejects included.\<close>

fun append_each :: "crypto_env \<Rightarrow> event_log \<Rightarrow> event list \<Rightarrow> event_log" where
  "append_each cr l [] = l"
| "append_each cr l (e # es) =
     append_each cr (case log_append cr l e of Inl _ \<Rightarrow> l | Inr (_, l') \<Rightarrow> l') es"

lemma append_each_wf: "log_wf cr l \<Longrightarrow> log_wf cr (append_each cr l es)"
  by (induction es arbitrary: l) (auto split: sum.splits dest: log_append_wf)

text \<open>
  C1. from the empty log, whatever sequence of events is offered, forged and out-of-order ones
  included, the log holds only valid events under their own ids, closed under parents within the
  conversation, with no parent cycle and no two events of one author at one sequence number; and
  every index (conversation order, message index, frontier, version vector, Lamport maximum,
  author slots, wire-version flags) is the one computed from those events.
\<close>

theorem store_wf_after_any_events:
  "event_dag cr (l_events (append_each cr event_log_default es))
   \<and> append_each cr event_log_default es = index_of (l_events (append_each cr event_log_default es))"
  using append_each_wf [OF log_wf_empty] by (simp add: log_wf_def)

text \<open>
  C2. the log accepts an event as new exactly when it is canonical, intact and signed, its id is
  new, its parents are held in the same conversation and its author has no event at its sequence
  number; the new log is then the index of the old events and this one. It reports a duplicate
  exactly when the event is valid and its id is held, and answers with the log as it was. Every other
  event is refused with an error that names what is wrong with it. Offering an event therefore
  changes the log only when it is accepted as new.
\<close>

theorem log_append_refines:
  assumes "log_wf cr l"
  shows "(log_append cr l e = Inr (Appended, l') \<longleftrightarrow>
      event_valid cr e \<and> fresh_event (l_events l) e \<and> l' = index_of ((l_events l)(ev_id e \<mapsto> e)))
    \<and> (log_append cr l e = Inr (Duplicate, l') \<longleftrightarrow> event_valid cr e \<and> l_events l (ev_id e) \<noteq> None \<and> l' = l)
    \<and> ((\<exists>err. log_append cr l e = Inl err) \<longleftrightarrow>
         \<not> event_valid cr e \<or> (l_events l (ev_id e) = None \<and> \<not> fresh_event (l_events l) e))
    \<and> (\<forall>err. log_append cr l e = Inl err \<longrightarrow> refusal_reason cr l e err)
    \<and> append_each cr l [e] =
        (if event_valid cr e \<and> fresh_event (l_events l) e then index_of ((l_events l)(ev_id e \<mapsto> e)) else l)"
proof -
  have new: "log_append cr l e = Inr (Appended, l') \<longleftrightarrow>
      event_valid cr e \<and> fresh_event (l_events l) e \<and> l' = index_of ((l_events l)(ev_id e \<mapsto> e))" for l'
    by (rule log_append_new_iff [OF assms])
  have dup: "log_append cr l e = Inr (Duplicate, l') \<longleftrightarrow> event_valid cr e \<and> l_events l (ev_id e) \<noteq> None \<and> l' = l" for l'
    using validate_False_iff [of cr l e] by (auto simp: log_append_def split: sum.splits bool.splits)
  have outcomes: "(\<exists>err. log_append cr l e = Inl err) \<or> (\<exists>l'. log_append cr l e = Inr (Appended, l'))
      \<or> log_append cr l e = Inr (Duplicate, l)"
    by (auto simp: log_append_def split: sum.splits bool.splits)
  have accepted: "(\<exists>l'. log_append cr l e = Inr (Appended, l')) \<longleftrightarrow> event_valid cr e \<and> fresh_event (l_events l) e"
    unfolding new by simp
  have known: "\<not> fresh_event (l_events l) e" if "l_events l (ev_id e) \<noteq> None" using that by (simp add: fresh_event_def)
  from outcomes have err: "((\<exists>err. log_append cr l e = Inl err) \<longleftrightarrow>
      \<not> event_valid cr e \<or> (l_events l (ev_id e) = None \<and> \<not> fresh_event (l_events l) e))
    \<and> append_each cr l [e] = (if event_valid cr e \<and> fresh_event (l_events l) e then index_of ((l_events l)(ev_id e \<mapsto> e)) else l)"
  proof (elim disjE exE)
    fix err assume "log_append cr l e = Inl err"
    with accepted dup [of l] show ?thesis by auto
  next
    fix l' assume "log_append cr l e = Inr (Appended, l')"
    with new [of l'] known show ?thesis by auto
  next
    assume d: "log_append cr l e = Inr (Duplicate, l)"
    then have "event_valid cr e" "l_events l (ev_id e) \<noteq> None" using dup by blast+
    with d known show ?thesis by simp
  qed
  then show ?thesis using new dup log_append_refusal [OF assms] by blast
qed

theorem log_append_refines_witness:
  "log_append demo_env event_log_default (demo_message 1 [] 1)
     = Inr (Appended, index_of [EventId 1 \<mapsto> demo_message 1 [] 1])
   \<and> log_append demo_env (index_of [EventId 1 \<mapsto> demo_message 1 [] 1]) (demo_message 1 [] 1)
     = Inr (Duplicate, index_of [EventId 1 \<mapsto> demo_message 1 [] 1])
   \<and> append_each demo_env event_log_default [demo_message 2 [EventId 9] 2] = event_log_default"
proof -
  let ?e = "demo_message 1 [] 1" and ?l = "index_of [EventId 1 \<mapsto> demo_message 1 [] 1]"
  have "fresh_event (l_events event_log_default) ?e"
    by (simp add: fresh_event_def event_log_default_def)
  then have app: "log_append demo_env event_log_default ?e = Inr (Appended, ?l)"
    using log_append_refines [OF log_wf_empty [of demo_env], of ?e ?l]
    by (simp add: event_valid_def event_log_default_def)
  have "log_wf demo_env ?l" by (rule log_append_wf [OF log_wf_empty app])
  then have dup: "log_append demo_env ?l ?e = Inr (Duplicate, ?l)"
    using log_append_refines [of demo_env ?l ?e ?l] by (simp add: event_valid_def)
  have "\<not> fresh_event (l_events event_log_default) (demo_message 2 [EventId 9] 2)"
    by (simp add: fresh_event_def event_log_default_def canonical_parents_def)
  then show ?thesis
    using app dup log_append_refines [OF log_wf_empty [of demo_env], of "demo_message 2 [EventId 9] 2" event_log_default] by simp
qed

text \<open>
  C3. two logs that accepted the same events, in whatever orders, are the same log in every field,
  provided no two of the events share an id.
\<close>

theorem arrival_order_irrelevant:
  assumes "append_all cr event_log_default xs = Inr l1"
    and "append_all cr event_log_default ys = Inr l2"
    and "set xs = set ys" and "inj_on ev_id (set xs)"
  shows "l1 = l2"
proof -
  have none: "ran (l_events event_log_default) = {}" by (simp add: event_log_default_def)
  show ?thesis
    using append_all_ran [OF log_wf_empty assms(1)] append_all_ran [OF log_wf_empty assms(2)] assms(3,4)
    by (intro log_wf_eqI) (auto simp: none)
qed

theorem arrival_order_irrelevant_witness:
  "\<exists>l1 l2. append_all demo_env event_log_default [demo_message 1 [] 1, demo_message 2 [] 1] = Inr l1
     \<and> append_all demo_env event_log_default [demo_message 2 [] 1, demo_message 1 [] 1] = Inr l2
     \<and> l1 = l2"
proof -
  obtain l1 where l1:
    "append_all demo_env event_log_default [demo_message 1 [] 1, demo_message 2 [] 1] = Inr l1"
    by (simp add: log_append_def validate_def missing_parents_def index_trusted_def Let_def
        event_log_default_def)
  obtain l2 where l2:
    "append_all demo_env event_log_default [demo_message 2 [] 1, demo_message 1 [] 1] = Inr l2"
    by (simp add: log_append_def validate_def missing_parents_def index_trusted_def Let_def
        event_log_default_def)
  have "l1 = l2"
    by (rule arrival_order_irrelevant [OF l1 l2]) (auto simp: inj_on_def)
  with l1 l2 show ?thesis by blast
qed

text \<open>
  C4. an event of any kind but a profile that a device builds from \<open>prepare\<close> and
  \<open>next_sequence\<close> is always accepted (its hash not being taken), comes causally after every
  event of the conversation that is not a profile, has the greatest Lamport time, and is then the
  only head.
\<close>

theorem authored_event_accepted:
  assumes wf: "log_wf cr l" and sv: "signatures_verify cr"
    and prep: "prepare l c = Inr (ps, lam)"
    and sq: "next_sequence l c (Author (ed25519_pub (device_public cr d))) = Inr n"
    and e: "e = event_new cr d c n ps lam wall knd ct" "l_events l (ev_id e) = None" "knd \<noteq> Profile"
  shows "\<exists>l'. log_append cr l e = Inr (Appended, l') \<and> log_heads l' c = [ev_id e]
    \<and> (\<forall>f\<in>conv_set (l_events l) c. lamport f < lamport e
         \<and> (kind f \<noteq> Profile \<longrightarrow> (ev_id f, ev_id e) \<in> (parent_edges (l_events l'))\<^sup>+))"
proof -
  have ps: "set (parents e) = set (log_heads l c)"
    using prep e(1) by (auto simp: prepare_def split: option.splits)
  have fresh: "fresh_event (l_events l) e"
    using prep sq e by (intro authored_fresh [OF wf prep]) auto
  have val: "event_valid cr e"
    using e(1) by (simp add: event_valid_def event_new_canonical event_new_integrity event_new_signature [OF sv])
  obtain l' where l': "log_append cr l e = Inr (Appended, l')"
    "l_events l' = (l_events l)(ev_id e \<mapsto> e)" "log_wf cr l'"
    using log_append_new [OF wf val fresh] by blast
  have "l_heads l' c = Some {ev_id e}"
    using log_append_Appended_eq [OF l'(1)] index_trusted_heads [of e l] e(1,3) ps
    by (simp add: entry_heads_eq [OF wf])
  then have "log_heads l' c = [ev_id e]" by (simp add: log_heads_def entry_or_def)
  moreover have "lamport f < lamport e" if "f \<in> conv_set (l_events l) c" for f
    using prepare_lamport(1) [OF wf prep that] e(1) by simp
  moreover have "(ev_id f, ev_id e) \<in> (parent_edges (l_events l'))\<^sup>+"
    if "f \<in> conv_set (l_events l) c" "kind f \<noteq> Profile" for f
    using authored_dominates [OF wf ps e(2) that] l'(2) by simp
  ultimately show ?thesis using l'(1) by blast
qed

theorem authored_event_accepted_witness:
  "\<exists>l'. log_append demo_env event_log_default
       (event_new demo_env (demo_device 7) (ConversationId 1) 1 [] 1 0 Message [1]) = Inr (Appended, l')
     \<and> log_heads l' (ConversationId 1) = [EventId 1]"
proof -
  have prep: "prepare event_log_default (ConversationId 1) = Inr ([], 1)"
    by (simp add: prepare_def event_log_default_def entry_or_def checked_add_def log_heads_def)
  have sq: "next_sequence event_log_default (ConversationId 1)
    (Author (ed25519_pub (device_public demo_env (demo_device 7)))) = Inr 1"
    by (simp add: next_sequence_def event_log_default_def entry_or_def checked_add_def)
  show ?thesis
    using authored_event_accepted [OF log_wf_empty demo_signatures_verify prep sq refl,
        of 0 Message "[1]"]
    by (auto simp: event_log_default_def)
qed

text \<open>
  C5. the custody cursor returns as many keys as asked for or as there are, those after the cursor
  first and then from the start up to the cursor: each of the author's messages at most once, in
  one turn of the ring.
\<close>

theorem message_cursor_is_one_turn:
  assumes wf: "log_wf cr l"
    and "S = {e \<in> conv_set (l_events l) c. author e = a \<and> kind e = Message}"
    and "ks = sorted_list_of_set (order_key_of ` S)"
  shows "message_keys_after l c a (Some after) limit
      = take (min limit (card (order_key_of ` S))) (filter (\<lambda>k. after < k) ks @ filter (\<lambda>k. k \<le> after) ks)
    \<and> distinct (message_keys_after l c a (Some after) limit)
    \<and> length (message_keys_after l c a (Some after) limit) = min limit (card (order_key_of ` S))"
proof -
  have fin: "finite S" using log_wfD(2) [OF wf] assms(2) by simp
  have asc: "ascending ks" and len: "length ks = card (order_key_of ` S)"
    using assms(3) fin by simp_all
  have "l_messages_by_author l (c, a) = keys_of S" using log_wfD(4) [OF wf] assms(2) by simp
  then have "message_keys_after l c a (Some after) limit
    = take (min limit (length ks)) (filter (\<lambda>k. after < k) ks @ ks)"
    using take_wrap [of "min limit (length ks)" "filter (\<lambda>k. after < k) ks" ks] assms(3)
    by (auto simp: message_keys_after_def keys_of_def Let_def)
  also have "\<dots> = take (min limit (length ks)) (filter (\<lambda>k. after < k) ks @ filter (\<lambda>k. k \<le> after) ks)"
    by (rule take_wrapped_keys [OF asc]) simp
  finally have eq: "message_keys_after l c a (Some after) limit = \<dots>" .
  have all: "length (filter (\<lambda>k. after < k) ks @ filter (\<lambda>k. k \<le> after) ks) = length ks"
    using arg_cong [OF ascending_split [OF asc, of after], of length] by simp
  have "distinct (filter (\<lambda>k. after < k) ks @ filter (\<lambda>k. k \<le> after) ks)"
    using asc by auto
  then show ?thesis unfolding eq len [symmetric]
    by (intro conjI refl distinct_take) (simp_all only: length_take all min.absorb4 min.commute min.right_idem min.left_idem)
qed

theorem message_cursor_is_one_turn_witness:
  "message_keys_after (append_each demo_env event_log_default [demo_message 1 [] 1, demo_message 2 [] 2])
     (ConversationId 1) (Author 7) (Some (1, EventId 1)) 2 = [(2, EventId 2), (1, EventId 1)]"
proof -
  let ?l = "append_each demo_env event_log_default [demo_message 1 [] 1, demo_message 2 [] 2]"
  have ev: "l_events ?l = [EventId 1 \<mapsto> demo_message 1 [] 1, EventId 2 \<mapsto> demo_message 2 [] 2]"
    by (simp add: log_append_def validate_def missing_parents_def index_trusted_def Let_def
        event_log_default_def)
  have S: "order_key_of ` {e \<in> conv_set (l_events ?l) (ConversationId 1). author e = Author 7 \<and> kind e = Message}
    = {(1, EventId 1), (2, EventId 2)}"
  proof -
    have "{e \<in> conv_set (l_events ?l) (ConversationId 1). author e = Author 7 \<and> kind e = Message}
      = {demo_message 1 [] 1, demo_message 2 [] 2}"
      unfolding ev by (auto simp: conv_set_def ran_map_upd)
    then show ?thesis by simp
  qed
  show ?thesis
    using message_cursor_is_one_turn [OF append_each_wf [OF log_wf_empty] refl refl,
        of demo_env "[demo_message 1 [] 1, demo_message 2 [] 2]" "ConversationId 1" "Author 7"
           "(1, EventId 1)" 2]
    unfolding S by simp
qed

end
