(* ===== verification/Event_Order.thy ===== *)
theory Event_Order
  imports Event_Store
begin

text \<open>
  The deterministic traversal of the event graph, from \<^verbatim>\<open>eventlog/order.rs\<close>: the in-degree
  algorithm \<open>ordered_ids\<close>, with its worklist (a \<^verbatim>\<open>BTreeSet\<close> of clock and id, here an ascending
  list) and the two maps it mutates. The loops are modelled as written; a panic and an endless
  loop are both \<open>None\<close>. The algorithm is shown to compute the greedy topological order
  \<open>greedy_order\<close>, which is unique, so the result exists for every input, respects parents,
  omits nothing on an acyclic graph and does not depend on the order of its input.
\<close>

section \<open>The traversal\<close>

definition event_clock :: "bool \<Rightarrow> event \<Rightarrow> u64" where
  "event_clock logical e = (if logical then lamport e else wall_clock e)"

definition clocks_of :: "event list \<Rightarrow> (event_id \<times> u64) list \<Rightarrow> bool \<Rightarrow> (event_id \<rightharpoonup> u64)" where
  "clocks_of evs archive logical =
     foldl (\<lambda>m e. m(ev_id e \<mapsto> event_clock logical e))
       (foldl (\<lambda>m (i, t). m(i \<mapsto> t)) Map.empty archive) evs"

text \<open>The in-degrees and the child lists; \<open>None\<close> is the panic of a missing entry.\<close>

fun link_parents ::
  "(event_id \<rightharpoonup> u64) \<Rightarrow> event_id \<Rightarrow> event_id list
   \<Rightarrow> (event_id \<rightharpoonup> nat) \<times> (event_id \<rightharpoonup> event_id list)
   \<Rightarrow> ((event_id \<rightharpoonup> nat) \<times> (event_id \<rightharpoonup> event_id list)) option" where
  "link_parents clocks i [] (degrees, children) = Some (degrees, children)"
| "link_parents clocks i (p # ps) (degrees, children) =
     (if clocks p \<noteq> None then
        (case degrees i of
           None \<Rightarrow> None
         | Some d \<Rightarrow>
             link_parents clocks i ps
               (degrees(i \<mapsto> Suc d), children(p \<mapsto> entry_or [] children p @ [i])))
      else link_parents clocks i ps (degrees, children))"

fun link_events ::
  "(event_id \<rightharpoonup> u64) \<Rightarrow> event list
   \<Rightarrow> (event_id \<rightharpoonup> nat) \<times> (event_id \<rightharpoonup> event_id list)
   \<Rightarrow> ((event_id \<rightharpoonup> nat) \<times> (event_id \<rightharpoonup> event_id list)) option" where
  "link_events clocks [] st = Some st"
| "link_events clocks (e # es) st =
     (case link_parents clocks (ev_id e) (parents e) st of
        None \<Rightarrow> None
      | Some st' \<Rightarrow> link_events clocks es st')"

text \<open>
  The inner loop over the children of a popped event. \<open>None\<close> stands for the panics the source
  can raise here: a child without a degree or a clock, and a degree below zero.
\<close>

fun release ::
  "(event_id \<rightharpoonup> u64) \<Rightarrow> event_id list \<Rightarrow> (event_id \<rightharpoonup> nat) \<Rightarrow> order_key list
   \<Rightarrow> ((event_id \<rightharpoonup> nat) \<times> order_key list) option" where
  "release clocks [] degrees ready = Some (degrees, ready)"
| "release clocks (c # cs) degrees ready =
     (case degrees c of
        None \<Rightarrow> None
      | Some d \<Rightarrow>
          if d = 0 then None
          else if d - 1 = 0 then
            (case clocks c of
               None \<Rightarrow> None
             | Some t \<Rightarrow> release clocks cs (degrees(c \<mapsto> d - 1)) (insort_insert (t, c) ready))
          else release clocks cs (degrees(c \<mapsto> d - 1)) ready)"

partial_function (option) kahn_loop ::
  "(event_id \<rightharpoonup> u64) \<Rightarrow> (event_id \<rightharpoonup> event_id list) \<Rightarrow> (event_id \<rightharpoonup> nat) \<Rightarrow> order_key list
   \<Rightarrow> event_id list \<Rightarrow> event_id list option" where
  "kahn_loop clocks children degrees ready ordered =
     (case ready of
        [] \<Rightarrow> Some ordered
      | k # rest \<Rightarrow>
          Option.bind (release clocks (entry_or [] children (snd k)) degrees rest)
            (\<lambda>st. kahn_loop clocks children (fst st) (snd st) (ordered @ [snd k])))"

definition initial_ready :: "(event_id \<rightharpoonup> u64) \<Rightarrow> (event_id \<rightharpoonup> nat) \<Rightarrow> event_id list \<Rightarrow> order_key list" where
  "initial_ready clocks degrees ids =
     foldl (\<lambda>r i. if degrees i = Some 0 then insort_insert (entry_or 0 clocks i, i) r else r) [] ids"

definition ordered_ids ::
  "event list \<Rightarrow> (event_id \<times> u64) list \<Rightarrow> bool \<Rightarrow> event_id list option" where
  "ordered_ids evs archive logical =
     (let clocks = clocks_of evs archive logical;
          degrees0 = (\<lambda>i. map_option (\<lambda>_. 0) (clocks i))
      in case link_events clocks evs (degrees0, Map.empty) of
           None \<Rightarrow> None
         | Some (degrees, children) \<Rightarrow>
             kahn_loop clocks children degrees
               (initial_ready clocks degrees (map fst archive @ map ev_id evs)) [])"

section \<open>The specification: a greedy topological order\<close>

text \<open>
  \<open>available\<close> are the nodes not yet placed all of whose parents are; the order always takes the
  one with the least clock and id.
\<close>

definition available ::
  "(event_id \<rightharpoonup> u64) \<Rightarrow> (event_id \<times> event_id) set \<Rightarrow> event_id set \<Rightarrow> event_id set" where
  "available clocks E D = {i \<in> dom clocks. i \<notin> D \<and> (\<forall>p. (p, i) \<in> E \<longrightarrow> p \<in> D)}"

inductive greedy_order ::
  "(event_id \<rightharpoonup> u64) \<Rightarrow> (event_id \<times> event_id) set \<Rightarrow> event_id set \<Rightarrow> event_id list \<Rightarrow> bool"
  for clocks E where
  stop: "available clocks E D = {} \<Longrightarrow> greedy_order clocks E D []"
| pick: "i \<in> available clocks E D \<Longrightarrow>
    \<forall>j\<in>available clocks E D. (the (clocks i), i) \<le> (the (clocks j), j) \<Longrightarrow>
    greedy_order clocks E (insert i D) xs \<Longrightarrow> greedy_order clocks E D (i # xs)"

inductive_cases greedy_order_NilE: "greedy_order clocks E D []"
inductive_cases greedy_order_ConsE: "greedy_order clocks E D (i # xs)"

lemma greedy_order_unique:
  "greedy_order clocks E D xs \<Longrightarrow> greedy_order clocks E D ys \<Longrightarrow> xs = ys"
proof (induction arbitrary: ys rule: greedy_order.induct)
  case (stop D)
  from stop.prems show ?case
    by (cases rule: greedy_order.cases) (use stop.hyps in auto)
next
  case (pick i D xs)
  from pick.prems show ?case
  proof (cases rule: greedy_order.cases)
    case stop
    then show ?thesis using pick.hyps by auto
  next
    case (pick j zs)
    with pick.hyps have "(the (clocks i), i) = (the (clocks j), j)" by (intro antisym) auto
    then show ?thesis using pick pick.IH by auto
  qed
qed

lemma greedy_order_subset:
  "greedy_order clocks E D xs \<Longrightarrow> distinct xs \<and> set xs \<subseteq> dom clocks - D"
  by (induction rule: greedy_order.induct) (auto simp: available_def)

lemma greedy_order_parents:
  "greedy_order clocks E D xs \<Longrightarrow> k < length xs \<Longrightarrow> (p, xs ! k) \<in> E \<Longrightarrow> p \<in> D \<union> set (take k xs)"
proof (induction arbitrary: k rule: greedy_order.induct)
  case (pick i D xs)
  then show ?case
    by (cases k) (force simp: available_def)+
qed simp

text \<open>On an acyclic graph nothing is left out.\<close>

lemma greedy_order_complete:
  assumes "greedy_order clocks E D xs" and "finite E" and "acyclic E" and "fst ` E \<subseteq> dom clocks"
  shows "dom clocks \<subseteq> D \<union> set xs"
  using assms(1)
proof (induction rule: greedy_order.induct)
  case (stop D)
  have "wf E" using assms(2,3) by (rule finite_acyclic_wf)
  have "i \<in> D" if "i \<in> dom clocks" for i
    using \<open>wf E\<close> that
  proof (induction i rule: wf_induct_rule)
    case (less i)
    have "p \<in> D" if "(p, i) \<in> E" for p
      using less.IH [OF that] that assms(4) by force
    then show ?case using less.prems stop by (auto simp: available_def)
  qed
  then show ?case by auto
qed auto

section \<open>The links the first pass builds\<close>

definition parent_links :: "(event_id \<rightharpoonup> u64) \<Rightarrow> event_id \<Rightarrow> event_id list \<Rightarrow> (event_id \<times> event_id) list" where
  "parent_links clocks i ps = map (\<lambda>p. (p, i)) (filter (\<lambda>p. clocks p \<noteq> None) ps)"

definition event_links :: "(event_id \<rightharpoonup> u64) \<Rightarrow> event list \<Rightarrow> (event_id \<times> event_id) list" where
  "event_links clocks evs = concat (map (\<lambda>e. parent_links clocks (ev_id e) (parents e)) evs)"

definition children_in :: "(event_id \<times> event_id) list \<Rightarrow> event_id \<Rightarrow> event_id list" where
  "children_in L p = map snd (filter (\<lambda>l. fst l = p) L)"

definition degree_in :: "(event_id \<times> event_id) list \<Rightarrow> event_id \<Rightarrow> nat" where
  "degree_in L i = length (filter (\<lambda>l. snd l = i) L)"

lemma children_in_simps [simp]:
  "children_in [] p = []"
  "children_in (l # L) p = (if fst l = p then snd l # children_in L p else children_in L p)"
  "children_in (L @ K) p = children_in L p @ children_in K p"
  by (auto simp: children_in_def)

lemma degree_in_simps [simp]:
  "degree_in [] i = 0"
  "degree_in (l # L) i = (if snd l = i then 1 else 0) + degree_in L i"
  "degree_in (L @ K) i = degree_in L i + degree_in K i"
  by (auto simp: degree_in_def)

lemma parent_links_simps [simp]:
  "parent_links clocks i [] = []"
  "parent_links clocks i (p # ps) =
     (if clocks p \<noteq> None then (p, i) # parent_links clocks i ps else parent_links clocks i ps)"
  by (auto simp: parent_links_def)

lemma set_parent_links: "set (parent_links clocks i ps) = {(p, i) | p. p \<in> set ps \<and> clocks p \<noteq> None}"
  by (auto simp: parent_links_def)

lemma set_event_links:
  "set (event_links clocks evs) =
     {(p, ev_id e) | p e. e \<in> set evs \<and> p \<in> set (parents e) \<and> clocks p \<noteq> None}"
  by (auto simp: event_links_def set_parent_links)

lemma link_parents_spec:
  assumes "degrees i \<noteq> None"
  shows "\<exists>degrees' children'. link_parents clocks i ps (degrees, children) = Some (degrees', children')
    \<and> (\<forall>x. degrees' x = map_option (\<lambda>d. d + degree_in (parent_links clocks i ps) x) (degrees x))
    \<and> (\<forall>p. entry_or [] children' p = entry_or [] children p @ children_in (parent_links clocks i ps) p)"
  using assms
proof (induction ps arbitrary: degrees children)
  case Nil
  then show ?case by (simp add: option.map_ident)
next
  case (Cons p ps)
  then obtain d where d: "degrees i = Some d" by auto
  show ?case
  proof (cases "clocks p")
    case None
    then show ?thesis using Cons.IH [of degrees children] Cons.prems by simp
  next
    case (Some t)
    from Cons.IH [of "degrees(i \<mapsto> Suc d)" "children(p \<mapsto> entry_or [] children p @ [i])"]
    show ?thesis using Some d by (fastforce simp: entry_or_def split: option.splits)
  qed
qed

lemma link_events_spec:
  assumes "\<forall>e\<in>set evs. degrees (ev_id e) \<noteq> None"
  shows "\<exists>degrees' children'. link_events clocks evs (degrees, children) = Some (degrees', children')
    \<and> (\<forall>x. degrees' x = map_option (\<lambda>d. d + degree_in (event_links clocks evs) x) (degrees x))
    \<and> (\<forall>p. entry_or [] children' p = entry_or [] children p @ children_in (event_links clocks evs) p)"
  using assms
proof (induction evs arbitrary: degrees children)
  case Nil
  then show ?case by (simp add: event_links_def option.map_ident)
next
  case (Cons e es)
  from link_parents_spec [of degrees "ev_id e" clocks "parents e" children] Cons.prems
  obtain dg ch where 1: "link_parents clocks (ev_id e) (parents e) (degrees, children) = Some (dg, ch)"
    and 2: "\<forall>x. dg x = map_option (\<lambda>d. d + degree_in (parent_links clocks (ev_id e) (parents e)) x) (degrees x)"
    and 3: "\<forall>p. entry_or [] ch p
             = entry_or [] children p @ children_in (parent_links clocks (ev_id e) (parents e)) p"
    by auto
  have "\<forall>e\<in>set es. dg (ev_id e) \<noteq> None" using Cons.prems 2 by auto
  from Cons.IH [OF this, of ch]
  obtain dg' ch' where "link_events clocks es (dg, ch) = Some (dg', ch')"
    "\<forall>x. dg' x = map_option (\<lambda>d. d + degree_in (event_links clocks es) x) (dg x)"
    "\<forall>p. entry_or [] ch' p = entry_or [] ch p @ children_in (event_links clocks es) p"
    by blast
  with 1 2 3 show ?case
    by (auto simp: event_links_def option.map_comp comp_def add.assoc)
qed

section \<open>The inner loop\<close>

lemma release_spec:
  assumes "\<forall>c\<in>set cs. \<exists>d t. degrees c = Some d \<and> count_list cs c \<le> d \<and> clocks c = Some t"
    and "ascending ready"
  shows "\<exists>degrees' ready'. release clocks cs degrees ready = Some (degrees', ready')
    \<and> (\<forall>x. degrees' x = map_option (\<lambda>d. d - count_list cs x) (degrees x))
    \<and> ascending ready'
    \<and> set ready' = set ready
        \<union> {(t, c) | t c. c \<in> set cs \<and> clocks c = Some t \<and> degrees c = Some (count_list cs c)}"
  using assms
proof (induction cs arbitrary: degrees ready)
  case Nil
  then show ?case by (simp add: option.map_ident)
next
  case (Cons c cs)
  then obtain d t where d: "degrees c = Some d" "Suc (count_list cs c) \<le> d" "clocks c = Some t"
    by force
  define ready1 where "ready1 = (if d - 1 = 0 then insort_insert (t, c) ready else ready)"
  have asc: "ascending ready1" using Cons.prems(2) by (simp add: ready1_def ascending_insert)
  have "\<forall>x\<in>set cs. \<exists>d' t. (degrees(c \<mapsto> d - 1)) x = Some d' \<and> count_list cs x \<le> d' \<and> clocks x = Some t"
    using Cons.prems(1) d by auto
  from Cons.IH [OF this asc] obtain dg rd where
    1: "release clocks cs (degrees(c \<mapsto> d - 1)) ready1 = Some (dg, rd)"
    and 2: "\<forall>x. dg x = map_option (\<lambda>d. d - count_list cs x) ((degrees(c \<mapsto> d - 1)) x)"
    and 3: "ascending rd"
    and 4: "set rd = set ready1 \<union> {(t, x) | t x. x \<in> set cs \<and> clocks x = Some t
              \<and> (degrees(c \<mapsto> d - 1)) x = Some (count_list cs x)}"
    by blast
  have r: "release clocks (c # cs) degrees ready = Some (dg, rd)"
    using d 1 by (auto simp: ready1_def)
  have s: "set rd = set ready \<union> {(t, x) | t x. x \<in> set (c # cs) \<and> clocks x = Some t
              \<and> degrees x = Some (count_list (c # cs) x)}"
    unfolding 4 using d by (auto simp: ready1_def set_insort_insert count_list_0_iff split: if_splits)
  from r s 2 3 d show ?case by auto
qed

section \<open>The outer loop refines the greedy order\<close>

definition open_links :: "(event_id \<times> event_id) list \<Rightarrow> event_id set \<Rightarrow> (event_id \<times> event_id) list" where
  "open_links L D = filter (\<lambda>l. fst l \<notin> D) L"

definition kahn_inv ::
  "(event_id \<rightharpoonup> u64) \<Rightarrow> (event_id \<times> event_id) list \<Rightarrow> (event_id \<rightharpoonup> nat) \<Rightarrow> order_key list
   \<Rightarrow> event_id list \<Rightarrow> bool" where
  "kahn_inv clocks L degrees ready ordered \<longleftrightarrow>
     (\<forall>i. degrees i = map_option (\<lambda>_. degree_in (open_links L (set ordered)) i) (clocks i))
     \<and> ascending ready
     \<and> set ready = {(t, i). clocks i = Some t \<and> i \<notin> set ordered \<and> degree_in (open_links L (set ordered)) i = 0}
     \<and> (\<forall>i\<in>set ordered. degree_in (open_links L (set ordered)) i = 0)
     \<and> snd ` set L \<subseteq> dom clocks"

lemma degree_in_0_iff: "degree_in L i = 0 \<longleftrightarrow> (\<forall>p. (p, i) \<notin> set L)"
  by (force simp: degree_in_def filter_empty_conv)

lemma degree_open_insert:
  assumes "i \<notin> D"
  shows "degree_in (open_links L D) x = degree_in (open_links L (insert i D)) x + count_list (children_in L i) x"
  using assms by (induction L) (auto simp: open_links_def degree_in_def children_in_def)

lemma available_open:
  "available clocks (set L) D = {i \<in> dom clocks. i \<notin> D \<and> degree_in (open_links L D) i = 0}"
  by (auto simp: available_def degree_in_0_iff open_links_def)

lemma kahn_inv_available:
  assumes "kahn_inv clocks L degrees ready ordered"
  shows "available clocks (set L) (set ordered) = snd ` set ready"
proof -
  from assms have "set ready = {(t, i). clocks i = Some t \<and> i \<notin> set ordered
      \<and> degree_in (open_links L (set ordered)) i = 0}"
    unfolding kahn_inv_def by blast
  then show ?thesis unfolding available_open by force
qed

lemma kahn_inv_step:
  assumes inv: "kahn_inv clocks L degrees ((t, i) # rest) ordered"
  shows "\<exists>degrees' ready'. release clocks (children_in L i) degrees rest = Some (degrees', ready')
    \<and> kahn_inv clocks L degrees' ready' (ordered @ [i])"
proof -
  let ?deg = "degree_in (open_links L (set ordered))" and ?cs = "children_in L i"
  let ?deg' = "degree_in (open_links L (set (ordered @ [i])))"
  from inv have degs: "degrees x = map_option (\<lambda>_. ?deg x) (clocks x)" for x
    unfolding kahn_inv_def by blast
  from inv have asc: "ascending ((t, i) # rest)" and
    set_ready: "set ((t, i) # rest) = {(t, i). clocks i = Some t \<and> i \<notin> set ordered \<and> ?deg i = 0}" and
    placed: "\<forall>x\<in>set ordered. ?deg x = 0" and dom: "snd ` set L \<subseteq> dom clocks"
    unfolding kahn_inv_def by blast+
  have i: "clocks i = Some t" "i \<notin> set ordered" "?deg i = 0"
    using set_ready by auto
  have split: "?deg x = ?deg' x + count_list ?cs x" for x
    using degree_open_insert [OF i(2), of L x] by simp
  have cs_dom: "set ?cs \<subseteq> dom clocks" using dom by (force simp: children_in_def)
  have "\<forall>c\<in>set ?cs. \<exists>d t. degrees c = Some d \<and> count_list ?cs c \<le> d \<and> clocks c = Some t"
    using cs_dom split degs by fastforce
  from release_spec [OF this, of rest] asc
  obtain dg rd where 1: "release clocks ?cs degrees rest = Some (dg, rd)"
    and 2: "\<forall>x. dg x = map_option (\<lambda>d. d - count_list ?cs x) (degrees x)"
    and 3: "ascending rd"
    and 4: "set rd = set rest \<union> {(t, c) | t c. c \<in> set ?cs \<and> clocks c = Some t
              \<and> degrees c = Some (count_list ?cs c)}"
    by auto
  have "(t', x) \<in> set rest \<longleftrightarrow> (t', x) \<in> set ((t, i) # rest) \<and> (t', x) \<noteq> (t, i)" for t' x
    using asc by auto
  then have rest: "(t', x) \<in> set rest
      \<longleftrightarrow> clocks x = Some t' \<and> x \<notin> set (ordered @ [i]) \<and> ?deg x = 0" for t' x
    unfolding set_ready using i by auto
  have pending: "c \<notin> set (ordered @ [i])" if "c \<in> set ?cs" for c
    using that split [of c] placed i by (auto simp: count_list_0_iff)
  have zero: "?deg' x = 0 \<longleftrightarrow> ?deg x = count_list ?cs x" for x using split [of x] by linarith
  have mem: "(t', x) \<in> set rd \<longleftrightarrow> clocks x = Some t' \<and> x \<notin> set (ordered @ [i]) \<and> ?deg' x = 0" for t' x
  proof (cases "x \<in> set ?cs")
    case True
    then have "count_list ?cs x \<noteq> 0" by (simp add: count_list_0_iff)
    then show ?thesis
      unfolding 4 Un_iff rest zero using True pending [OF True] degs [of x] split [of x] by auto
  next
    case False
    then show ?thesis unfolding 4 Un_iff rest zero by (auto simp: count_notin)
  qed
  have "dg x = map_option (\<lambda>_. ?deg' x) (clocks x)" for x
    using 2 degs [of x] split [of x] by (simp add: option.map_comp comp_def)
  moreover have "set rd = {(t', x). clocks x = Some t' \<and> x \<notin> set (ordered @ [i]) \<and> ?deg' x = 0}"
    using mem by auto
  moreover have "?deg' x = 0" if "x \<in> set (ordered @ [i])" for x
    using that placed i(3) split [of x] by auto
  ultimately have "kahn_inv clocks L dg rd (ordered @ [i])"
    unfolding kahn_inv_def using 3 dom by blast
  with 1 show ?thesis by blast
qed

lemma kahn_loop_greedy:
  assumes "kahn_inv clocks L degrees ready ordered" and "finite (dom clocks)"
    and "\<And>p. entry_or [] children p = children_in L p"
  shows "\<exists>xs. kahn_loop clocks children degrees ready ordered = Some (ordered @ xs)
    \<and> greedy_order clocks (set L) (set ordered) xs"
  using assms(1)
proof (induction "card (dom clocks - set ordered)" arbitrary: degrees ready ordered rule: less_induct)
  case less
  show ?case
  proof (cases ready)
    case Nil
    with kahn_inv_available [OF less.prems] show ?thesis
      by (auto simp: kahn_loop.simps intro: greedy_order.stop)
  next
    case (Cons k rest)
    obtain t i where k: "k = (t, i)" by (cases k)
    note inv = less.prems [unfolded Cons k]
    from kahn_inv_step [OF inv] obtain dg rd where
      1: "release clocks (children_in L i) degrees rest = Some (dg, rd)"
      and 2: "kahn_inv clocks L dg rd (ordered @ [i])" by auto
    from inv have i: "clocks i = Some t" "i \<notin> set ordered" and asc: "ascending ((t, i) # rest)"
      and ready: "\<forall>(t', j)\<in>set ((t, i) # rest). clocks j = Some t'"
      by (auto simp: kahn_inv_def)
    have "card (dom clocks - set (ordered @ [i])) < card (dom clocks - set ordered)"
      using i assms(2) by (intro psubset_card_mono) auto
    from less.hyps [OF this 2] obtain xs where
      xs: "kahn_loop clocks children dg rd (ordered @ [i]) = Some ((ordered @ [i]) @ xs)"
        "greedy_order clocks (set L) (set (ordered @ [i])) xs" by auto
    have "kahn_loop clocks children degrees ready ordered = Some (ordered @ i # xs)"
      using Cons k 1 xs(1) assms(3) by (subst kahn_loop.simps) simp
    moreover have "greedy_order clocks (set L) (set ordered) (i # xs)"
    proof (rule greedy_order.pick)
      show "i \<in> available clocks (set L) (set ordered)"
        using kahn_inv_available [OF inv] by simp
      show "\<forall>j\<in>available clocks (set L) (set ordered). (the (clocks i), i) \<le> (the (clocks j), j)"
        unfolding kahn_inv_available [OF inv] using asc ready i by fastforce
      show "greedy_order clocks (set L) (insert i (set ordered)) xs"
        using xs(2) by simp
    qed
    ultimately show ?thesis by blast
  qed
qed

lemma foldl_upd_dom:
  "dom (foldl (\<lambda>m e. m(f e \<mapsto> g e)) m xs) = dom m \<union> f ` set xs"
  by (induction xs arbitrary: m) auto

lemma dom_clocks_of: "dom (clocks_of evs archive logical) = fst ` set archive \<union> ev_id ` set evs"
proof -
  have "(\<lambda>m (i, t). m(i \<mapsto> t)) = (\<lambda>m (e :: event_id \<times> u64). m(fst e \<mapsto> snd e))"
    by (intro ext) auto
  then show ?thesis by (simp only: clocks_of_def foldl_upd_dom) simp
qed

lemma initial_ready_spec:
  assumes "\<forall>i\<in>set ids. clocks i \<noteq> None"
  shows "ascending (initial_ready clocks degrees ids)
    \<and> set (initial_ready clocks degrees ids)
        = {(t, i). i \<in> set ids \<and> clocks i = Some t \<and> degrees i = Some 0}"
proof -
  have "ascending (foldl (\<lambda>r i. if degrees i = Some 0 then insort_insert (entry_or 0 clocks i, i) r else r) r ids)
    \<and> set (foldl (\<lambda>r i. if degrees i = Some 0 then insort_insert (entry_or 0 clocks i, i) r else r) r ids)
        = set r \<union> {(t, i). i \<in> set ids \<and> clocks i = Some t \<and> degrees i = Some 0}"
    if "ascending r" for r
    using assms that
  proof (induction ids arbitrary: r)
    case (Cons i ids)
    then show ?case
      by (cases "clocks i") (auto simp: set_insort_insert ascending_insert entry_or_def)
  qed simp
  from this [of "[]"] show ?thesis by (simp add: initial_ready_def)
qed

theorem ordered_ids_greedy:
  "\<exists>xs. ordered_ids evs archive logical = Some xs
    \<and> greedy_order (clocks_of evs archive logical)
        (set (event_links (clocks_of evs archive logical) evs)) {} xs"
proof -
  let ?cl = "clocks_of evs archive logical"
  let ?L = "event_links ?cl evs"
  let ?dg0 = "\<lambda>i. map_option (\<lambda>_. 0 :: nat) (?cl i)"
  have ids: "set (map fst archive @ map ev_id evs) = dom ?cl" by (simp add: dom_clocks_of)
  have fin: "finite (dom ?cl)" by (simp add: dom_clocks_of)
  have "\<forall>e\<in>set evs. ?dg0 (ev_id e) \<noteq> None"
    using dom_clocks_of [of evs archive logical] by (auto simp: dom_def)
  from link_events_spec [OF this, of ?cl Map.empty] obtain dg ch where
    1: "link_events ?cl evs (?dg0, Map.empty) = Some (dg, ch)"
    and 2: "\<forall>x. dg x = map_option (\<lambda>d. d + degree_in ?L x) (?dg0 x)"
    and 3: "\<forall>p. entry_or [] ch p = entry_or [] Map.empty p @ children_in ?L p"
    by blast
  let ?rd = "initial_ready ?cl dg (map fst archive @ map ev_id evs)"
  have "\<forall>i\<in>set (map fst archive @ map ev_id evs). ?cl i \<noteq> None" unfolding ids by auto
  note rd = initial_ready_spec [OF this, of dg, unfolded ids]
  have dg: "dg x = map_option (\<lambda>_. degree_in ?L x) (?cl x)" for x
    using 2 by (simp add: option.map_comp comp_def)
  have "snd ` set ?L \<subseteq> dom ?cl" by (auto simp: set_event_links dom_clocks_of)
  then have "kahn_inv ?cl ?L dg ?rd []"
    using rd dg by (auto simp: kahn_inv_def open_links_def)
  from kahn_loop_greedy [OF this fin, of ch] 3
  show ?thesis using 1 by (auto simp: ordered_ids_def Let_def entry_or_def)
qed

section \<open>The order depends on the set of events only\<close>

lemma foldl_upd_notin: "k \<notin> f ` set xs \<Longrightarrow> foldl (\<lambda>m e. m(f e \<mapsto> g e)) m xs k = m k"
  by (induction xs arbitrary: m) auto

lemma foldl_upd_mem:
  "inj_on f (set xs) \<Longrightarrow> e \<in> set xs \<Longrightarrow> foldl (\<lambda>m e. m(f e \<mapsto> g e)) m xs (f e) = Some (g e)"
proof (induction xs arbitrary: m)
  case (Cons x xs)
  show ?case
  proof (cases "e \<in> set xs")
    case True
    then show ?thesis using Cons by (auto simp: inj_on_def)
  next
    case False
    with Cons.prems have "e = x" "f e \<notin> f ` set xs" by (auto simp: inj_on_def)
    with foldl_upd_notin [of "f e" f xs g "m(f x \<mapsto> g x)"] show ?thesis
      by (simp del: fun_upd_apply add: fun_upd_same)
  qed
qed simp

lemma foldl_upd_cong:
  assumes "inj_on f (set xs)" and "set xs = set ys"
  shows "foldl (\<lambda>m e. m(f e \<mapsto> g e)) m xs = foldl (\<lambda>m e. m(f e \<mapsto> g e)) m ys"
proof
  fix k
  show "foldl (\<lambda>m e. m(f e \<mapsto> g e)) m xs k = foldl (\<lambda>m e. m(f e \<mapsto> g e)) m ys k"
  proof (cases "k \<in> f ` set xs")
    case True
    then obtain e where "e \<in> set xs" "k = f e" by auto
    with assms show ?thesis using foldl_upd_mem [of f xs e g m] foldl_upd_mem [of f ys e g m] by simp
  next
    case False
    with assms show ?thesis by (simp add: foldl_upd_notin)
  qed
qed

lemma clocks_of_cong:
  assumes "inj_on ev_id (set evs)" and "set evs = set evs'"
    and "inj_on fst (set archive)" and "set archive = set archive'"
  shows "clocks_of evs archive logical = clocks_of evs' archive' logical"
proof -
  have "(\<lambda>m (i, t). m(i \<mapsto> t)) = (\<lambda>m (e :: event_id \<times> u64). m(fst e \<mapsto> snd e))"
    by (intro ext) auto
  then show ?thesis
    unfolding clocks_of_def
    using foldl_upd_cong [OF assms(1,2)] foldl_upd_cong [OF assms(3,4), of snd] by simp
qed

lemma clocks_of_event:
  "inj_on ev_id (set evs) \<Longrightarrow> e \<in> set evs \<Longrightarrow> clocks_of evs archive logical (ev_id e) = Some (event_clock logical e)"
  unfolding clocks_of_def by (rule foldl_upd_mem)

section \<open>Properties\<close>

text \<open>
  C6. The traversal always returns, whatever the input (no panic, no endless loop): its result
  lists known ids without repetition, no event before one of its known parents, and on an acyclic
  graph it lists every id.
\<close>

theorem ordered_ids_topological:
  "\<exists>xs. ordered_ids evs archive logical = Some xs \<and> distinct xs
    \<and> set xs \<subseteq> fst ` set archive \<union> ev_id ` set evs
    \<and> (\<forall>k < length xs. \<forall>e \<in> set evs. ev_id e = xs ! k \<longrightarrow>
         set (parents e) \<inter> (fst ` set archive \<union> ev_id ` set evs) \<subseteq> set (take k xs))
    \<and> (acyclic {(p, ev_id e) | p e. e \<in> set evs \<and> p \<in> set (parents e)} \<longrightarrow>
         set xs = fst ` set archive \<union> ev_id ` set evs)"
proof -
  let ?cl = "clocks_of evs archive logical"
  let ?E = "set (event_links ?cl evs)"
  from ordered_ids_greedy [of evs archive logical] obtain xs where
    xs: "ordered_ids evs archive logical = Some xs" and g: "greedy_order ?cl ?E {} xs" by blast
  note dom = dom_clocks_of [of evs archive logical]
  have parents: "set (parents e) \<inter> dom ?cl \<subseteq> set (take k xs)"
    if "k < length xs" "e \<in> set evs" "ev_id e = xs ! k" for k e
  proof
    fix p assume "p \<in> set (parents e) \<inter> dom ?cl"
    with that(2) have "(p, ev_id e) \<in> ?E" unfolding set_event_links by blast
    from greedy_order_parents [OF g that(1) this [unfolded that(3)]] show "p \<in> set (take k xs)" by simp
  qed
  have complete: "set xs = dom ?cl"
    if "acyclic {(p, ev_id e) | p e. e \<in> set evs \<and> p \<in> set (parents e)}"
  proof -
    have "acyclic ?E" using that by (rule acyclic_subset) (auto simp: set_event_links)
    moreover have "fst ` ?E \<subseteq> dom ?cl" by (auto simp: set_event_links)
    ultimately show ?thesis
      using greedy_order_complete [OF g] greedy_order_subset [OF g] by auto
  qed
  have "distinct xs" and "set xs \<subseteq> dom ?cl" using greedy_order_subset [OF g] by auto
  with xs parents complete show ?thesis
    unfolding dom [symmetric] by (intro exI [of _ xs] conjI allI ballI impI) simp_all
qed

theorem ordered_ids_topological_witness:
  "\<exists>xs. ordered_ids [demo_message 1 [EventId 0] 5, demo_message 0 [] 9] [] True = Some xs
    \<and> set xs = {EventId 0, EventId 1}"
proof -
  let ?evs = "[demo_message 1 [EventId 0] 5, demo_message 0 [] 9]"
  have E: "{(p, ev_id e) | p e. e \<in> set ?evs \<and> p \<in> set (parents e)} = {(EventId 0, EventId 1)}"
    by (force simp: set_eq_iff)
  have "acyclic {(EventId 0, EventId 1)}" by (simp add: acyclic_insert) (simp add: acyclic_def)
  with ordered_ids_topological [of ?evs "[]" True, unfolded E] show ?thesis by auto
qed

text \<open>
  C7. Two replicas that hold the same events (and archive rows) display them in the same order,
  whatever order they received them in.
\<close>

theorem ordered_ids_deterministic:
  assumes "inj_on ev_id (set evs)" and "set evs = set evs'"
    and "inj_on fst (set archive)" and "set archive = set archive'"
  shows "ordered_ids evs archive logical = ordered_ids evs' archive' logical"
proof -
  let ?cl = "clocks_of evs archive logical"
  have cl: "clocks_of evs' archive' logical = ?cl" using clocks_of_cong [OF assms] by simp
  have E: "set (event_links ?cl evs') = set (event_links ?cl evs)"
    by (simp add: set_event_links assms(2))
  show ?thesis
    using ordered_ids_greedy [of evs archive logical] ordered_ids_greedy [of evs' archive' logical]
      greedy_order_unique unfolding cl E by fastforce
qed

theorem ordered_ids_deterministic_witness:
  "ordered_ids [demo_message 1 [EventId 0] 5, demo_message 0 [] 9] [(EventId 3, 2), (EventId 4, 1)] False
   = ordered_ids [demo_message 0 [] 9, demo_message 1 [EventId 0] 5] [(EventId 4, 1), (EventId 3, 2)] False"
  by (rule ordered_ids_deterministic) auto

end
