(* ===== verification/Event_Sync.thy ===== *)
theory Event_Sync
  imports Event_Order "HOL-Library.Sublist"
begin

text \<open>
  Log reconciliation, from \<^verbatim>\<open>eventlog/sync.rs\<close> and the batch gate and budgets of
  \<^verbatim>\<open>eventlog/sync/network.rs\<close>. The trait \<^verbatim>\<open>SyncStore\<close> is a record of operations
  (\<open>sync_ops\<close>); what the exchange relies on is the locale \<open>sync_store\<close>, interpreted on the
  in-memory log (\<open>elog\<close>). The client proofs are made once in the locale: convergence of
  \<open>reconcile\<close>, progress of bounded rounds, and safety against an arbitrary peer. The encoded
  size of an event is a parameter, as \<^verbatim>\<open>bincode\<close> computes it.
\<close>

section \<open>Messages\<close>

type_synonym usize = "64 word"

text \<open>What stops an operation: an error it returns, or a panic.\<close>

datatype failure = Failed log_error | Panicked

record sync_request =
  rq_conversation :: conversation_id
  rq_have :: "event_id list"

record sync_response =
  rs_conversation :: conversation_id
  rs_events :: "event list"
  rs_have :: "event_id list"

record sync_followup =
  fu_conversation :: conversation_id
  fu_events :: "event list"

record apply_report =
  applied :: nat
  duplicates :: nat
  rejected :: "(event_id \<times> log_error) list"

definition SYNC_MARGIN :: usize where
  "SYNC_MARGIN = 256"

definition MAX_REJECTED_DETAIL :: nat where
  "MAX_REJECTED_DETAIL = 64"

definition fingerprint_input :: "event_id list \<Rightarrow> bytes" where
  "fingerprint_input ids =
     (let sorted_ids = sort ids
      in u64_to_le_bytes (of_nat (length sorted_ids)) @ concat (map (\<lambda>i. array_bytes (eid_bytes i)) sorted_ids))"

definition fingerprint :: "crypto_env \<Rightarrow> event_id list \<Rightarrow> array32" where
  "fingerprint cr ids = sha256 cr (fingerprint_input ids)"

section \<open>The operations of a store\<close>

record 's sync_ops =
  op_event_ids :: "'s \<Rightarrow> conversation_id \<Rightarrow> failure + event_id list"
  op_events_excluding :: "'s \<Rightarrow> conversation_id \<Rightarrow> event_id set \<Rightarrow> failure + event list"
  op_events_excluding_bounded ::
    "'s \<Rightarrow> conversation_id \<Rightarrow> event_id set \<Rightarrow> usize \<Rightarrow> nat \<Rightarrow> failure + event list"
  op_ingest :: "'s \<Rightarrow> event \<Rightarrow> (failure + append_outcome) \<times> 's"

text \<open>The default methods of the trait.\<close>

definition scan_kinds :: "'s sync_ops \<Rightarrow> event_kind set \<Rightarrow> 's \<Rightarrow> conversation_id \<Rightarrow> failure + bool" where
  "scan_kinds ops ks s c =
     bind_result (op_events_excluding ops s c {}) (\<lambda>es. Inr (list_ex (\<lambda>e. kind e \<in> ks) es))"

definition default_requires_channel_v2 :: "'s sync_ops \<Rightarrow> 's \<Rightarrow> conversation_id \<Rightarrow> failure + bool" where
  "default_requires_channel_v2 ops = scan_kinds ops {ChannelReplica}"

definition default_requires_channel_v3 :: "'s sync_ops \<Rightarrow> 's \<Rightarrow> conversation_id \<Rightarrow> failure + bool" where
  "default_requires_channel_v3 ops = scan_kinds ops {ChannelHistoryPolicy, ChannelJoinHistory}"

definition default_requires_channel_v4 :: "'s sync_ops \<Rightarrow> 's \<Rightarrow> conversation_id \<Rightarrow> failure + bool" where
  "default_requires_channel_v4 ops = scan_kinds ops {ChannelAccountAuthority, ChannelDeviceInheritance}"

definition default_requires_channel_v5 :: "'s sync_ops \<Rightarrow> 's \<Rightarrow> conversation_id \<Rightarrow> failure + bool" where
  "default_requires_channel_v5 ops = scan_kinds ops {ChannelMetadata}"

definition fingerprint_and_len ::
  "crypto_env \<Rightarrow> 's sync_ops \<Rightarrow> 's \<Rightarrow> conversation_id \<Rightarrow> failure + (array32 \<times> nat)" where
  "fingerprint_and_len cr ops s c =
     bind_result (op_event_ids ops s c) (\<lambda>ids. Inr (fingerprint cr ids, length ids))"

section \<open>Selecting events\<close>

fun take_by_id :: "(event_id \<rightharpoonup> event) \<Rightarrow> event_id list \<Rightarrow> event list option" where
  "take_by_id by_id [] = Some []"
| "take_by_id by_id (i # is) =
     (case by_id i of
        None \<Rightarrow> None
      | Some e \<Rightarrow> map_option (Cons e) (take_by_id (by_id(i := None)) is))"

definition causal_events :: "event list \<Rightarrow> event list option" where
  "causal_events evs =
     (case ordered_ids evs [] True of
        None \<Rightarrow> None
      | Some order \<Rightarrow> take_by_id (foldl (\<lambda>m e. m(ev_id e \<mapsto> e)) Map.empty evs) order)"

text \<open>\<open>ser\<close> is the size the \<^verbatim>\<open>bincode\<close> crate reports for an event, if it can encode it.\<close>

definition encoded_event_size :: "(event \<Rightarrow> usize option) \<Rightarrow> event \<Rightarrow> usize" where
  "encoded_event_size ser e = (case ser e of Some n \<Rightarrow> n | None \<Rightarrow> - 1)"

fun frame_prefix_from ::
  "('a \<Rightarrow> usize) \<Rightarrow> usize \<Rightarrow> nat \<Rightarrow> usize \<Rightarrow> nat \<Rightarrow> bool \<Rightarrow> 'a list \<Rightarrow> 'a list" where
  "frame_prefix_from sz budget max_frames used frames frame_has_event [] = []"
| "frame_prefix_from sz budget max_frames used frames frame_has_event (e # es) =
     (if max_frames = 0 then []
      else if frame_has_event \<and> saturating_add used (sz e) > budget then
        (if Suc frames = max_frames then []
         else e # frame_prefix_from sz budget max_frames (saturating_add 0 (sz e)) (Suc frames) True es)
      else e # frame_prefix_from sz budget max_frames (saturating_add used (sz e)) frames True es)"

definition frame_prefix :: "'a list \<Rightarrow> usize \<Rightarrow> nat \<Rightarrow> ('a \<Rightarrow> usize) \<Rightarrow> 'a list" where
  "frame_prefix es budget max_frames sz = frame_prefix_from sz budget max_frames 0 0 False es"

definition cap_event_frames ::
  "(event \<Rightarrow> usize option) \<Rightarrow> event list \<Rightarrow> usize \<Rightarrow> nat \<Rightarrow> event list" where
  "cap_event_frames ser es budget max_frames = frame_prefix es budget max_frames (encoded_event_size ser)"

definition bounded_events ::
  "(event \<Rightarrow> usize option) \<Rightarrow> event list \<Rightarrow> usize \<Rightarrow> nat \<Rightarrow> event list" where
  "bounded_events ser es budget max_frames = frame_prefix es budget max_frames (encoded_event_size ser)"

definition default_events_excluding_bounded ::
  "(event \<Rightarrow> usize option) \<Rightarrow> ('s \<Rightarrow> conversation_id \<Rightarrow> event_id set \<Rightarrow> failure + event list)
   \<Rightarrow> 's \<Rightarrow> conversation_id \<Rightarrow> event_id set \<Rightarrow> usize \<Rightarrow> nat \<Rightarrow> failure + event list" where
  "default_events_excluding_bounded ser excluding s c have budget max_frames =
     bind_result (excluding s c have) (\<lambda>es. Inr (cap_event_frames ser es budget max_frames))"

section \<open>The in-memory log as a store\<close>

definition log_event_ids :: "event_log \<Rightarrow> conversation_id \<Rightarrow> failure + event_id list" where
  "log_event_ids l c = Inr (map ev_id (log_events l c))"

definition log_events_excluding ::
  "event_log \<Rightarrow> conversation_id \<Rightarrow> event_id set \<Rightarrow> failure + event list" where
  "log_events_excluding l c have =
     (case causal_events (log_events l c) of
        None \<Rightarrow> Inl Panicked
      | Some es \<Rightarrow> Inr (filter (\<lambda>e. ev_id e \<notin> have) es))"

definition log_events_excluding_bounded ::
  "(event \<Rightarrow> usize option) \<Rightarrow> event_log \<Rightarrow> conversation_id \<Rightarrow> event_id set \<Rightarrow> usize \<Rightarrow> nat
   \<Rightarrow> failure + event list" where
  "log_events_excluding_bounded ser l c have budget max_frames =
     (case causal_events (log_events l c) of
        None \<Rightarrow> Inl Panicked
      | Some es \<Rightarrow> Inr (bounded_events ser (filter (\<lambda>e. ev_id e \<notin> have) es) budget max_frames))"

definition log_ingest :: "crypto_env \<Rightarrow> event_log \<Rightarrow> event \<Rightarrow> (failure + append_outcome) \<times> event_log" where
  "log_ingest cr l e =
     (case log_append cr l e of
        Inl err \<Rightarrow> (Inl (Failed err), l)
      | Inr (outcome, l') \<Rightarrow> (Inr outcome, l'))"

definition event_log_ops :: "crypto_env \<Rightarrow> (event \<Rightarrow> usize option) \<Rightarrow> event_log sync_ops" where
  "event_log_ops cr ser =
     \<lparr>op_event_ids = log_event_ids,
      op_events_excluding = log_events_excluding,
      op_events_excluding_bounded = log_events_excluding_bounded ser,
      op_ingest = log_ingest cr\<rparr>"

section \<open>The exchange\<close>

definition build_request :: "'s sync_ops \<Rightarrow> 's \<Rightarrow> conversation_id \<Rightarrow> failure + sync_request" where
  "build_request ops s c =
     bind_result (op_event_ids ops s c) (\<lambda>ids. Inr \<lparr>rq_conversation = c, rq_have = ids\<rparr>)"

definition handle_request_bounded ::
  "'s sync_ops \<Rightarrow> 's \<Rightarrow> sync_request \<Rightarrow> usize \<Rightarrow> failure + sync_response" where
  "handle_request_bounded ops s request frame_budget =
     bind_result (op_event_ids ops s (rq_conversation request)) (\<lambda>responder_have.
       bind_result
         (op_events_excluding_bounded ops s (rq_conversation request) (set (rq_have request))
            (saturating_sub frame_budget SYNC_MARGIN) 1)
         (\<lambda>events. Inr \<lparr>rs_conversation = rq_conversation request, rs_events = events,
                        rs_have = responder_have\<rparr>))"

definition handle_request :: "'s sync_ops \<Rightarrow> 's \<Rightarrow> sync_request \<Rightarrow> failure + sync_response" where
  "handle_request ops s request = handle_request_bounded ops s request (- 1)"

text \<open>
  The batch gate. A rejection is kept as the error itself, where the source keeps the text the
  error prints.
\<close>

fun apply_received_from ::
  "('s \<Rightarrow> event \<Rightarrow> (failure + append_outcome) \<times> 's) \<Rightarrow> 's \<Rightarrow> event list \<Rightarrow> apply_report
   \<Rightarrow> 's \<times> (failure + apply_report)" where
  "apply_received_from ingest s [] report = (s, Inr report)"
| "apply_received_from ingest s (e # es) report =
     (case ingest s e of
        (Inr Appended, s') \<Rightarrow> apply_received_from ingest s' es (report\<lparr>applied := applied report + 1\<rparr>)
      | (Inr Duplicate, s') \<Rightarrow>
          apply_received_from ingest s' es (report\<lparr>duplicates := duplicates report + 1\<rparr>)
      | (Inl (Failed err), s') \<Rightarrow>
          if is_peer_rejection err then
            apply_received_from ingest s' es
              (if length (rejected report) < MAX_REJECTED_DETAIL
               then report\<lparr>rejected := rejected report @ [(ev_id e, err)]\<rparr> else report)
          else (s', Inl (Failed err))
      | (Inl Panicked, s') \<Rightarrow> (s', Inl Panicked))"

definition apply_received_events ::
  "('s \<Rightarrow> event \<Rightarrow> (failure + append_outcome) \<times> 's) \<Rightarrow> 's \<Rightarrow> event list
   \<Rightarrow> 's \<times> (failure + apply_report)" where
  "apply_received_events ingest s es =
     apply_received_from ingest s es \<lparr>applied = 0, duplicates = 0, rejected = []\<rparr>"

definition ingest_all :: "'s sync_ops \<Rightarrow> 's \<Rightarrow> event list \<Rightarrow> 's \<times> (failure + apply_report)" where
  "ingest_all ops s es = apply_received_events (op_ingest ops) s es"

fun pack_followups ::
  "(event \<Rightarrow> usize) \<Rightarrow> conversation_id \<Rightarrow> usize \<Rightarrow> nat \<Rightarrow> sync_followup list \<Rightarrow> event list \<Rightarrow> usize
   \<Rightarrow> event list \<Rightarrow> sync_followup list" where
  "pack_followups sz c budget max_frames frames events used [] =
     (if events \<noteq> [] \<and> length frames < max_frames
      then frames @ [\<lparr>fu_conversation = c, fu_events = events\<rparr>] else frames)"
| "pack_followups sz c budget max_frames frames events used (e # es) =
     (if events \<noteq> [] \<and> saturating_add used (sz e) > budget then
        let frames' = frames @ [\<lparr>fu_conversation = c, fu_events = events\<rparr>]
        in if length frames' = max_frames then frames'
           else pack_followups sz c budget max_frames frames' [e] (saturating_add 0 (sz e)) es
      else pack_followups sz c budget max_frames frames (events @ [e]) (saturating_add used (sz e)) es)"

definition followup_frames ::
  "(event \<Rightarrow> usize option) \<Rightarrow> conversation_id \<Rightarrow> event list \<Rightarrow> usize \<Rightarrow> nat \<Rightarrow> sync_followup list" where
  "followup_frames ser c all_missing budget max_frames =
     pack_followups (encoded_event_size ser) c budget max_frames [] [] 0 all_missing"

definition handle_response_bounded_burst ::
  "(event \<Rightarrow> usize option) \<Rightarrow> 's sync_ops \<Rightarrow> 's \<Rightarrow> sync_response \<Rightarrow> usize \<Rightarrow> nat
   \<Rightarrow> 's \<times> (failure + (apply_report \<times> sync_followup list))" where
  "handle_response_bounded_burst ser ops s response frame_budget max_frames =
     (case ingest_all ops s (rs_events response) of
        (s', Inl err) \<Rightarrow> (s', Inl err)
      | (s', Inr report) \<Rightarrow>
          let budget = saturating_sub frame_budget SYNC_MARGIN
          in (s', bind_result
               (op_events_excluding_bounded ops s' (rs_conversation response) (set (rs_have response))
                  budget max_frames)
               (\<lambda>all_missing.
                  Inr (report, followup_frames ser (rs_conversation response) all_missing budget max_frames))))"

definition handle_response_bounded ::
  "(event \<Rightarrow> usize option) \<Rightarrow> 's sync_ops \<Rightarrow> 's \<Rightarrow> sync_response \<Rightarrow> usize
   \<Rightarrow> 's \<times> (failure + (apply_report \<times> sync_followup))" where
  "handle_response_bounded ser ops s response frame_budget =
     (case handle_response_bounded_burst ser ops s response frame_budget 1 of
        (s', r) \<Rightarrow> (s', bind_result r (\<lambda>(report, frames).
          Inr (report,
               if frames = [] then \<lparr>fu_conversation = rs_conversation response, fu_events = []\<rparr>
               else last frames))))"

definition handle_response ::
  "(event \<Rightarrow> usize option) \<Rightarrow> 's sync_ops \<Rightarrow> 's \<Rightarrow> sync_response
   \<Rightarrow> 's \<times> (failure + (apply_report \<times> sync_followup))" where
  "handle_response ser ops s response = handle_response_bounded ser ops s response (- 1)"

definition handle_followup :: "'s sync_ops \<Rightarrow> 's \<Rightarrow> sync_followup \<Rightarrow> 's \<times> (failure + apply_report)" where
  "handle_followup ops s followup = ingest_all ops s (fu_events followup)"

definition reconcile ::
  "(event \<Rightarrow> usize option) \<Rightarrow> 'a sync_ops \<Rightarrow> 'b sync_ops \<Rightarrow> 'a \<Rightarrow> 'b \<Rightarrow> conversation_id
   \<Rightarrow> ('a \<times> 'b) \<times> (failure + (apply_report \<times> apply_report))" where
  "reconcile ser opsA opsB a b c =
     (case build_request opsA a c of
        Inl err \<Rightarrow> ((a, b), Inl err)
      | Inr request \<Rightarrow>
      (case handle_request opsB b request of
        Inl err \<Rightarrow> ((a, b), Inl err)
      | Inr response \<Rightarrow>
      (case handle_response ser opsA a response of
        (a', Inl err) \<Rightarrow> ((a', b), Inl err)
      | (a', Inr (report_a, followup)) \<Rightarrow>
      (case handle_followup opsB b followup of
        (b', Inl err) \<Rightarrow> ((a', b'), Inl err)
      | (b', Inr report_b) \<Rightarrow> ((a', b'), Inr (report_a, report_b))))))"

section \<open>Frames\<close>

lemma frame_prefix_from_prefix: "prefix (frame_prefix_from sz b n used k has es) es"
  by (induction sz b n used k has es rule: frame_prefix_from.induct) auto

lemma frame_prefix_prefix: "prefix (frame_prefix es b n sz) es"
  by (simp add: frame_prefix_def frame_prefix_from_prefix)

lemma frame_prefix_Cons:
  "0 < n \<Longrightarrow> \<exists>rest. frame_prefix (e # es) b n sz = e # rest"
  by (simp add: frame_prefix_def)

definition frame_size :: "('a \<Rightarrow> usize) \<Rightarrow> 'a list \<Rightarrow> nat" where
  "frame_size sz es = sum_list (map (\<lambda>e. unat (sz e)) es)"

lemma frame_size_simps [simp]:
  "frame_size sz [] = 0"
  "frame_size sz (e # es) = unat (sz e) + frame_size sz es"
  "frame_size sz (es @ fs) = frame_size sz es + frame_size sz fs"
  by (simp_all add: frame_size_def)

lemma saturating_add_le:
  fixes a b c :: "'a::len word"
  shows "unat a + unat b \<le> unat c \<Longrightarrow> saturating_add a b \<le> c"
  by (simp add: word_le_nat_alt unat_saturating_add)

lemma frame_prefix_from_all:
  "0 < n \<Longrightarrow> unat used + frame_size sz es \<le> unat b \<Longrightarrow> frame_prefix_from sz b n used k has es = es"
proof (induction es arbitrary: used k has)
  case (Cons e es)
  have "saturating_add used (sz e) \<le> b" using Cons.prems by (intro saturating_add_le) simp
  moreover have "unat (saturating_add used (sz e)) + frame_size sz es \<le> unat b"
    using Cons.prems by (simp add: unat_saturating_add)
  ultimately show ?case using Cons by auto
qed simp

lemma frame_prefix_all: "0 < n \<Longrightarrow> frame_size sz es \<le> unat b \<Longrightarrow> frame_prefix es b n sz = es"
  by (simp add: frame_prefix_def frame_prefix_from_all)

text \<open>The packer sends exactly the greedy prefix, whatever it is given.\<close>

lemma pack_followups_concat:
  assumes "length frames < n"
  shows "concat (map fu_events (pack_followups sz c b n frames events used es))
    = concat (map fu_events frames) @ events @ frame_prefix_from sz b n used (length frames) (events \<noteq> []) es"
  using assms
  by (induction sz c b n frames events used es rule: pack_followups.induct) (auto simp: Let_def)

definition frame_ok :: "(event \<Rightarrow> usize) \<Rightarrow> usize \<Rightarrow> event list \<Rightarrow> bool" where
  "frame_ok sz b es \<longleftrightarrow> es \<noteq> [] \<and> (length es = 1 \<or> frame_size sz es \<le> unat b)"

lemma saturating_within:
  fixes used add b :: usize
  assumes "unat used = min size_so_far (2 ^ 64 - 1)" and "\<not> saturating_add used add > b" and "b < - 1"
  shows "size_so_far + unat add \<le> unat b"
proof -
  have "unat b < 2 ^ 64 - 1" using assms(3) by (simp add: word_less_nat_alt unsigned_minus_1_eq_mask mask_eq_exp_minus_1)
  moreover have "min (unat used + unat add) (2 ^ 64 - 1) \<le> unat b"
    using assms(2) by (simp add: not_less word_le_nat_alt unat_saturating_add)
  ultimately show ?thesis using assms(1) by linarith
qed

lemma pack_followups_frames:
  assumes "length frames < n" and "b < - 1"
    and "\<forall>f\<in>set frames. fu_conversation f = c \<and> frame_ok sz b (fu_events f)"
    and "events \<noteq> [] \<longrightarrow> frame_ok sz b events"
    and "unat used = min (frame_size sz events) (2 ^ 64 - 1)"
  shows "length (pack_followups sz c b n frames events used es) \<le> n
    \<and> (\<forall>f\<in>set (pack_followups sz c b n frames events used es).
         fu_conversation f = c \<and> frame_ok sz b (fu_events f))"
  using assms
proof (induction sz c b n frames events used es rule: pack_followups.induct)
  case (1 sz c b n frames events used)
  then show ?case by auto
next
  case (2 sz c b n frames events used e es)
  have sat: "unat (saturating_add used (sz e)) = min (frame_size sz (events @ [e])) (2 ^ 64 - 1)"
    using 2(7) by (simp add: unat_saturating_add min_def)
  have sat0: "unat (saturating_add 0 (sz e)) = min (frame_size sz [e]) (2 ^ 64 - 1)"
    by (simp add: unat_saturating_add)
  show ?case
  proof (cases "events \<noteq> [] \<and> saturating_add used (sz e) > b")
    case True
    let ?frames = "frames @ [\<lparr>fu_conversation = c, fu_events = events\<rparr>]"
    have fr: "\<forall>f\<in>set ?frames. fu_conversation f = c \<and> frame_ok sz b (fu_events f)"
      using True 2(5,6) by auto
    show ?thesis
    proof (cases "length ?frames = n")
      case full: True
      then have "pack_followups sz c b n frames events used (e # es) = ?frames"
        using True by (simp add: Let_def)
      then show ?thesis using fr full by simp
    next
      case False
      then have "length ?frames < n" using 2(3) by simp
      moreover have "frame_ok sz b [e]" by (simp add: frame_ok_def)
      ultimately show ?thesis
        using 2(1) [OF True refl False] 2(4) fr sat0 True False by (simp add: Let_def)
    qed
  next
    case False
    have "frame_ok sz b (events @ [e])"
      using False saturating_within [OF 2(7) _ 2(4), of "sz e"] by (auto simp: frame_ok_def)
    then show ?thesis using 2(2) [OF False] 2(3-5) sat False by auto
  qed
qed

section \<open>Causal lists\<close>

fun causal :: "event_id set \<Rightarrow> event list \<Rightarrow> bool" where
  "causal K [] = True"
| "causal K (e # es) = (set (parents e) \<subseteq> K \<and> causal (insert (ev_id e) K) es)"

lemma causal_mono: "causal K es \<Longrightarrow> K \<subseteq> K' \<Longrightarrow> causal K' es"
proof (induction es arbitrary: K K')
  case (Cons e es)
  then have "causal (insert (ev_id e) K') es" by (meson causal.simps(2) insert_mono)
  with Cons.prems show ?case by auto
qed simp

lemma causal_append: "causal K (es @ fs) \<longleftrightarrow> causal K es \<and> causal (K \<union> ev_id ` set es) fs"
  by (induction es arbitrary: K) auto

lemma causal_prefix: "prefix es fs \<Longrightarrow> causal K fs \<Longrightarrow> causal K es"
  by (auto simp: prefix_def causal_append)

lemma causal_filter: "causal K es \<Longrightarrow> causal (K \<union> H) (filter (\<lambda>e. ev_id e \<notin> H) es)"
proof (induction es arbitrary: K)
  case (Cons e es)
  from Cons.IH [of "insert (ev_id e) K"] Cons.prems show ?case
    by (auto simp: insert_absorb)
qed simp

lemma take_by_id_eq:
  assumes "distinct is" and "set is \<subseteq> dom by_id"
  shows "take_by_id by_id is = Some (map (\<lambda>i. the (by_id i)) is)"
  using assms
proof (induction "is" arbitrary: by_id)
  case (Cons i "is")
  then obtain e where e: "by_id i = Some e" by auto
  have "map (\<lambda>j. the ((by_id(i := None)) j)) is = map (\<lambda>j. the (by_id j)) is"
    using Cons.prems by auto
  moreover have "take_by_id (by_id(i := None)) is = Some (map (\<lambda>j. the ((by_id(i := None)) j)) is)"
    using Cons.prems by (intro Cons.IH) auto
  ultimately show ?case using e by (simp del: fun_upd_apply)
qed simp

lemma greedy_order_causal:
  assumes "greedy_order clocks E D xs"
    and "\<And>i p. i \<in> dom clocks \<Longrightarrow> p \<in> set (parents (ev i)) \<Longrightarrow> (p, i) \<in> E \<or> p \<in> K"
    and "\<And>i. i \<in> dom clocks \<Longrightarrow> ev_id (ev i) = i"
  shows "causal (K \<union> D) (map ev xs)"
  using assms(1)
proof (induction rule: greedy_order.induct)
  case (pick i D xs)
  then have i: "i \<in> dom clocks" "\<And>p. (p, i) \<in> E \<Longrightarrow> p \<in> D" by (auto simp: available_def)
  then have "set (parents (ev i)) \<subseteq> K \<union> D" using assms(2) by blast
  with pick.IH i(1) assms(3) show ?case by simp
qed simp

definition event_edges :: "event set \<Rightarrow> (event_id \<times> event_id) set" where
  "event_edges S = {(p, ev_id e) | p e. e \<in> S \<and> p \<in> set (parents e)}"

lemma causal_order_spec:
  assumes inj: "inj_on ev_id (set evs)" and acyclic: "acyclic (event_edges (set evs))"
    and closed: "\<And>e. e \<in> set evs \<Longrightarrow> set (parents e) \<subseteq> K \<union> ev_id ` set evs"
  shows "\<exists>es. ordered_ids evs [] True = Some (map ev_id es) \<and> causal_events evs = Some es
    \<and> set es = set evs \<and> distinct (map ev_id es) \<and> causal K es"
proof -
  let ?cl = "clocks_of evs [] True" and ?by = "foldl (\<lambda>m e. m(ev_id e \<mapsto> e)) Map.empty evs"
  let ?E = "set (event_links ?cl evs)"
  let ?ev = "\<lambda>i. the (?by i)"
  note dom = dom_clocks_of [of evs "[]" True, simplified]
  have dom_by: "dom ?by = ev_id ` set evs" by (simp add: foldl_upd_dom)
  have by_id: "?by (ev_id e) = Some e" if "e \<in> set evs" for e
    using foldl_upd_mem [OF inj that, of "\<lambda>e. e"] .
  obtain xs where xs: "ordered_ids evs [] True = Some xs" and g: "greedy_order ?cl ?E {} xs"
    using ordered_ids_greedy [of evs "[]" True] by blast
  have "acyclic ?E"
    using acyclic by (rule acyclic_subset) (auto simp: set_event_links event_edges_def)
  moreover have "fst ` ?E \<subseteq> dom ?cl" by (auto simp: set_event_links)
  ultimately have all: "set xs = ev_id ` set evs"
    using greedy_order_complete [OF g] greedy_order_subset [OF g] dom List.finite_set [of "event_links ?cl evs"] by auto
  have dist: "distinct xs" using greedy_order_subset [OF g] by simp
  have id: "ev_id (?ev i) = i" if "i \<in> dom ?cl" for i using that by_id dom by auto
  have "(p, i) \<in> ?E \<or> p \<in> K" if i: "i \<in> dom ?cl" and p: "p \<in> set (parents (?ev i))" for i p
  proof -
    obtain e where e: "e \<in> set evs" "i = ev_id e" "?ev i = e" using i by_id dom by auto
    have "p \<in> K \<or> p \<in> dom ?cl" using p closed [OF e(1)] e(3) dom by auto
    moreover have "p \<in> set (parents e)" using p e(3) by simp
    ultimately show ?thesis unfolding set_event_links e(2) using e(1) by blast
  qed
  from greedy_order_causal [OF g this id] have "causal K (map ?ev xs)" by simp
  moreover have "map ev_id (map ?ev xs) = xs"
    using id all dom by (auto intro!: map_idI)
  moreover have "set (map ?ev xs) = set evs"
    using all by_id by (auto simp: image_image)
  ultimately show ?thesis
    using xs take_by_id_eq [of xs ?by] dist all dom_by
    by (intro exI [of _ "map ?ev xs"]) (auto simp: causal_events_def)
qed

lemma log_causal_events:
  assumes wf: "log_wf cr l"
  shows "\<exists>es. causal_events (log_events l c) = Some es \<and> set es = conv_set (l_events l) c
    \<and> distinct (map ev_id es) \<and> causal {} es"
proof -
  let ?S = "conv_set (l_events l) c"
  note dag = log_wfD(1) [OF wf] and evs = log_events_keys(2) [OF wf, of c]
  have "inj_on ev_id ?S" using distinct_log_events [OF wf, of c] by (simp add: distinct_map evs)
  moreover have "acyclic (event_edges ?S)"
    using event_dagD(5) [OF dag]
    by (rule acyclic_subset) (auto simp: event_edges_def parent_edges_def dest: conv_setD [OF dag])
  moreover have "set (parents e) \<subseteq> ev_id ` ?S" if "e \<in> ?S" for e
  proof
    fix p assume "p \<in> set (parents e)"
    then obtain q where "l_events l p = Some q" "conversation_id q = c"
      using event_dagD(4) [OF dag, of "ev_id e" e p] conv_setD [OF dag, of e c] \<open>e \<in> ?S\<close> by auto
    then show "p \<in> ev_id ` ?S"
      using event_dagD(2) [OF dag] by (metis conv_setI image_eqI)
  qed
  ultimately show ?thesis using causal_order_spec [of "log_events l c" "{}"] unfolding evs by auto
qed

text \<open>The report accounts for every event of the batch, up to the cap on recorded rejections.\<close>

lemma apply_received_from_report:
  "apply_received_from ingest s es rep = (s', Inr rep') \<Longrightarrow> length (rejected rep) \<le> MAX_REJECTED_DETAIL \<Longrightarrow>
    length (rejected rep) \<le> length (rejected rep') \<and> length (rejected rep') \<le> MAX_REJECTED_DETAIL
    \<and> (length (rejected rep') < MAX_REJECTED_DETAIL \<longrightarrow>
        applied rep' + duplicates rep' + length (rejected rep')
          = applied rep + duplicates rep + length (rejected rep) + length es)"
proof (induction es arbitrary: s rep)
  case (Cons e es)
  then show ?case
    by (fastforce split: prod.splits sum.splits append_outcome.splits failure.splits if_splits)
qed simp

lemma pack_followups_fits:
  "0 < n \<Longrightarrow> unat used + frame_size sz es \<le> unat b \<Longrightarrow> events @ es \<noteq> [] \<Longrightarrow>
    pack_followups sz c b n [] events used es = [\<lparr>fu_conversation = c, fu_events = events @ es\<rparr>]"
proof (induction es arbitrary: events used)
  case (Cons e es)
  have "saturating_add used (sz e) \<le> b" using Cons.prems by (intro saturating_add_le) simp
  moreover have "unat (saturating_add used (sz e)) + frame_size sz es \<le> unat b"
    using Cons.prems by (simp add: unat_saturating_add)
  ultimately show ?case using Cons by auto
qed simp

lemma followup_frames_fits:
  "frame_size (encoded_event_size ser) es \<le> unat b \<Longrightarrow>
    followup_frames ser c es b 1 = (if es = [] then [] else [\<lparr>fu_conversation = c, fu_events = es\<rparr>])"
  by (simp add: followup_frames_def pack_followups_fits)

lemma frame_size_distinct: "distinct es \<Longrightarrow> frame_size sz es = (\<Sum>e\<in>set es. unat (sz e))"
  by (simp add: frame_size_def sum_list_distinct_conv_sum_set)

definition fits_one_frame ::
  "(event \<Rightarrow> usize option) \<Rightarrow> event set \<Rightarrow> bool" where
  "fits_one_frame ser S \<longleftrightarrow>
     finite S \<and> (\<Sum>e\<in>S. unat (encoded_event_size ser e)) \<le> unat (saturating_sub (- 1) SYNC_MARGIN)"

lemma fits_one_frame_size:
  assumes "fits_one_frame ser S" and "distinct es" and "set es \<subseteq> S"
  shows "frame_size (encoded_event_size ser) es \<le> unat (saturating_sub (- 1) SYNC_MARGIN)"
proof -
  have "(\<Sum>e\<in>set es. unat (encoded_event_size ser e)) \<le> (\<Sum>e\<in>S. unat (encoded_event_size ser e))"
    using assms by (intro sum_mono2) (auto simp: fits_one_frame_def)
  then show ?thesis using assms by (simp add: frame_size_distinct fits_one_frame_def)
qed

section \<open>Mergeable stores\<close>

text \<open>
  Two stores can be merged in a conversation when no two of their events share an id or an
  author's sequence number there.
\<close>

definition mergeable :: "(event_id \<rightharpoonup> event) \<Rightarrow> (event_id \<rightharpoonup> event) \<Rightarrow> conversation_id \<Rightarrow> bool" where
  "mergeable M N c \<longleftrightarrow>
     inj_on ev_id (ran M \<union> ran N)
     \<and> inj_on (\<lambda>e. (author e, seq e)) (conv_set M c \<union> conv_set N c)"

lemma mergeable_missing:
  assumes "event_dag cr M" and "mergeable M N c"
    and "e \<in> conv_set N c" and "ev_id e \<notin> ev_id ` conv_set M c"
  shows "M (ev_id e) = None"
proof (rule ccontr)
  assume "M (ev_id e) \<noteq> None"
  then obtain f where f: "M (ev_id e) = Some f" by blast
  have "ev_id f = ev_id e" using event_dagD(2) [OF assms(1) f] .
  moreover have "f \<in> ran M" "e \<in> ran N" using f assms(3) by (auto simp: conv_set_def intro: ranI)
  ultimately have "f = e" using assms(2) by (auto simp: mergeable_def inj_on_def)
  with f assms(3,4) show False by (auto simp: conv_set_def intro: ranI)
qed

lemma mergeable_cong:
  assumes "mergeable M N c" and "ran M' \<union> ran N' \<subseteq> ran M \<union> ran N"
  shows "mergeable M' N' c"
proof -
  have "conv_set M' c \<union> conv_set N' c \<subseteq> conv_set M c \<union> conv_set N c"
    using assms(2) by (auto simp: conv_set_def)
  with assms show ?thesis unfolding mergeable_def by (blast intro: inj_on_subset)
qed

section \<open>The contract of a store\<close>

text \<open>
  What the exchange relies on: \<open>events_of\<close> is the set of events a store holds, by id. The
  exports list the conversation causally; \<open>ingest\<close> is the append gate, and what it refuses
  it refuses as the peer's fault and without a change.
\<close>

locale sync_store =
  fixes ops :: "'s sync_ops" and ser :: "event \<Rightarrow> usize option" and cr :: crypto_env
    and events_of :: "'s \<Rightarrow> event_id \<Rightarrow> event option" and inv :: "'s \<Rightarrow> bool"
  assumes dag: "inv s \<Longrightarrow> event_dag cr (events_of s)"
    and event_ids: "inv s \<Longrightarrow>
      \<exists>ids. op_event_ids ops s c = Inr ids \<and> set ids = ev_id ` conv_set (events_of s) c"
    and events_excluding: "inv s \<Longrightarrow>
      \<exists>es. op_events_excluding ops s c have = Inr es \<and> distinct (map ev_id es)
        \<and> set es = {e \<in> conv_set (events_of s) c. ev_id e \<notin> have} \<and> causal have es"
    and events_excluding_bounded: "op_events_excluding ops s c have = Inr es \<Longrightarrow>
      op_events_excluding_bounded ops s c have budget n
        = Inr (frame_prefix es budget n (encoded_event_size ser))"
    and ingest_fresh: "inv s \<Longrightarrow> event_valid cr e \<Longrightarrow> fresh_event (events_of s) e \<Longrightarrow>
      \<exists>s'. op_ingest ops s e = (Inr Appended, s') \<and> inv s' \<and> events_of s' = (events_of s)(ev_id e \<mapsto> e)"
    and ingest_other: "inv s \<Longrightarrow> \<not> (event_valid cr e \<and> fresh_event (events_of s) e) \<Longrightarrow>
      op_ingest ops s e = (Inr Duplicate, s)
      \<or> (\<exists>err. op_ingest ops s e = (Inl (Failed err), s) \<and> is_peer_rejection err)"
begin

text \<open>Whatever a peer sends: only valid events enter, and nothing is lost.\<close>

lemma ingest_step:
  assumes "inv s"
  shows "\<exists>r s'. op_ingest ops s e = (r, s') \<and> inv s' \<and> events_of s \<subseteq>\<^sub>m events_of s'
    \<and> ran (events_of s') \<subseteq> ran (events_of s) \<union> {f. f = e \<and> event_valid cr f}
    \<and> (r = Inr Appended \<and> card (dom (events_of s')) = Suc (card (dom (events_of s)))
       \<or> s' = s \<and> (r = Inr Duplicate \<or> (\<exists>err. r = Inl (Failed err) \<and> is_peer_rejection err)))"
proof (cases "event_valid cr e \<and> fresh_event (events_of s) e")
  case True
  then obtain s1 where s1: "op_ingest ops s e = (Inr Appended, s1)" "inv s1"
    "events_of s1 = (events_of s)(ev_id e \<mapsto> e)"
    using ingest_fresh [OF assms] by blast
  have new: "events_of s (ev_id e) = None" using True by (simp add: fresh_event_def)
  have "card (dom (events_of s1)) = Suc (card (dom (events_of s)))"
    using event_dagD(1) [OF dag [OF assms]] new by (simp add: s1(3) domIff)
  moreover have "events_of s \<subseteq>\<^sub>m events_of s1" using new by (auto simp: s1(3) map_le_def)
  moreover have "ran (events_of s1) = insert e (ran (events_of s))" using new by (simp add: s1(3))
  ultimately show ?thesis using True s1 by auto
next
  case False
  from ingest_other [OF assms this] assms show ?thesis by (auto simp: map_le_def)
qed

lemma apply_received_from_safe:
  assumes "inv s"
  shows "\<exists>s' rep'. apply_received_from (op_ingest ops) s es rep = (s', Inr rep') \<and> inv s'
    \<and> events_of s \<subseteq>\<^sub>m events_of s'
    \<and> ran (events_of s') \<subseteq> ran (events_of s) \<union> {e \<in> set es. event_valid cr e}
    \<and> applied rep' + card (dom (events_of s)) = applied rep + card (dom (events_of s'))"
  using assms
proof (induction es arbitrary: s rep)
  case (Cons e es)
  from ingest_step [OF Cons.prems] obtain r s1 where
    s1: "op_ingest ops s e = (r, s1)" "inv s1" "events_of s \<subseteq>\<^sub>m events_of s1"
      "ran (events_of s1) \<subseteq> ran (events_of s) \<union> {f. f = e \<and> event_valid cr f}"
      "r = Inr Appended \<and> card (dom (events_of s1)) = Suc (card (dom (events_of s)))
       \<or> s1 = s \<and> (r = Inr Duplicate \<or> (\<exists>err. r = Inl (Failed err) \<and> is_peer_rejection err))"
    by blast
  then obtain rep1 where
    rep1: "apply_received_from (op_ingest ops) s (e # es) rep = apply_received_from (op_ingest ops) s1 es rep1"
      "applied rep1 + card (dom (events_of s)) = applied rep + card (dom (events_of s1))"
    by fastforce
  from Cons.IH [OF s1(2), of rep1] obtain s' rep' where
    "apply_received_from (op_ingest ops) s1 es rep1 = (s', Inr rep')" "inv s'" "events_of s1 \<subseteq>\<^sub>m events_of s'"
    "ran (events_of s') \<subseteq> ran (events_of s1) \<union> {e \<in> set es. event_valid cr e}"
    "applied rep' + card (dom (events_of s1)) = applied rep1 + card (dom (events_of s'))"
    by blast
  with rep1 s1(3,4) show ?case
    by (intro exI [of _ s'] exI [of _ rep']) (auto intro: map_le_trans)
qed simp

text \<open>A causal list of valid events that conflict with nothing is taken whole.\<close>

lemma fresh_eventI:
  assumes "inv s" and "events_of s (ev_id e) = None"
    and "set (parents e) \<subseteq> ev_id ` conv_set (events_of s) (conversation_id e)"
    and "\<And>f. f \<in> conv_set (events_of s) (conversation_id e) \<Longrightarrow> (author f, seq f) \<noteq> (author e, seq e)"
  shows "fresh_event (events_of s) e"
proof -
  note d = dag [OF assms(1)]
  have "\<exists>q. events_of s p = Some q \<and> conversation_id q = conversation_id e" if "p \<in> set (parents e)" for p
    using that assms(3) conv_setD [OF d] by blast
  moreover have "ev_id e \<notin> set (parents f)" if "f \<in> ran (events_of s)" for f
    using that event_dagD(4) [OF d] assms(2) by (fastforce simp: ran_def)
  moreover have "seq f \<noteq> seq e"
    if "f \<in> ran (events_of s)" "conversation_id f = conversation_id e" "author f = author e" for f
    using that assms(4) [of f] by (auto simp: conv_set_def)
  ultimately show ?thesis unfolding fresh_event_def using assms(2) by blast
qed

lemma ingest_causal:
  assumes "inv s" and "causal (ev_id ` conv_set (events_of s) c) es" and "distinct (map ev_id es)"
    and "\<forall>e\<in>set es. event_valid cr e \<and> conversation_id e = c \<and> events_of s (ev_id e) = None"
    and "inj_on (\<lambda>e. (author e, seq e)) (conv_set (events_of s) c \<union> set es)"
  shows "\<exists>s'. apply_received_from (op_ingest ops) s es rep
      = (s', Inr (rep\<lparr>applied := applied rep + length es\<rparr>))
    \<and> inv s' \<and> ran (events_of s') = ran (events_of s) \<union> set es"
  using assms
proof (induction es arbitrary: s rep)
  case (Cons e es)
  have new: "events_of s (ev_id e) = None" and c: "conversation_id e = c" "event_valid cr e"
    using Cons.prems(4) by auto
  have "e \<notin> conv_set (events_of s) c"
    using new conv_setD(1) [OF dag [OF Cons.prems(1)]] by force
  then have "fresh_event (events_of s) e"
    using Cons.prems c new by (intro fresh_eventI) (auto simp: inj_on_def)
  then obtain s1 where s1: "op_ingest ops s e = (Inr Appended, s1)" "inv s1"
    "events_of s1 = (events_of s)(ev_id e \<mapsto> e)"
    using ingest_fresh [OF Cons.prems(1)] c by blast
  have conv: "conv_set (events_of s1) c = insert e (conv_set (events_of s) c)"
    using conv_set_upd [of "events_of s" "ev_id e" e, OF new] c by (simp add: s1(3))
  have "causal (ev_id ` conv_set (events_of s1) c) es" using Cons.prems(2) by (simp add: conv)
  moreover have "ev_id f \<noteq> ev_id e" if "f \<in> set es" for f
    using Cons.prems(3) imageI [OF that, of ev_id] by auto
  then have "\<forall>f\<in>set es. event_valid cr f \<and> conversation_id f = c \<and> events_of s1 (ev_id f) = None"
    using Cons.prems(4) by (simp add: s1(3))
  moreover have "inj_on (\<lambda>e. (author e, seq e)) (conv_set (events_of s1) c \<union> set es)"
    using Cons.prems(5) by (simp add: conv)
  ultimately obtain s' where
    "apply_received_from (op_ingest ops) s1 es (rep\<lparr>applied := applied rep + 1\<rparr>)
      = (s', Inr (rep\<lparr>applied := applied rep + 1 + length es\<rparr>))"
    "inv s'" "ran (events_of s') = ran (events_of s1) \<union> set es"
    using Cons.IH [OF s1(2), of "rep\<lparr>applied := applied rep + 1\<rparr>"] Cons.prems(3) by auto
  then show ?case using s1 new by (intro exI [of _ s']) simp
qed simp

lemma pull_missing:
  assumes "inv s" and "event_dag cr N" and "mergeable (events_of s) N c"
    and "distinct (map ev_id es)" and "causal (ev_id ` conv_set (events_of s) c) es"
    and "set es \<subseteq> {e \<in> conv_set N c. ev_id e \<notin> ev_id ` conv_set (events_of s) c}"
  shows "\<exists>s'. ingest_all ops s es = (s', Inr \<lparr>applied = length es, duplicates = 0, rejected = []\<rparr>)
    \<and> inv s' \<and> ran (events_of s') = ran (events_of s) \<union> set es"
proof -
  have new: "\<forall>e\<in>set es. event_valid cr e \<and> conversation_id e = c \<and> events_of s (ev_id e) = None"
    using mergeable_missing [OF dag [OF assms(1)] assms(3)] assms(6)
      conv_setD [OF assms(2)] event_dagD(3) [OF assms(2)] by blast
  have "inj_on (\<lambda>e. (author e, seq e)) (conv_set (events_of s) c \<union> set es)"
    using assms(3,6) by (auto simp: mergeable_def intro: inj_on_subset)
  from ingest_causal [OF assms(1,5,4) new this, of "\<lparr>applied = 0, duplicates = 0, rejected = []\<rparr>"]
  show ?thesis by (simp add: ingest_all_def apply_received_events_def)
qed

lemma export_whole:
  assumes "inv s" and "fits_one_frame ser S" and "conv_set (events_of s) c \<subseteq> S"
  shows "\<exists>es. op_events_excluding_bounded ops s c have (saturating_sub (- 1) SYNC_MARGIN) 1 = Inr es
    \<and> followup_frames ser c es (saturating_sub (- 1) SYNC_MARGIN) 1
        = (if es = [] then [] else [\<lparr>fu_conversation = c, fu_events = es\<rparr>])
    \<and> distinct (map ev_id es)
    \<and> set es = {e \<in> conv_set (events_of s) c. ev_id e \<notin> have} \<and> causal have es"
proof -
  obtain es where es: "op_events_excluding ops s c have = Inr es" "distinct (map ev_id es)"
    "set es = {e \<in> conv_set (events_of s) c. ev_id e \<notin> have}" "causal have es"
    using events_excluding [OF assms(1)] by blast
  have "frame_size (encoded_event_size ser) es \<le> unat (saturating_sub (- 1) SYNC_MARGIN)"
    using assms(2,3) es(2,3) by (intro fits_one_frame_size) (auto simp: distinct_map)
  with es show ?thesis
    using events_excluding_bounded [OF es(1)] followup_frames_fits [of ser es] by (simp add: frame_prefix_all)
qed

end

section \<open>Two stores\<close>

locale sync_pair =
  a: sync_store opsA ser cr events_a invA + b: sync_store opsB ser cr events_b invB
  for opsA :: "'a sync_ops" and opsB :: "'b sync_ops" and ser :: "event \<Rightarrow> usize option"
    and cr :: crypto_env and events_a events_b invA invB
begin

lemma reconcile_merges:
  assumes "invA a" and "invB b" and merge: "mergeable (events_a a) (events_b b) c"
    and fits: "fits_one_frame ser (conv_set (events_a a) c \<union> conv_set (events_b b) c)"
  shows "\<exists>a' b'. reconcile ser opsA opsB a b c
      = ((a', b'),
         Inr (\<lparr>applied = card (conv_set (events_b b) c - conv_set (events_a a) c), duplicates = 0, rejected = []\<rparr>,
              \<lparr>applied = card (conv_set (events_a a) c - conv_set (events_b b) c), duplicates = 0, rejected = []\<rparr>))
    \<and> invA a' \<and> invB b'
    \<and> ran (events_a a') = ran (events_a a) \<union> conv_set (events_b b) c
    \<and> ran (events_b b') = ran (events_b b) \<union> conv_set (events_a a) c"
proof -
  let ?A = "conv_set (events_a a) c" and ?B = "conv_set (events_b b) c"
  have inj: "inj_on ev_id (?A \<union> ?B)"
    using merge unfolding mergeable_def conv_set_def by (elim conjE inj_on_subset) blast
  have only_B: "{e \<in> ?B. ev_id e \<notin> ev_id ` ?A} = ?B - ?A"
    and only_A: "{e \<in> ?A \<union> ?B. ev_id e \<notin> ev_id ` ?B} = ?A - ?B"
    using inj by (auto simp: inj_on_def)
  obtain ia where ia: "op_event_ids opsA a c = Inr ia" "set ia = ev_id ` ?A"
    using a.event_ids [OF assms(1)] by blast
  obtain ib where ib: "op_event_ids opsB b c = Inr ib" "set ib = ev_id ` ?B"
    using b.event_ids [OF assms(2)] by blast
  from b.export_whole [OF assms(2) fits Un_upper2, of "set ia"] only_B ia(2)
  obtain es where es: "op_events_excluding_bounded opsB b c (set ia) (saturating_sub (- 1) SYNC_MARGIN) 1 = Inr es"
    "distinct (map ev_id es)" "set es = ?B - ?A" "causal (ev_id ` ?A) es" by auto
  then obtain a' where a': "ingest_all opsA a es = (a', Inr \<lparr>applied = length es, duplicates = 0, rejected = []\<rparr>)"
    "invA a'" "ran (events_a a') = ran (events_a a) \<union> (?B - ?A)"
    using a.pull_missing [OF assms(1) b.dag [OF assms(2)] merge es(2,4)] only_B by auto
  have A': "conv_set (events_a a') c = ?A \<union> ?B"
    unfolding conv_set_def a'(3) by blast
  from a.export_whole [OF a'(2) fits, of c "set ib"] A' only_A ib(2)
  obtain fs where fs: "op_events_excluding_bounded opsA a' c (set ib) (saturating_sub (- 1) SYNC_MARGIN) 1 = Inr fs"
    "followup_frames ser c fs (saturating_sub (- 1) SYNC_MARGIN) 1
       = (if fs = [] then [] else [\<lparr>fu_conversation = c, fu_events = fs\<rparr>])"
    "distinct (map ev_id fs)" "set fs = ?A - ?B" "causal (ev_id ` ?B) fs" by auto
  have "mergeable (events_b b) (events_a a') c"
    using merge by (rule mergeable_cong) (auto simp: a'(3) conv_set_def)
  then obtain b' where b': "ingest_all opsB b fs = (b', Inr \<lparr>applied = length fs, duplicates = 0, rejected = []\<rparr>)"
    "invB b'" "ran (events_b b') = ran (events_b b) \<union> (?A - ?B)"
    using b.pull_missing [OF assms(2) a.dag [OF a'(2)] _ fs(3,5)] fs(4) only_A A' by auto
  have len: "length es = card (?B - ?A)" "length fs = card (?A - ?B)"
    using es(2,3) fs(3,4) by (metis distinct_card distinct_map)+
  have "reconcile ser opsA opsB a b c = ((a', b'),
      Inr (\<lparr>applied = length es, duplicates = 0, rejected = []\<rparr>, \<lparr>applied = length fs, duplicates = 0, rejected = []\<rparr>))"
    using ia(1) ib(1) es(1) a'(1) fs(1,2) b'(1)
    by (cases "fs = []") (simp_all add: reconcile_def build_request_def handle_request_def handle_request_bounded_def
        handle_response_def handle_response_bounded_def handle_response_bounded_burst_def
        handle_followup_def Let_def)
  moreover have "ran (events_a a) \<union> (?B - ?A) = ran (events_a a) \<union> ?B"
    "ran (events_b b) \<union> (?A - ?B) = ran (events_b b) \<union> ?A"
    by (auto simp: conv_set_def)
  ultimately show ?thesis
    using a'(2,3) b'(2,3) unfolding len by metis
qed

end

section \<open>Bounded rounds\<close>

text \<open>
  One exchange over the payload-bounded helpers: the three messages of \<open>reconcile\<close>, each within
  \<open>frame_budget\<close> bytes.
\<close>

definition bounded_round ::
  "(event \<Rightarrow> usize option) \<Rightarrow> 'a sync_ops \<Rightarrow> 'b sync_ops \<Rightarrow> usize \<Rightarrow> conversation_id \<Rightarrow> 'a \<times> 'b
   \<Rightarrow> ('a \<times> 'b) \<times> (failure + (apply_report \<times> apply_report))" where
  "bounded_round ser opsA opsB frame_budget c = (\<lambda>(a, b).
     case bind_result (build_request opsA a c) (\<lambda>request. handle_request_bounded opsB b request frame_budget) of
       Inl err \<Rightarrow> ((a, b), Inl err)
     | Inr response \<Rightarrow>
     (case handle_response_bounded ser opsA a response frame_budget of
       (a', Inl err) \<Rightarrow> ((a', b), Inl err)
     | (a', Inr (report_a, followup)) \<Rightarrow>
     (case handle_followup opsB b followup of
       (b', r) \<Rightarrow> ((a', b'), bind_result r (\<lambda>report_b. Inr (report_a, report_b))))))"

fun bounded_rounds ::
  "(event \<Rightarrow> usize option) \<Rightarrow> 'a sync_ops \<Rightarrow> 'b sync_ops \<Rightarrow> usize \<Rightarrow> conversation_id \<Rightarrow> nat \<Rightarrow> 'a \<times> 'b
   \<Rightarrow> ('a \<times> 'b) option" where
  "bounded_rounds ser opsA opsB frame_budget c 0 st = Some st"
| "bounded_rounds ser opsA opsB frame_budget c (Suc n) st =
     (case bounded_round ser opsA opsB frame_budget c st of
        (st', Inl _) \<Rightarrow> None
      | (st', Inr _) \<Rightarrow> bounded_rounds ser opsA opsB frame_budget c n st')"

lemma saturating_sub_margin: "saturating_sub fb SYNC_MARGIN < (- 1 :: usize)"
proof -
  have "unat (saturating_sub fb SYNC_MARGIN) < 2 ^ 64 - 1"
    using unat_lt2p [of fb] by (simp add: unat_saturating_sub SYNC_MARGIN_def)
  then show ?thesis by (simp add: word_less_nat_alt unsigned_minus_1_eq_mask mask_eq_exp_minus_1)
qed

lemma followup_single:
  "(let frames = followup_frames ser c es (saturating_sub fb SYNC_MARGIN) 1
    in if frames = [] then \<lparr>fu_conversation = c, fu_events = []\<rparr> else last frames)
   = \<lparr>fu_conversation = c,
      fu_events = frame_prefix es (saturating_sub fb SYNC_MARGIN) 1 (encoded_event_size ser)\<rparr>"
proof -
  let ?b = "saturating_sub fb SYNC_MARGIN"
  let ?fr = "followup_frames ser c es ?b 1"
  have cc: "concat (map fu_events ?fr) = frame_prefix es ?b 1 (encoded_event_size ser)"
    by (simp add: followup_frames_def pack_followups_concat frame_prefix_def)
  have fr: "length ?fr \<le> 1 \<and> (\<forall>f\<in>set ?fr. fu_conversation f = c)"
    using pack_followups_frames [of "[]" 1 ?b c "encoded_event_size ser" "[]" 0 es] saturating_sub_margin [of fb]
    by (auto simp: followup_frames_def)
  show ?thesis
  proof (cases ?fr)
    case Nil
    with cc show ?thesis by simp
  next
    case (Cons f rest)
    with fr have "?fr = [f]" "fu_conversation f = c" by auto
    with cc show ?thesis by simp
  qed
qed

text \<open>A selection a peer can ingest: causal, from the missing events, and not empty unless nothing is missing.\<close>

definition causal_selection :: "event_id set \<Rightarrow> event set \<Rightarrow> event list \<Rightarrow> bool" where
  "causal_selection K W es \<longleftrightarrow>
     distinct (map ev_id es) \<and> set es \<subseteq> W \<and> causal K es \<and> (W \<noteq> {} \<longrightarrow> es \<noteq> [])"

lemma causal_selection_prefix:
  assumes "causal_selection K W es"
  shows "causal_selection K W (frame_prefix es b 1 sz)"
proof -
  have p: "prefix (frame_prefix es b 1 sz) es" by (rule frame_prefix_prefix)
  then have "distinct (map ev_id (frame_prefix es b 1 sz))"
    using assms by (metis causal_selection_def distinct_append map_append prefix_def)
  moreover have "es \<noteq> [] \<longrightarrow> frame_prefix es b 1 sz \<noteq> []"
    by (metis frame_prefix_Cons less_one list.distinct(1) list.exhaust)
  ultimately show ?thesis
    using assms set_mono_prefix [OF p] causal_prefix [OF p] by (auto simp: causal_selection_def)
qed

lemma mergeable_only:
  assumes "mergeable M N c"
  shows "{e \<in> conv_set N c. ev_id e \<notin> ev_id ` conv_set M c} = conv_set N c - conv_set M c"
proof -
  have "inj_on ev_id (conv_set M c \<union> conv_set N c)"
    using assms unfolding mergeable_def conv_set_def by (elim conjE inj_on_subset) blast
  then show ?thesis by (auto simp: inj_on_def)
qed

lemma mergeable_sym: "mergeable M N c \<Longrightarrow> mergeable N M c"
  by (simp add: mergeable_def Un_commute)

context sync_store
begin

lemma export_progress:
  assumes "inv s" and "mergeable N (events_of s) c"
  shows "\<exists>es. op_events_excluding_bounded ops s c (ev_id ` conv_set N c) b 1 = Inr es
    \<and> causal_selection (ev_id ` conv_set N c) (conv_set (events_of s) c - conv_set N c) es"
proof -
  obtain es where es: "op_events_excluding ops s c (ev_id ` conv_set N c) = Inr es"
    "distinct (map ev_id es)" "set es = conv_set (events_of s) c - conv_set N c"
    "causal (ev_id ` conv_set N c) es"
    using events_excluding [OF assms(1), of c "ev_id ` conv_set N c"] mergeable_only [OF assms(2)] by auto
  then have "causal_selection (ev_id ` conv_set N c) (conv_set (events_of s) c - conv_set N c) es"
    by (auto simp: causal_selection_def)
  from causal_selection_prefix [OF this] show ?thesis
    using events_excluding_bounded [OF es(1)] by blast
qed

lemma ingest_selection:
  assumes "inv s" and "event_dag cr N" and "mergeable (events_of s) N c"
    and "causal_selection (ev_id ` conv_set (events_of s) c) (conv_set N c - conv_set (events_of s) c) es"
  shows "\<exists>s' rep. ingest_all ops s es = (s', Inr rep) \<and> inv s' \<and> ran (events_of s') = ran (events_of s) \<union> set es"
  using pull_missing [OF assms(1-3)] assms(4) mergeable_only [OF assms(3)]
  unfolding causal_selection_def by metis

end

lemma card_shrink:
  "finite S \<Longrightarrow> X \<subseteq> S \<Longrightarrow> (S \<noteq> {} \<longrightarrow> X \<noteq> {}) \<Longrightarrow> card S \<le> Suc n \<Longrightarrow> card (S - X) \<le> n"
  by (cases "X = {}") (use psubset_card_mono [of S "S - X"] in force)+

context sync_pair
begin

lemma bounded_round_progress:
  assumes inv: "invA a" "invB b" and merge: "mergeable (events_a a) (events_b b) c"
  shows "\<exists>a' b' X Y r. bounded_round ser opsA opsB fb c (a, b) = ((a', b'), Inr r)
    \<and> invA a' \<and> invB b'
    \<and> ran (events_a a') = ran (events_a a) \<union> X \<and> ran (events_b b') = ran (events_b b) \<union> Y
    \<and> X \<subseteq> conv_set (events_b b) c - conv_set (events_a a) c
    \<and> Y \<subseteq> conv_set (events_a a) c - conv_set (events_b b) c
    \<and> (conv_set (events_b b) c - conv_set (events_a a) c \<noteq> {} \<longrightarrow> X \<noteq> {})
    \<and> (conv_set (events_a a) c - conv_set (events_b b) c \<noteq> {} \<longrightarrow> Y \<noteq> {})"
proof -
  let ?A = "conv_set (events_a a) c" and ?B = "conv_set (events_b b) c"
  let ?b = "saturating_sub fb SYNC_MARGIN"
  obtain ia where ia: "op_event_ids opsA a c = Inr ia" "set ia = ev_id ` ?A"
    using a.event_ids [OF inv(1)] by blast
  obtain ib where ib: "op_event_ids opsB b c = Inr ib" "set ib = ev_id ` ?B"
    using b.event_ids [OF inv(2)] by blast
  obtain es where es: "op_events_excluding_bounded opsB b c (ev_id ` ?A) ?b 1 = Inr es"
    "causal_selection (ev_id ` ?A) (?B - ?A) es"
    using b.export_progress [OF inv(2) merge] by blast
  obtain a' ra where a': "ingest_all opsA a es = (a', Inr ra)" "invA a'"
    "ran (events_a a') = ran (events_a a) \<union> set es"
    using a.ingest_selection [OF inv(1) b.dag [OF inv(2)] merge es(2)] by blast
  have es_B: "set es \<subseteq> ?B - ?A" using es(2) by (simp add: causal_selection_def)
  then have A': "conv_set (events_a a') c - ?B = ?A - ?B" by (auto simp: conv_set_def a'(3))
  have "mergeable (events_a a') (events_b b) c"
    using merge by (rule mergeable_cong) (use es_B in \<open>auto simp: a'(3) conv_set_def\<close>)
  then have merge': "mergeable (events_b b) (events_a a') c" by (rule mergeable_sym)
  obtain ms where ms: "op_events_excluding_bounded opsA a' c (ev_id ` ?B) ?b 1 = Inr ms"
    "causal_selection (ev_id ` ?B) (?A - ?B) ms"
    using a.export_progress [OF a'(2) merge'] unfolding A' by blast
  define fs where "fs = frame_prefix ms ?b 1 (encoded_event_size ser)"
  have fs: "causal_selection (ev_id ` ?B) (?A - ?B) fs"
    unfolding fs_def using ms(2) by (rule causal_selection_prefix)
  obtain b' rb where b': "ingest_all opsB b fs = (b', Inr rb)" "invB b'"
    "ran (events_b b') = ran (events_b b) \<union> set fs"
    using b.ingest_selection [OF inv(2) a.dag [OF a'(2)] merge'] fs unfolding A' by blast
  have "bounded_round ser opsA opsB fb c (a, b) = ((a', b'), Inr (ra, rb))"
    using ia ib es(1) a'(1) ms(1) b'(1) followup_single [of ser c ms fb] unfolding fs_def
    by (cases "followup_frames ser c ms ?b 1 = []") (simp_all add: bounded_round_def build_request_def handle_request_bounded_def Let_def
        handle_response_bounded_def handle_response_bounded_burst_def handle_followup_def)
  with a'(2,3) b'(2,3) es(2) fs show ?thesis
    unfolding causal_selection_def by (metis set_empty)
qed

lemma finite_conv: "invA a \<Longrightarrow> finite (conv_set (events_a a) c)" "invB b \<Longrightarrow> finite (conv_set (events_b b) c)"
  using finite_conv_set event_dagD(1) a.dag b.dag by blast+

lemma bounded_rounds_converge:
  assumes "invA a" and "invB b" and "mergeable (events_a a) (events_b b) c"
    and "card (conv_set (events_b b) c - conv_set (events_a a) c) \<le> n"
    and "card (conv_set (events_a a) c - conv_set (events_b b) c) \<le> n"
  shows "\<exists>a' b'. bounded_rounds ser opsA opsB fb c n (a, b) = Some (a', b') \<and> invA a' \<and> invB b'
    \<and> ran (events_a a') = ran (events_a a) \<union> conv_set (events_b b) c
    \<and> ran (events_b b') = ran (events_b b) \<union> conv_set (events_a a) c"
  using assms
proof (induction n arbitrary: a b)
  case 0
  then have "conv_set (events_b b) c = conv_set (events_a a) c"
    using finite_conv(1) [OF 0(1), of c] finite_conv(2) [OF 0(2), of c] by auto
  with 0 show ?case by (auto simp: conv_set_def)
next
  case (Suc n)
  let ?A = "conv_set (events_a a) c" and ?B = "conv_set (events_b b) c"
  obtain a1 b1 X Y r where round: "bounded_round ser opsA opsB fb c (a, b) = ((a1, b1), Inr r)"
    and inv: "invA a1" "invB b1"
    and ran: "ran (events_a a1) = ran (events_a a) \<union> X" "ran (events_b b1) = ran (events_b b) \<union> Y"
    and X: "X \<subseteq> ?B - ?A" "?B - ?A \<noteq> {} \<longrightarrow> X \<noteq> {}" and Y: "Y \<subseteq> ?A - ?B" "?A - ?B \<noteq> {} \<longrightarrow> Y \<noteq> {}"
    using bounded_round_progress [OF Suc.prems(1-3), of fb] by blast
  have conv: "conv_set (events_a a1) c = ?A \<union> X" "conv_set (events_b b1) c = ?B \<union> Y"
    using X(1) Y(1) by (auto simp: conv_set_def ran)
  have "card (?B - ?A - X) \<le> n" "card (?A - ?B - Y) \<le> n"
    using X Y Suc.prems(4,5) finite_conv(1) [OF Suc.prems(1), of c] finite_conv(2) [OF Suc.prems(2), of c]
      card_shrink [of "?B - ?A" X n] card_shrink [of "?A - ?B" Y n] by auto
  moreover have "(?B \<union> Y) - (?A \<union> X) = ?B - ?A - X" "(?A \<union> X) - (?B \<union> Y) = ?A - ?B - Y"
    using X(1) Y(1) by auto
  moreover have "mergeable (events_a a1) (events_b b1) c"
    using Suc.prems(3) by (rule mergeable_cong) (use X(1) Y(1) in \<open>auto simp: ran conv_set_def\<close>)
  ultimately obtain a' b' where "bounded_rounds ser opsA opsB fb c n (a1, b1) = Some (a', b')"
    "invA a'" "invB b'" "ran (events_a a') = ran (events_a a1) \<union> (?B \<union> Y)"
    "ran (events_b b') = ran (events_b b1) \<union> (?A \<union> X)"
    using Suc.IH [OF inv] conv by auto
  moreover have "ran (events_a a) \<union> X \<union> (?B \<union> Y) = ran (events_a a) \<union> ?B"
    "ran (events_b b) \<union> Y \<union> (?A \<union> X) = ran (events_b b) \<union> ?A"
    using X(1) Y(1) by (auto simp: conv_set_def)
  ultimately show ?case using round ran by simp
qed

end

section \<open>The in-memory log meets the contract\<close>

lemma log_events_excluding_spec:
  assumes "log_wf cr l"
  shows "\<exists>es. log_events_excluding l c known = Inr es \<and> distinct (map ev_id es)
    \<and> set es = {e \<in> conv_set (l_events l) c. ev_id e \<notin> known} \<and> causal known es"
proof -
  obtain es where es: "causal_events (log_events l c) = Some es" "set es = conv_set (l_events l) c"
    "distinct (map ev_id es)" "causal {} es"
    using log_causal_events [OF assms] by blast
  have "distinct (map ev_id (filter (\<lambda>e. ev_id e \<notin> known) es))"
    using es(3) by (auto simp: distinct_map intro: inj_on_subset)
  moreover have "causal known (filter (\<lambda>e. ev_id e \<notin> known) es)"
    using causal_filter [OF es(4), of known] by simp
  ultimately show ?thesis using es by (auto simp: log_events_excluding_def)
qed

lemma log_ingest_fresh:
  assumes "log_wf cr l" and "event_valid cr e" and "fresh_event (l_events l) e"
  shows "\<exists>l'. log_ingest cr l e = (Inr Appended, l') \<and> log_wf cr l' \<and> l_events l' = (l_events l)(ev_id e \<mapsto> e)"
proof -
  obtain l' where "log_append cr l e = Inr (Appended, l')" "log_wf cr l'"
    "l_events l' = (l_events l)(ev_id e \<mapsto> e)"
    using log_append_new [OF assms] by blast
  then show ?thesis by (simp add: log_ingest_def)
qed

lemma log_ingest_other:
  assumes "log_wf cr l" and "\<not> (event_valid cr e \<and> fresh_event (l_events l) e)"
  shows "log_ingest cr l e = (Inr Duplicate, l)
    \<or> (\<exists>err. log_ingest cr l e = (Inl (Failed err), l) \<and> is_peer_rejection err)"
proof (cases "log_append cr l e")
  case (Inl err)
  then show ?thesis using log_append_error_is_peer_rejection by (auto simp: log_ingest_def)
next
  case (Inr r)
  obtain outcome l' where r: "r = (outcome, l')" by (cases r)
  from assms(1) Inr [unfolded r] assms(2) Inr r show ?thesis
    by (cases rule: log_append_cases) (auto simp: log_ingest_def)
qed

interpretation elog: sync_store "event_log_ops cr ser" ser cr l_events "log_wf cr" for cr ser
proof (unfold_locales, goal_cases)
  case (1 s)
  then show ?case by (rule log_wfD(1))
next
  case (2 s c)
  then show ?case
    using log_events_keys(2) [OF 2, of c] by (simp add: event_log_ops_def log_event_ids_def)
next
  case (3 s c known)
  then show ?case using log_events_excluding_spec [OF 3] by (simp add: event_log_ops_def)
next
  case (4 s c known es budget n)
  then show ?case
    by (auto simp: event_log_ops_def log_events_excluding_def log_events_excluding_bounded_def
        bounded_events_def split: option.splits)
next
  case (5 s e)
  then show ?case using log_ingest_fresh [OF 5] by (simp add: event_log_ops_def)
next
  case (6 s e)
  then show ?case using log_ingest_other [OF 6] by (simp add: event_log_ops_def)
qed

interpretation elogs: sync_pair "event_log_ops cr ser" "event_log_ops cr ser" ser cr l_events l_events
  "log_wf cr" "log_wf cr" for cr ser
  by unfold_locales

section \<open>Properties\<close>

text \<open>
  C8. Reconciliation converges: when the two logs agree on ids and no author used a sequence
  number twice across them, and the histories fit the frame limit of the unbounded call, both end
  with the union of the conversation, nothing is rejected, each side reports exactly the events
  it lacked, and other conversations are untouched.
\<close>

theorem reconcile_converges:
  assumes "log_wf cr a" and "log_wf cr b" and "mergeable (l_events a) (l_events b) c"
    and "fits_one_frame ser (conv_set (l_events a) c \<union> conv_set (l_events b) c)"
  shows "\<exists>a' b'. reconcile ser (event_log_ops cr ser) (event_log_ops cr ser) a b c
      = ((a', b'),
         Inr (\<lparr>applied = card (conv_set (l_events b) c - conv_set (l_events a) c), duplicates = 0, rejected = []\<rparr>,
              \<lparr>applied = card (conv_set (l_events a) c - conv_set (l_events b) c), duplicates = 0, rejected = []\<rparr>))
    \<and> log_wf cr a' \<and> log_wf cr b'
    \<and> ran (l_events a') = ran (l_events a) \<union> conv_set (l_events b) c
    \<and> ran (l_events b') = ran (l_events b) \<union> conv_set (l_events a) c"
  using assms by (rule elogs.reconcile_merges)

lemma demo_log:
  assumes "log_append demo_env event_log_default (demo_message sq [] lam) = Inr (Appended, l)"
  shows "log_wf demo_env l \<and> ran (l_events l) = {demo_message sq [] lam}
    \<and> conv_set (l_events l) (ConversationId 1) = {demo_message sq [] lam}"
  using log_wf_empty [of demo_env] assms
  by (cases rule: log_append_cases) (auto simp: event_log_default_def conv_set_def)

lemma demo_log_exists:
  "\<exists>l. log_append demo_env event_log_default (demo_message sq [] lam) = Inr (Appended, l)"
  by (simp add: log_append_def validate_def missing_parents_def event_log_default_def)

theorem reconcile_converges_witness:
  "\<exists>a b a' b' ra rb. ran (l_events a) = {demo_message 1 [] 1} \<and> ran (l_events b) = {demo_message 2 [] 1}
    \<and> reconcile (\<lambda>_. Some 300) (event_log_ops demo_env (\<lambda>_. Some 300)) (event_log_ops demo_env (\<lambda>_. Some 300))
        a b (ConversationId 1) = ((a', b'), Inr (ra, rb))
    \<and> ran (l_events a') = ran (l_events b')"
proof -
  obtain a where a: "log_append demo_env event_log_default (demo_message 1 [] 1) = Inr (Appended, a)"
    using demo_log_exists by blast
  obtain b where b: "log_append demo_env event_log_default (demo_message 2 [] 1) = Inr (Appended, b)"
    using demo_log_exists by blast
  note A = demo_log [OF a] and B = demo_log [OF b]
  have "mergeable (l_events a) (l_events b) (ConversationId 1)"
    using A B by (auto simp: mergeable_def)
  moreover have "fits_one_frame (\<lambda>_. Some 300)
      (conv_set (l_events a) (ConversationId 1) \<union> conv_set (l_events b) (ConversationId 1))"
    using A B by (auto simp: fits_one_frame_def encoded_event_size_def unat_saturating_sub SYNC_MARGIN_def
        unsigned_minus_1_eq_mask mask_eq_exp_minus_1 card_insert_if)
  ultimately show ?thesis
    using reconcile_converges [of demo_env a b "ConversationId 1" "\<lambda>_. Some 300"] A B
    by (metis Un_commute)
qed



text \<open>
  C10. Whatever a peer answers, the log survives it: the handler always returns, the log stays
  well formed, keeps every event it had and gains only valid events of the answer; the report
  counts the new events, itemises at most 64 rejections, and when fewer are itemised it accounts
  for the whole batch; the follow-up has at most the allowed frames, each of one event or within
  the budget.
\<close>

theorem response_is_safe:
  assumes "log_wf cr l" and "0 < max_frames"
  shows "\<exists>l' report frames.
    handle_response_bounded_burst ser (event_log_ops cr ser) l response frame_budget max_frames
      = (l', Inr (report, frames))
    \<and> log_wf cr l' \<and> l_events l \<subseteq>\<^sub>m l_events l'
    \<and> ran (l_events l') \<subseteq> ran (l_events l) \<union> {e \<in> set (rs_events response). event_valid cr e}
    \<and> applied report = card (dom (l_events l')) - card (dom (l_events l))
    \<and> length (rejected report) \<le> 64
    \<and> (length (rejected report) < 64 \<longrightarrow>
         applied report + duplicates report + length (rejected report) = length (rs_events response))
    \<and> length frames \<le> max_frames
    \<and> (\<forall>f\<in>set frames. fu_conversation f = rs_conversation response
         \<and> (length (fu_events f) = 1
            \<or> frame_size (encoded_event_size ser) (fu_events f) \<le> unat frame_budget - 256))"
proof -
  let ?ops = "event_log_ops cr ser" and ?c = "rs_conversation response"
  let ?rep0 = "\<lparr>applied = 0, duplicates = 0, rejected = []\<rparr>"
  let ?b = "saturating_sub frame_budget SYNC_MARGIN"
  obtain l' report where r: "apply_received_from (op_ingest ?ops) l (rs_events response) ?rep0 = (l', Inr report)"
    "log_wf cr l'" "l_events l \<subseteq>\<^sub>m l_events l'"
    "ran (l_events l') \<subseteq> ran (l_events l) \<union> {e \<in> set (rs_events response). event_valid cr e}"
    "applied report + card (dom (l_events l)) = applied ?rep0 + card (dom (l_events l'))"
    using elog.apply_received_from_safe [OF assms(1), of ser "rs_events response" ?rep0] by blast
  have count: "length (rejected report) \<le> 64"
    "length (rejected report) < 64 \<longrightarrow>
       applied report + duplicates report + length (rejected report) = length (rs_events response)"
    using apply_received_from_report [OF r(1)] by (simp_all add: MAX_REJECTED_DETAIL_def)
  have new: "applied report = card (dom (l_events l')) - card (dom (l_events l))" using r(5) by simp
  obtain ms where "op_events_excluding ?ops l' ?c (set (rs_have response)) = Inr ms"
    using elog.events_excluding [OF r(2), of ser ?c "set (rs_have response)"] by blast
  from elog.events_excluding_bounded [OF this] obtain es where
    es: "op_events_excluding_bounded ?ops l' ?c (set (rs_have response)) ?b max_frames = Inr es" by blast
  let ?fr = "followup_frames ser ?c es ?b max_frames"
  have packed: "length ?fr \<le> max_frames
      \<and> (\<forall>f\<in>set ?fr. fu_conversation f = ?c \<and> frame_ok (encoded_event_size ser) ?b (fu_events f))"
    using pack_followups_frames [of "[]" max_frames ?b ?c "encoded_event_size ser" "[]" 0 es]
      saturating_sub_margin [of frame_budget] assms(2) by (simp add: followup_frames_def)
  have frames: "\<forall>f\<in>set ?fr. fu_conversation f = ?c \<and> (length (fu_events f) = 1
      \<or> frame_size (encoded_event_size ser) (fu_events f) \<le> unat frame_budget - 256)"
    using packed unfolding frame_ok_def unat_saturating_sub SYNC_MARGIN_def by simp
  have "handle_response_bounded_burst ser ?ops l response frame_budget max_frames = (l', Inr (report, ?fr))"
    using r(1) es by (simp add: handle_response_bounded_burst_def ingest_all_def apply_received_events_def Let_def)
  then show ?thesis
    using r(2-4) count new packed frames
    by (intro exI [of _ l'] exI [of _ report] exI [of _ ?fr] conjI) simp_all
qed

theorem response_is_safe_witness:
  "\<exists>l' report frames.
    handle_response_bounded_burst (\<lambda>_. None) (event_log_ops demo_env (\<lambda>_. None)) event_log_default
      \<lparr>rs_conversation = ConversationId 1, rs_events = [demo_message 2 [EventId 9] 1], rs_have = []\<rparr> 0 3
      = (l', Inr (report, frames)) \<and> log_wf demo_env l'"
  using response_is_safe [OF log_wf_empty [of demo_env], of 3 "\<lambda>_. None"
      "\<lparr>rs_conversation = ConversationId 1, rs_events = [demo_message 2 [EventId 9] 1], rs_have = []\<rparr>" 0]
  by auto

text \<open>
  C11. The frame packer loses and adds nothing: the frames, in order, carry exactly the greedy
  prefix that the bounded export selects.
\<close>

theorem followup_frames_exact:
  assumes "0 < max_frames"
  shows "concat (map fu_events (followup_frames ser c es budget max_frames))
    = bounded_events ser es budget max_frames"
  using pack_followups_concat [of "[]" max_frames "encoded_event_size ser" c budget "[]" 0 es] assms
  by (simp add: followup_frames_def bounded_events_def frame_prefix_def)

theorem followup_frames_exact_witness:
  "concat (map fu_events (followup_frames (\<lambda>_. Some 300) (ConversationId 1)
      [demo_message 1 [] 1, demo_message 2 [] 1, demo_message 3 [] 1] 600 1))
   = [demo_message 1 [] 1, demo_message 2 [] 1]"
  unfolding followup_frames_exact [OF zero_less_one]
  by (simp add: bounded_events_def frame_prefix_def encoded_event_size_def saturating_add_def)

section \<open>Fingerprints\<close>

lemma concat_chunks_inj:
  assumes "concat (map f xs) = concat (map f ys)" and "\<And>x. length (f x) = n" and "0 < n" and "inj f"
  shows "xs = ys"
  using assms(1)
proof (induction xs arbitrary: ys)
  case Nil
  then show ?case using assms(2,3) by (cases ys) (auto, metis length_0_conv less_irrefl)
next
  case (Cons x xs)
  show ?case
  proof (cases ys)
    case Nil
    with Cons.prems assms(2,3) have "f x = []" by simp
    with assms(2) [of x] assms(3) show ?thesis by simp
  next
    case (Cons y zs)
    with Cons.prems assms(2) have "f x = f y \<and> concat (map f xs) = concat (map f zs)" by simp
    with Cons.IH assms(4) Cons show ?thesis by (auto dest: injD)
  qed
qed

lemma fingerprint_input_inj: "fingerprint_input xs = fingerprint_input ys \<longleftrightarrow> mset xs = mset ys"
proof
  assume "mset xs = mset ys"
  then have "sort xs = sort ys" by (metis properties_for_sort sorted_sort mset_sort)
  then show "fingerprint_input xs = fingerprint_input ys" by (simp add: fingerprint_input_def)
next
  let ?f = "\<lambda>i. array_bytes (eid_bytes i)"
  assume "fingerprint_input xs = fingerprint_input ys"
  then have "concat (map ?f (sort xs)) = concat (map ?f (sort ys))"
    by (simp add: fingerprint_input_def Let_def)
  moreover have "inj ?f"
    by (intro injI) (simp add: event_id.expand)
  ultimately have "sort xs = sort ys" by (intro concat_chunks_inj [of ?f _ _ 32]) simp_all
  then show "mset xs = mset ys" by (metis mset_sort)
qed

text \<open>
  C12. The fingerprint compares whole id sets: unless SHA-256 collides on the two inputs, two
  fingerprints match exactly when the same ids are held, in whatever order.
\<close>

theorem fingerprint_matches_iff:
  assumes "inj_on (sha256 cr) {fingerprint_input xs, fingerprint_input ys}"
  shows "fingerprint cr xs = fingerprint cr ys \<longleftrightarrow> mset xs = mset ys"
  unfolding fingerprint_def fingerprint_input_inj [symmetric]
  using inj_on_eq_iff [OF assms, of "fingerprint_input xs" "fingerprint_input ys"] by simp

theorem fingerprint_matches_iff_witness:
  "fingerprint demo_env [EventId 1, EventId 2] = fingerprint demo_env [EventId 2, EventId 1]
   \<and> fingerprint (demo_env\<lparr>sha256 := (\<lambda>bs. of_nat (length bs))\<rparr>) [EventId 1, EventId 2]
       \<noteq> fingerprint (demo_env\<lparr>sha256 := (\<lambda>bs. of_nat (length bs))\<rparr>) [EventId 1]"
proof -
  let ?cr = "demo_env\<lparr>sha256 := (\<lambda>bs. of_nat (length bs))\<rparr>"
  have "fingerprint_input [EventId 1, EventId 2] = fingerprint_input [EventId 2, EventId 1]"
    by (subst fingerprint_input_inj) simp
  moreover have "inj_on (sha256 ?cr) {fingerprint_input [EventId 1, EventId 2], fingerprint_input [EventId 1]}"
    by (auto simp: inj_on_def fingerprint_input_def)
  ultimately show ?thesis
    using fingerprint_matches_iff [of demo_env "[EventId 1, EventId 2]" "[EventId 2, EventId 1]"]
      fingerprint_matches_iff [of ?cr "[EventId 1, EventId 2]" "[EventId 1]"] by simp
qed

text \<open>
  C13. The wire-version indexes of the log answer what the trait's scanning defaults would.
\<close>

theorem version_flags_match_scan:
  assumes "log_wf cr l"
  shows "default_requires_channel_v2 (event_log_ops cr ser) l c = Inr (log_requires_channel_v2 l c)
    \<and> default_requires_channel_v3 (event_log_ops cr ser) l c = Inr (log_requires_channel_v3 l c)
    \<and> default_requires_channel_v4 (event_log_ops cr ser) l c = Inr (log_requires_channel_v4 l c)
    \<and> default_requires_channel_v5 (event_log_ops cr ser) l c = Inr (log_requires_channel_v5 l c)"
proof -
  obtain es where es: "op_events_excluding (event_log_ops cr ser) l c {} = Inr es"
    "set es = conv_set (l_events l) c"
    using elog.events_excluding [OF assms, of ser c "{}"] by auto
  have "l = index_of (l_events l)" using assms by (simp add: log_wf_def)
  then have flags: "l_replica_v2 l = l_replica_v2 (index_of (l_events l))"
    "l_history_v3 l = l_history_v3 (index_of (l_events l))"
    "l_account_v4 l = l_account_v4 (index_of (l_events l))"
    "l_metadata_v5 l = l_metadata_v5 (index_of (l_events l))" by simp_all
  show ?thesis
    unfolding default_requires_channel_v2_def default_requires_channel_v3_def
      default_requires_channel_v4_def default_requires_channel_v5_def scan_kinds_def
      log_requires_channel_v2_def log_requires_channel_v3_def log_requires_channel_v4_def
      log_requires_channel_v5_def
    by (simp add: es list_ex_iff flags index_of_def)
qed

theorem version_flags_match_scan_witness:
  "\<exists>l. log_append demo_env event_log_default (event_new demo_env (demo_device 7) (ConversationId 1) 1 [] 1 0 ChannelReplica [])
       = Inr (Appended, l)
     \<and> default_requires_channel_v2 (event_log_ops demo_env (\<lambda>_. None)) l (ConversationId 1) = Inr True
     \<and> default_requires_channel_v3 (event_log_ops demo_env (\<lambda>_. None)) l (ConversationId 1) = Inr False"
proof -
  let ?e = "event_new demo_env (demo_device 7) (ConversationId 1) 1 [] 1 0 ChannelReplica []"
  obtain l where l: "log_append demo_env event_log_default ?e = Inr (Appended, l)"
    by (simp add: log_append_def validate_def missing_parents_def event_log_default_def)
  have wf: "log_wf demo_env l" using log_wf_empty [of demo_env] l by (cases rule: log_append_cases) auto
  have "l = index_of ((l_events event_log_default)(ev_id ?e \<mapsto> ?e))" using l log_append_new_iff [OF log_wf_empty] by blast
  then have "log_requires_channel_v2 l (ConversationId 1)" "\<not> log_requires_channel_v3 l (ConversationId 1)"
    by (auto simp: index_of_def conv_set_def log_requires_channel_v2_def log_requires_channel_v3_def event_log_default_def)
  with version_flags_match_scan [OF wf] l show ?thesis by auto
qed

section \<open>Work budgets of the paged exchange\<close>

record preparation_budget =
  pb_rows :: usize
  pb_edges :: usize
  pb_bytes :: usize

record id_page_budget =
  ip_ids :: usize
  ip_examined :: usize

record export_page_budget =
  ep_examined :: usize
  ep_events :: usize
  ep_encoded_bytes :: usize
  ep_allocated_bytes :: usize

definition preparation_budget_default :: preparation_budget where
  "preparation_budget_default = \<lparr>pb_rows = 64, pb_edges = 512, pb_bytes = 8 * 1024 * 1024\<rparr>"

text \<open>The result is an \<^verbatim>\<open>i64\<close>, here its integer value.\<close>

definition scan_limit :: "usize \<Rightarrow> log_error + int" where
  "scan_limit examined =
     (if examined = 0 then Inl InvalidPageBudget
      else if uint examined < 2 ^ 63 \<and> uint examined + 1 < 2 ^ 63 then Inr (uint examined + 1)
      else Inl InvalidPageBudget)"

definition preparation_budget_validate :: "preparation_budget \<Rightarrow> log_error + unit" where
  "preparation_budget_validate b =
     bind_result (scan_limit (pb_rows b)) (\<lambda>_.
     bind_result (scan_limit (pb_edges b)) (\<lambda>_.
     if pb_bytes b = 0 then Inl InvalidPageBudget else Inr ()))"

definition rows_for_bytes :: "preparation_budget \<Rightarrow> usize \<Rightarrow> failure + usize" where
  "rows_for_bytes b row_bytes =
     (if row_bytes = 0 then Inl Panicked
      else if pb_bytes b div row_bytes = 0 then Inl (Failed (PageBudgetTooSmall (unat row_bytes)))
      else Inr (pb_bytes b div row_bytes))"

definition rows_for :: "preparation_budget \<Rightarrow> usize \<Rightarrow> failure + usize" where
  "rows_for b row_bytes = bind_result (rows_for_bytes b row_bytes) (\<lambda>n. Inr (min (pb_rows b) n))"

definition id_page_budget_validate :: "id_page_budget \<Rightarrow> log_error + unit" where
  "id_page_budget_validate b =
     (if ip_ids b = 0 \<or> ip_ids b > 1500 \<or> ip_examined b = 0 \<or> ip_ids b > ip_examined b
      then Inl InvalidPageBudget
      else bind_result (scan_limit (ip_examined b)) (\<lambda>_. Inr ()))"

definition export_page_budget_validate :: "export_page_budget \<Rightarrow> log_error + unit" where
  "export_page_budget_validate b =
     (if ep_events b = 0 \<or> ep_encoded_bytes b = 0 \<or> ep_allocated_bytes b = 0
      then Inl InvalidPageBudget
      else bind_result (scan_limit (ep_examined b)) (\<lambda>_. Inr ()))"

lemma scan_limit_Inr: "scan_limit n = Inr k \<longleftrightarrow> 0 < unat n \<and> unat n < 2 ^ 63 - 1 \<and> k = int (unat n) + 1"
proof -
  obtain m where m: "unat n = m" by simp
  then have "uint n = int m" by auto
  moreover have "n = 0 \<longleftrightarrow> m = 0" using m by (auto simp: unat_eq_0)
  ultimately show ?thesis unfolding scan_limit_def m by auto
qed

lemma rows_for_exact:
  "rows_for pb row_bytes =
     (if unat row_bytes = 0 then Inl Panicked
      else if unat (pb_bytes pb) < unat row_bytes then Inl (Failed (PageBudgetTooSmall (unat row_bytes)))
      else Inr (of_nat (min (unat (pb_rows pb)) (unat (pb_bytes pb) div unat row_bytes))))"
proof -
  let ?q = "pb_bytes pb div row_bytes"
  have q: "unat ?q = unat (pb_bytes pb) div unat row_bytes" by (simp add: unat_div)
  have z: "row_bytes = 0 \<longleftrightarrow> unat row_bytes = 0" "?q = 0 \<longleftrightarrow> unat ?q = 0" by (simp_all add: unat_eq_0)
  have small: "unat (pb_bytes pb) div unat row_bytes = 0 \<longleftrightarrow> unat (pb_bytes pb) < unat row_bytes" if "unat row_bytes \<noteq> 0"
    using that by (simp add: div_eq_0_iff)
  have m: "min (pb_rows pb) ?q = of_nat (min (unat (pb_rows pb)) (unat ?q))"
    by (simp add: min_def word_le_nat_alt)
  show ?thesis
    unfolding rows_for_def rows_for_bytes_def z q using small m [unfolded q] by simp
qed

text \<open>
  C14. Budgets are accepted exactly within their limits, and refused as invalid otherwise. A page of
  ids asks for at least one id, for no more than it may examine and than a frame holds; a page of
  events for at least one event, encoded byte and allocated byte; a preparation step for at least
  one byte; and every number of rows to scan is positive and leaves room for the one extra row of
  the scan. The rows a preparation step takes are the most that fit both its row and its byte
  budget, at least one row has to fit, and only a row of no bytes panics.
\<close>

theorem budgets_bound_work:
  "(id_page_budget_validate ip = Inr () \<longleftrightarrow>
      1 \<le> unat (ip_ids ip) \<and> unat (ip_ids ip) \<le> min 1500 (unat (ip_examined ip))
      \<and> unat (ip_examined ip) < 2 ^ 63 - 1)
   \<and> (export_page_budget_validate ep = Inr () \<longleftrightarrow>
      1 \<le> unat (ep_events ep) \<and> 1 \<le> unat (ep_encoded_bytes ep) \<and> 1 \<le> unat (ep_allocated_bytes ep)
      \<and> 1 \<le> unat (ep_examined ep) \<and> unat (ep_examined ep) < 2 ^ 63 - 1)
   \<and> (preparation_budget_validate pb = Inr () \<longleftrightarrow>
      1 \<le> unat (pb_rows pb) \<and> unat (pb_rows pb) < 2 ^ 63 - 1
      \<and> 1 \<le> unat (pb_edges pb) \<and> unat (pb_edges pb) < 2 ^ 63 - 1 \<and> 1 \<le> unat (pb_bytes pb))
   \<and> {id_page_budget_validate ip, export_page_budget_validate ep, preparation_budget_validate pb}
       \<subseteq> {Inr (), Inl InvalidPageBudget}
   \<and> rows_for pb row_bytes =
       (if unat row_bytes = 0 then Inl Panicked
        else if unat (pb_bytes pb) < unat row_bytes then Inl (Failed (PageBudgetTooSmall (unat row_bytes)))
        else Inr (of_nat (min (unat (pb_rows pb)) (unat (pb_bytes pb) div unat row_bytes))))
   \<and> (rows_for pb row_bytes = Inr rows \<longrightarrow>
      rows \<le> pb_rows pb \<and> unat rows * unat row_bytes \<le> unat (pb_bytes pb))"
proof (intro conjI)
  have pos: "w = 0 \<longleftrightarrow> unat w = 0" for w :: usize by (simp add: unat_eq_0)
  show "id_page_budget_validate ip = Inr () \<longleftrightarrow>
      1 \<le> unat (ip_ids ip) \<and> unat (ip_ids ip) \<le> min 1500 (unat (ip_examined ip))
      \<and> unat (ip_examined ip) < 2 ^ 63 - 1"
    by (auto simp: id_page_budget_validate_def bind_result_Inr scan_limit_Inr pos word_less_nat_alt)
  show "export_page_budget_validate ep = Inr () \<longleftrightarrow>
      1 \<le> unat (ep_events ep) \<and> 1 \<le> unat (ep_encoded_bytes ep) \<and> 1 \<le> unat (ep_allocated_bytes ep)
      \<and> 1 \<le> unat (ep_examined ep) \<and> unat (ep_examined ep) < 2 ^ 63 - 1"
    by (auto simp: export_page_budget_validate_def bind_result_Inr scan_limit_Inr pos)
  show "preparation_budget_validate pb = Inr () \<longleftrightarrow>
      1 \<le> unat (pb_rows pb) \<and> unat (pb_rows pb) < 2 ^ 63 - 1
      \<and> 1 \<le> unat (pb_edges pb) \<and> unat (pb_edges pb) < 2 ^ 63 - 1 \<and> 1 \<le> unat (pb_bytes pb)"
    by (auto simp: preparation_budget_validate_def bind_result_Inr scan_limit_Inr pos)
  show "{id_page_budget_validate ip, export_page_budget_validate ep, preparation_budget_validate pb}
      \<subseteq> {Inr (), Inl InvalidPageBudget}"
    by (simp add: id_page_budget_validate_def export_page_budget_validate_def preparation_budget_validate_def scan_limit_def)
  show rows: "rows_for pb row_bytes =
      (if unat row_bytes = 0 then Inl Panicked
       else if unat (pb_bytes pb) < unat row_bytes then Inl (Failed (PageBudgetTooSmall (unat row_bytes)))
       else Inr (of_nat (min (unat (pb_rows pb)) (unat (pb_bytes pb) div unat row_bytes))))"
    by (rule rows_for_exact)
  show "rows_for pb row_bytes = Inr rows \<longrightarrow>
      rows \<le> pb_rows pb \<and> unat rows * unat row_bytes \<le> unat (pb_bytes pb)"
  proof
    assume "rows_for pb row_bytes = Inr rows"
    then have rows: "rows = min (pb_rows pb) (pb_bytes pb div row_bytes)"
      by (auto simp: rows_for_def rows_for_bytes_def bind_result_Inr split: if_splits)
    then have "unat rows \<le> unat (pb_bytes pb) div unat row_bytes"
      by (metis min.cobounded2 unat_div word_le_nat_alt)
    then show "rows \<le> pb_rows pb \<and> unat rows * unat row_bytes \<le> unat (pb_bytes pb)"
      using rows by (meson div_times_less_eq_dividend le_trans min.cobounded1 mult_le_mono1)
  qed
qed

theorem budgets_bound_work_witness:
  "id_page_budget_validate \<lparr>ip_ids = 1500, ip_examined = 1500\<rparr> = Inr ()
   \<and> export_page_budget_validate \<lparr>ep_examined = 1, ep_events = 0, ep_encoded_bytes = 1, ep_allocated_bytes = 1\<rparr> = Inl InvalidPageBudget
   \<and> rows_for preparation_budget_default 1024 = Inr 64 \<and> 64 * 1024 \<le> (8 * 1024 * 1024 :: nat)"
proof -
  have "rows_for preparation_budget_default 1024 = Inr 64"
    by (simp add: rows_for_def rows_for_bytes_def preparation_budget_default_def min_def)
  with budgets_bound_work [of "\<lparr>ip_ids = 1500, ip_examined = 1500\<rparr>"
      "\<lparr>ep_examined = 1, ep_events = 0, ep_encoded_bytes = 1, ep_allocated_bytes = 1\<rparr>" preparation_budget_default 1024 64]
  show ?thesis by (auto simp: preparation_budget_default_def)
qed

end
