(* ===== verification/Record_Log.thy ===== *)
theory Record_Log
  imports Event_Store
begin

text \<open>
  The encrypted append-only file below every store, from \<^verbatim>\<open>storage/record_log.rs\<close> and
  \<^verbatim>\<open>storage/encryption.rs\<close>, down to its bytes: a header of magic and salt, then frames
  \<^verbatim>\<open>[u32 length][nonce][ciphertext]\<close>. A file is its content; what may go wrong with a disk is
  an argument of each operation, so a write may stop after any number of bytes and a rollback may
  fail. The texts of I/O errors are not kept.

  PBKDF2, AES-GCM and the bincode form of a record are the fields of \<open>store_env\<close>; salts and
  nonces are arguments.
\<close>

section \<open>Encryption at rest\<close>

definition SALT_SIZE :: nat where
  "SALT_SIZE = 16"

definition STORE_NONCE_SIZE :: nat where
  "STORE_NONCE_SIZE = 12"

definition PBKDF2_ROUNDS :: u32 where
  "PBKDF2_ROUNDS = 600000"

record 'r store_env =
  pbkdf2_hmac :: "string \<Rightarrow> bytes \<Rightarrow> u32 \<Rightarrow> array32"
  store_encrypt :: "array32 \<Rightarrow> bytes \<Rightarrow> bytes \<Rightarrow> bytes option"
  store_decrypt :: "array32 \<Rightarrow> bytes \<Rightarrow> bytes \<Rightarrow> bytes option"
  bincode_record :: "'r \<Rightarrow> string + bytes"
  parse_record :: "bytes \<Rightarrow> string + 'r"

definition key_from_password :: "'r store_env \<Rightarrow> string \<Rightarrow> bytes \<Rightarrow> array32" where
  "key_from_password env password salt = pbkdf2_hmac env password salt PBKDF2_ROUNDS"

definition encrypt_data :: "'r store_env \<Rightarrow> bytes \<Rightarrow> bytes \<Rightarrow> array32 \<Rightarrow> log_error + (bytes \<times> bytes)" where
  "encrypt_data env nonce bs key =
     (case store_encrypt env key nonce bs of None \<Rightarrow> Inl (Storage ''encryption'') | Some ct \<Rightarrow> Inr (ct, nonce))"

definition decrypt_data :: "'r store_env \<Rightarrow> bytes \<Rightarrow> bytes \<Rightarrow> array32 \<Rightarrow> log_error + bytes" where
  "decrypt_data env ct nonce key =
     (case store_decrypt env key nonce ct of None \<Rightarrow> Inl (Storage ''decryption'') | Some bs \<Rightarrow> Inr bs)"

section \<open>The file\<close>

record record_log =
  rl_file :: bytes
  rl_key :: array32
  rl_salt :: bytes
  rl_magic :: bytes
  rl_poisoned :: bool
  rl_rollback_boundary :: nat

text \<open>
  What the disk does during one operation: whether asking for the length fails, after how many
  bytes a write stops, whether syncing fails, whether cutting the file back fails or the sync
  after it, and whether a replacement of the file fails before its rename.
\<close>

record disk =
  stat_fails :: bool
  write_stops :: "nat option"
  sync_fails :: bool
  truncate_fails :: bool
  resync_fails :: bool
  replace_fails :: bool

definition good_disk :: disk where
  "good_disk = \<lparr>stat_fails = False, write_stops = None, sync_fails = False, truncate_fails = False,
                resync_fails = False, replace_fails = False\<rparr>"

definition io_error :: log_error where
  "io_error = Io ''I/O error''"

definition requires_reopen :: log_error where
  "requires_reopen = CorruptFile ''record log requires reopen''"

definition encode_record :: "'r store_env \<Rightarrow> bytes \<Rightarrow> record_log \<Rightarrow> 'r \<Rightarrow> log_error + bytes" where
  "encode_record env nonce rl r =
     (case bincode_record env r of
        Inl e \<Rightarrow> Inl (Serialization e)
      | Inr plaintext \<Rightarrow>
          bind_result (encrypt_data env nonce plaintext (rl_key rl)) (\<lambda>(ct, n).
            if STORE_NONCE_SIZE + length ct < 2 ^ 32
            then Inr (u32_to_be_bytes (of_nat (STORE_NONCE_SIZE + length ct)) @ n @ ct)
            else Inl (Serialization ''record exceeds u32 length'')))"

text \<open>\<open>visit\<close> is the caller's visitor, on a state of its own; \<open>valid\<close> counts the bytes of whole frames.\<close>

function parse_records ::
  "'r store_env \<Rightarrow> array32 \<Rightarrow> ('r \<Rightarrow> 's \<Rightarrow> log_error + 's) \<Rightarrow> bytes \<Rightarrow> 's \<Rightarrow> nat \<Rightarrow> log_error + ('s \<times> nat)" where
  "parse_records env key visit body s valid =
     (if length body < 4 then Inr (s, valid)
      else
        let len = unat (u32_from_be_bytes (take 4 body))
        in if len > length body - 4 then Inr (s, valid)
           else if len < STORE_NONCE_SIZE then Inl (CorruptFile ''record shorter than nonce'')
           else
             let record = take len (drop 4 body)
             in (case decrypt_data env (drop STORE_NONCE_SIZE record) (take STORE_NONCE_SIZE record) key of
                   Inl e \<Rightarrow> Inl (CorruptFile ''record failed to decrypt'')
                 | Inr plaintext \<Rightarrow>
                     (case parse_record env plaintext of
                        Inl e \<Rightarrow> Inl (CorruptFile (''record decode: '' @ e))
                      | Inr v \<Rightarrow>
                          (case visit v s of
                             Inl e \<Rightarrow> Inl e
                           | Inr s' \<Rightarrow> parse_records env key visit (drop (4 + len) body) s' (valid + (4 + len))))))"
  by pat_completeness auto
termination
  by (relation "measure (\<lambda>(env, key, visit, body, s, valid). length body)") auto

declare parse_records.simps [simp del]

definition record_log_load ::
  "'r store_env \<Rightarrow> disk \<Rightarrow> string \<Rightarrow> bytes \<Rightarrow> ('r \<Rightarrow> 's \<Rightarrow> log_error + 's) \<Rightarrow> 's \<Rightarrow> bytes
   \<Rightarrow> log_error + ('s \<times> record_log)" where
  "record_log_load env disk password magic visit s file =
     (if length file < 6 then Inl (CorruptFile ''missing magic'')
      else if take 6 file \<noteq> magic then Inl (CorruptFile ''bad magic'')
      else if length (drop 6 file) < SALT_SIZE then Inl (CorruptFile ''missing salt'')
      else
        let salt = take SALT_SIZE (drop 6 file);
            key = key_from_password env password salt;
            body = drop (6 + SALT_SIZE) file
        in bind_result (parse_records env key visit body s 0) (\<lambda>(s', valid).
             if valid \<noteq> length body \<and> (truncate_fails disk \<or> resync_fails disk) then Inl io_error
             else Inr (s', \<lparr>rl_file = take (6 + SALT_SIZE + valid) file, rl_key = key, rl_salt = salt,
                           rl_magic = magic, rl_poisoned = False, rl_rollback_boundary = 0\<rparr>)))"

text \<open>\<open>file\<close> is what the path holds, if anything; \<open>fresh\<close> is the salt of a new file.\<close>

definition open_with_visitor ::
  "'r store_env \<Rightarrow> disk \<Rightarrow> bytes \<Rightarrow> string \<Rightarrow> bytes \<Rightarrow> ('r \<Rightarrow> 's \<Rightarrow> log_error + 's) \<Rightarrow> 's \<Rightarrow> bytes option
   \<Rightarrow> log_error + ('s \<times> record_log)" where
  "open_with_visitor env disk fresh password magic visit s file =
     (case file of
        None \<Rightarrow>
          if write_stops disk \<noteq> None \<or> sync_fails disk then Inl io_error
          else Inr (s, \<lparr>rl_file = magic @ fresh, rl_key = key_from_password env password fresh, rl_salt = fresh,
                       rl_magic = magic, rl_poisoned = False, rl_rollback_boundary = 0\<rparr>)
      | Some bs \<Rightarrow> record_log_load env disk password magic visit s bs)"

definition record_log_open ::
  "'r store_env \<Rightarrow> disk \<Rightarrow> bytes \<Rightarrow> string \<Rightarrow> bytes \<Rightarrow> bytes option \<Rightarrow> log_error + ('r list \<times> record_log)" where
  "record_log_open env disk fresh password magic file =
     open_with_visitor env disk fresh password magic (\<lambda>r rs. Inr (rs @ [r])) [] file"

text \<open>Flushing a file is a no-op of the standard library, so only a durable append can fail to sync.\<close>

definition append_with ::
  "'r store_env \<Rightarrow> disk \<Rightarrow> bool \<Rightarrow> bytes \<Rightarrow> record_log \<Rightarrow> 'r \<Rightarrow> (log_error + unit) \<times> record_log" where
  "append_with env disk durable nonce rl r =
     (if rl_poisoned rl then (Inl requires_reopen, rl)
      else
        (case encode_record env nonce rl r of
           Inl e \<Rightarrow> (Inl e, rl)
         | Inr buf \<Rightarrow>
             if stat_fails disk then (Inl io_error, rl)
             else
               let boundary = length (rl_file rl);
                   written = (case write_stops disk of None \<Rightarrow> buf | Some k \<Rightarrow> take k buf);
                   rl1 = rl\<lparr>rl_file := rl_file rl @ written\<rparr>
               in if write_stops disk = None \<and> \<not> (durable \<and> sync_fails disk) then (Inr (), rl1)
                  else
                    let rl2 = (if truncate_fails disk then rl1
                               else rl1\<lparr>rl_file := take boundary (rl_file rl1)\<rparr>)
                    in if truncate_fails disk \<or> resync_fails disk
                       then (Inl io_error, rl2\<lparr>rl_rollback_boundary := boundary, rl_poisoned := True\<rparr>)
                       else (Inl io_error, rl2)))"

definition record_log_append :: "'r store_env \<Rightarrow> disk \<Rightarrow> bytes \<Rightarrow> record_log \<Rightarrow> 'r \<Rightarrow> (log_error + unit) \<times> record_log" where
  "record_log_append env disk = append_with env disk False"

definition record_log_append_durable ::
  "'r store_env \<Rightarrow> disk \<Rightarrow> bytes \<Rightarrow> record_log \<Rightarrow> 'r \<Rightarrow> (log_error + unit) \<times> record_log" where
  "record_log_append_durable env disk = append_with env disk True"

definition recover_failed_append :: "disk \<Rightarrow> record_log \<Rightarrow> (log_error + unit) \<times> record_log" where
  "recover_failed_append disk rl =
     (if \<not> rl_poisoned rl then (Inr (), rl)
      else if truncate_fails disk then (Inl io_error, rl)
      else
        let rl1 = rl\<lparr>rl_file := take (rl_rollback_boundary rl) (rl_file rl)\<rparr>
        in if resync_fails disk then (Inl io_error, rl1) else (Inr (), rl1\<lparr>rl_poisoned := False\<rparr>))"

definition record_log_sync :: "disk \<Rightarrow> record_log \<Rightarrow> log_error + unit" where
  "record_log_sync disk rl =
     (if rl_poisoned rl then Inl requires_reopen else if sync_fails disk then Inl io_error else Inr ())"

fun encode_records :: "'r store_env \<Rightarrow> (nat \<Rightarrow> bytes) \<Rightarrow> record_log \<Rightarrow> 'r list \<Rightarrow> log_error + bytes" where
  "encode_records env nonces rl [] = Inr []"
| "encode_records env nonces rl (r # rs) =
     bind_result (encode_record env (nonces 0) rl r) (\<lambda>f.
       bind_result (encode_records env (\<lambda>i. nonces (Suc i)) rl rs) (\<lambda>fs. Inr (f @ fs)))"

definition record_log_rewrite ::
  "'r store_env \<Rightarrow> disk \<Rightarrow> (nat \<Rightarrow> bytes) \<Rightarrow> record_log \<Rightarrow> 'r list \<Rightarrow> (log_error + unit) \<times> record_log" where
  "record_log_rewrite env disk nonces rl rs =
     (if rl_poisoned rl then (Inl requires_reopen, rl)
      else
        (case encode_records env nonces rl rs of
           Inl e \<Rightarrow> (Inl e, rl)
         | Inr frames \<Rightarrow>
             if replace_fails disk then (Inl io_error, rl)
             else (Inr (), rl\<lparr>rl_file := rl_magic rl @ rl_salt rl @ frames\<rparr>)))"

definition append_batch_atomic ::
  "'r store_env \<Rightarrow> disk \<Rightarrow> (nat \<Rightarrow> bytes) \<Rightarrow> record_log \<Rightarrow> 'r list \<Rightarrow> (log_error + unit) \<times> record_log" where
  "append_batch_atomic env disk nonces rl rs =
     (if rl_poisoned rl then (Inl requires_reopen, rl)
      else if rs = [] then (Inr (), rl)
      else
        (case encode_records env nonces rl rs of
           Inl e \<Rightarrow> (Inl e, rl)
         | Inr frames \<Rightarrow>
             if replace_fails disk then (Inl io_error, rl)
             else (Inr (), rl\<lparr>rl_file := rl_file rl @ frames\<rparr>)))"

section \<open>Frames\<close>

text \<open>What the proofs use of the crates: what is sealed opens, what is encoded decodes.\<close>

definition store_coded :: "'r store_env \<Rightarrow> bool" where
  "store_coded env \<longleftrightarrow>
     (\<forall>key nonce bs ct. store_encrypt env key nonce bs = Some ct \<longrightarrow> store_decrypt env key nonce ct = Some bs)
     \<and> (\<forall>r bs. bincode_record env r = Inr bs \<longrightarrow> parse_record env bs = Inr r)"

definition frame_for :: "'r store_env \<Rightarrow> array32 \<Rightarrow> 'r \<Rightarrow> bytes \<Rightarrow> bool" where
  "frame_for env key r f \<longleftrightarrow>
     (\<exists>nonce ct bs. f = u32_to_be_bytes (of_nat (12 + length ct)) @ nonce @ ct \<and> length nonce = 12
        \<and> 12 + length ct < 2 ^ 32 \<and> store_decrypt env key nonce ct = Some bs \<and> parse_record env bs = Inr r)"

lemma encode_record_frame:
  assumes "store_coded env" and "length nonce = 12" and "encode_record env nonce rl r = Inr f"
  shows "frame_for env (rl_key rl) r f"
proof -
  obtain bs ct where "bincode_record env r = Inr bs" "store_encrypt env (rl_key rl) nonce bs = Some ct"
    "12 + length ct < 2 ^ 32" "f = u32_to_be_bytes (of_nat (12 + length ct)) @ nonce @ ct"
    using assms(3)
    by (auto simp: encode_record_def encrypt_data_def STORE_NONCE_SIZE_def split: sum.splits option.splits if_splits)
  with assms(1,2) show ?thesis
    unfolding frame_for_def store_coded_def by blast
qed

lemma encode_records_frames:
  assumes "store_coded env" and "\<And>i. length (nonces i) = 12" and "encode_records env nonces rl rs = Inr bs"
  shows "\<exists>fs. list_all2 (frame_for env (rl_key rl)) rs fs \<and> bs = concat fs"
  using assms(2,3)
proof (induction rs arbitrary: nonces bs)
  case Nil
  then show ?case by simp
next
  case (Cons r rs)
  obtain f where f: "encode_record env (nonces 0) rl r = Inr f"
    using Cons.prems(2) by (cases "encode_record env (nonces 0) rl r") auto
  obtain rest where rest: "encode_records env (\<lambda>i. nonces (Suc i)) rl rs = Inr rest" "bs = f @ rest"
    using Cons.prems(2) f by (cases "encode_records env (\<lambda>i. nonces (Suc i)) rl rs") auto
  obtain fs where "list_all2 (frame_for env (rl_key rl)) rs fs" "rest = concat fs"
    using Cons.IH [of "\<lambda>i. nonces (Suc i)" rest] Cons.prems(1) rest(1) by blast
  then show ?case
    using encode_record_frame [OF assms(1) Cons.prems(1) f] rest(2)
    by (intro exI [of _ "f # fs"]) simp
qed

section \<open>Reading frames back\<close>

fun visit_all :: "('r \<Rightarrow> 's \<Rightarrow> log_error + 's) \<Rightarrow> 'r list \<Rightarrow> 's \<Rightarrow> log_error + 's" where
  "visit_all visit [] s = Inr s"
| "visit_all visit (r # rs) s = bind_result (visit r s) (visit_all visit rs)"

lemma unat_u32_of_nat: "n < 2 ^ 32 \<Longrightarrow> unat (of_nat n :: u32) = n"
  by (simp add: unat_of_nat)

lemma parse_records_step:
  assumes "4 \<le> length body" and "unat (u32_from_be_bytes (take 4 body)) = len" and "len \<le> length body - 4"
    and "12 \<le> len" and "store_decrypt env key (take 12 (take len (drop 4 body))) (drop 12 (take len (drop 4 body))) = Some bs"
    and "parse_record env bs = Inr r"
  shows "parse_records env key visit body s valid
    = bind_result (visit r s) (\<lambda>s'. parse_records env key visit (drop (4 + len) body) s' (valid + (4 + len)))"
  by (subst parse_records.simps)
    (use assms in \<open>simp add: Let_def STORE_NONCE_SIZE_def decrypt_data_def split: sum.split\<close>)

lemma parse_frame:
  assumes "frame_for env key r f"
  shows "parse_records env key visit (f @ rest) s valid
    = bind_result (visit r s) (\<lambda>s'. parse_records env key visit rest s' (valid + length f))"
proof -
  obtain nonce ct bs where f: "f = u32_to_be_bytes (of_nat (12 + length ct)) @ nonce @ ct" "length nonce = 12"
    "12 + length ct < 2 ^ 32" "store_decrypt env key nonce ct = Some bs" "parse_record env bs = Inr r"
    using assms by (auto simp: frame_for_def)
  let ?len = "12 + length ct"
  have len: "unat (u32_from_be_bytes (take 4 (f @ rest))) = ?len"
    using unat_u32_of_nat [OF f(3)] by (simp add: f(1))
  have rec: "take ?len (drop 4 (f @ rest)) = nonce @ ct" using f(2) by (simp add: f(1))
  have all: "drop (4 + ?len) (f @ rest) = rest" "length f = 4 + ?len" using f(2) by (auto simp: f(1))
  have "parse_records env key visit (f @ rest) s valid
    = bind_result (visit r s) (\<lambda>s'. parse_records env key visit (drop (4 + ?len) (f @ rest)) s' (valid + (4 + ?len)))"
  proof (rule parse_records_step [OF _ len _ _ _ f(5)])
    show "store_decrypt env key (take 12 (take ?len (drop 4 (f @ rest)))) (drop 12 (take ?len (drop 4 (f @ rest)))) = Some bs"
      unfolding rec using f(2,4) by simp
  qed (use all(2) in simp_all)
  then show ?thesis unfolding all .
qed

lemma parse_frames:
  assumes "list_all2 (frame_for env key) rs fs"
  shows "parse_records env key visit (concat fs @ tail) s valid
    = bind_result (visit_all visit rs s) (\<lambda>s'. parse_records env key visit tail s' (valid + length (concat fs)))"
  using assms
proof (induction arbitrary: s valid rule: list_all2_induct)
  case Nil
  then show ?case by simp
next
  case (Cons r rs f fs)
  show ?case
    using parse_frame [OF Cons.hyps(1), of visit "concat fs @ tail" s valid] Cons.IH
    by (cases "visit r s") (simp_all add: add.assoc)
qed

text \<open>A frame cut short is a torn tail: nothing of it is read.\<close>

lemma parse_torn:
  assumes "frame_for env key r f" and "strict_prefix tail f"
  shows "parse_records env key visit tail s valid = Inr (s, valid)"
proof -
  obtain nonce ct where f: "f = u32_to_be_bytes (of_nat (12 + length ct)) @ nonce @ ct" "length nonce = 12"
    "12 + length ct < 2 ^ 32"
    using assms by (auto simp: frame_for_def)
  obtain rest where rest: "f = tail @ rest" "rest \<noteq> []"
    using assms(2) by (auto simp: strict_prefix_def prefix_def)
  show ?thesis
  proof (cases "length tail < 4")
    case True
    then show ?thesis by (subst parse_records.simps) simp
  next
    case False
    have "take 4 tail = take 4 f" using rest False by simp
    also have "\<dots> = u32_to_be_bytes (of_nat (12 + length ct))" by (simp add: f(1))
    finally have "unat (u32_from_be_bytes (take 4 tail)) = 12 + length ct"
      using unat_u32_of_nat [OF f(3)] by simp
    moreover have "length tail + length rest = 4 + (12 + length ct)"
      using arg_cong [OF rest(1), of length] f(2) by (simp add: f(1))
    then have "12 + length ct > length tail - 4" using rest(2) False by (cases rest) auto
    ultimately show ?thesis using False by (subst parse_records.simps) (simp add: Let_def)
  qed
qed

section \<open>What a file holds\<close>

text \<open>
  A file holds the acknowledged records \<open>rs\<close>. After an append whose rollback failed it may also
  hold some first bytes, or all, of that record's frame; \<open>pending\<close> is that record.
\<close>

definition rl_holds :: "'r store_env \<Rightarrow> string \<Rightarrow> record_log \<Rightarrow> 'r list \<Rightarrow> 'r option \<Rightarrow> bool" where
  "rl_holds env password rl rs pending \<longleftrightarrow>
     length (rl_magic rl) = 6 \<and> length (rl_salt rl) = 16
     \<and> rl_key rl = key_from_password env password (rl_salt rl)
     \<and> (\<exists>fs tail. rl_file rl = rl_magic rl @ rl_salt rl @ concat fs @ tail
          \<and> list_all2 (frame_for env (rl_key rl)) rs fs
          \<and> (if rl_poisoned rl
             then rl_rollback_boundary rl = length (rl_magic rl @ rl_salt rl @ concat fs)
               \<and> (\<exists>r f. pending = Some r \<and> frame_for env (rl_key rl) r f \<and> prefix tail f)
             else tail = [] \<and> pending = None))"

lemma rl_holdsE:
  assumes "rl_holds env password rl rs pending"
  obtains fs tail where "length (rl_magic rl) = 6" "length (rl_salt rl) = 16"
    "rl_key rl = key_from_password env password (rl_salt rl)"
    "rl_file rl = rl_magic rl @ rl_salt rl @ concat fs @ tail"
    "list_all2 (frame_for env (rl_key rl)) rs fs"
    "rl_poisoned rl \<longrightarrow> rl_rollback_boundary rl = length (rl_magic rl @ rl_salt rl @ concat fs)"
    "rl_poisoned rl \<longrightarrow> (\<exists>r f. pending = Some r \<and> frame_for env (rl_key rl) r f \<and> prefix tail f)"
    "\<not> rl_poisoned rl \<longrightarrow> tail = [] \<and> pending = None"
  using assms unfolding rl_holds_def by (auto split: if_splits)

lemma created_holds:
  assumes "length magic = 6" and "length fresh = 16"
    and "open_with_visitor env disk fresh password magic visit s None = Inr (s', rl)"
  shows "s' = s \<and> rl_holds env password rl [] None"
  using assms by (auto simp: open_with_visitor_def rl_holds_def split: if_splits)

lemma append_holds:
  assumes "store_coded env" and "length nonce = 12" and "rl_holds env password rl rs pending"
    and "append_with env disk durable nonce rl r = (res, rl')"
  shows "(res = Inr () \<and> pending = None \<and> rl_holds env password rl' (rs @ [r]) None)
    \<or> (\<exists>e. res = Inl e \<and> (rl_holds env password rl' rs pending
          \<or> pending = None \<and> rl_holds env password rl' rs (Some r)))"
proof (cases "rl_poisoned rl")
  case True
  then show ?thesis using assms(3,4) by (auto simp: append_with_def)
next
  case False
  obtain fs where h: "length (rl_magic rl) = 6" "length (rl_salt rl) = 16"
    "rl_key rl = key_from_password env password (rl_salt rl)" "rl_file rl = rl_magic rl @ rl_salt rl @ concat fs"
    "list_all2 (frame_for env (rl_key rl)) rs fs" "pending = None"
    using rl_holdsE [OF assms(3)] False by (metis append_Nil2)
  show ?thesis
  proof (cases "encode_record env nonce rl r")
    case (Inl e)
    with False assms(3,4) show ?thesis by (auto simp: append_with_def)
  next
    case (Inr f)
    have frame: "frame_for env (rl_key rl) r f" by (rule encode_record_frame [OF assms(1,2) Inr])
    have more: "list_all2 (frame_for env (rl_key rl)) (rs @ [r]) (fs @ [f])"
      using h(5) frame by (simp add: list_all2_appendI)
    consider (stat) "stat_fails disk" | (good) "\<not> stat_fails disk" "write_stops disk = None" "\<not> (durable \<and> sync_fails disk)"
      | (bad) "\<not> stat_fails disk" "write_stops disk \<noteq> None \<or> durable \<and> sync_fails disk" by blast
    then show ?thesis
    proof cases
      case stat
      with False Inr assms(3,4) show ?thesis by (auto simp: append_with_def)
    next
      case good
      then have "res = Inr ()" "rl' = rl\<lparr>rl_file := rl_file rl @ f\<rparr>"
        using False Inr assms(4) by (auto simp: append_with_def Let_def)
      with False h more show ?thesis by (auto simp: rl_holds_def intro!: exI [of _ "fs @ [f]"])
    next
      case bad
      let ?w = "case write_stops disk of None \<Rightarrow> f | Some k \<Rightarrow> take k f"
      have w: "prefix ?w f" by (auto simp: take_is_prefix split: option.split)
      show ?thesis
      proof (cases "truncate_fails disk \<or> resync_fails disk")
        case True
        then have "res = Inl io_error" "rl' = rl\<lparr>rl_file := rl_file rl @ (if truncate_fails disk then ?w else []),
            rl_rollback_boundary := length (rl_file rl), rl_poisoned := True\<rparr>"
          using False Inr bad assms(4) by (auto simp: append_with_def Let_def)
        with False h frame w show ?thesis
          by (auto simp: rl_holds_def intro!: exI [of _ fs])
      next
        case False
        then have "res = Inl io_error" "rl' = rl"
          using \<open>\<not> rl_poisoned rl\<close> Inr bad assms(4) by (auto simp: append_with_def Let_def)
        with assms(3) show ?thesis by simp
      qed
    qed
  qed
qed

lemma recover_holds:
  assumes "rl_holds env password rl rs pending" and "recover_failed_append disk rl = (res, rl')"
  shows "\<exists>p. rl_holds env password rl' rs p \<and> (p = None \<or> p = pending) \<and> (res = Inr () \<longrightarrow> p = None)"
proof (cases "rl_poisoned rl")
  case False
  then show ?thesis using assms rl_holdsE [OF assms(1)] by (auto simp: recover_failed_append_def)
next
  case True
  obtain fs tail r f where h: "length (rl_magic rl) = 6" "length (rl_salt rl) = 16"
    "rl_key rl = key_from_password env password (rl_salt rl)" "rl_file rl = rl_magic rl @ rl_salt rl @ concat fs @ tail"
    "list_all2 (frame_for env (rl_key rl)) rs fs"
    "rl_rollback_boundary rl = length (rl_magic rl @ rl_salt rl @ concat fs)"
    "pending = Some r" "frame_for env (rl_key rl) r f"
    using rl_holdsE [OF assms(1)] True by metis
  then have cut: "take (rl_rollback_boundary rl) (rl_file rl) = rl_magic rl @ rl_salt rl @ concat fs" by simp
  show ?thesis
  proof (cases "truncate_fails disk")
    case True
    with \<open>rl_poisoned rl\<close> assms show ?thesis by (auto simp: recover_failed_append_def)
  next
    case False
    with \<open>rl_poisoned rl\<close> assms(2) cut
    have "rl' = rl\<lparr>rl_file := rl_magic rl @ rl_salt rl @ concat fs, rl_poisoned := resync_fails disk\<rparr>"
      "res = (if resync_fails disk then Inl io_error else Inr ())"
      by (auto simp: recover_failed_append_def Let_def split: if_splits)
    with h show ?thesis
      by (intro exI [of _ "if resync_fails disk then pending else None"]) (auto simp: rl_holds_def intro!: exI [of _ fs])
  qed
qed

lemma replaced_holds:
  assumes "store_coded env" and "\<And>i. length (nonces i) = 12" and "rl_holds env password rl rs pending"
    and "\<not> rl_poisoned rl" and "encode_records env nonces rl rs' = Inr frames"
  shows "rl_holds env password (rl\<lparr>rl_file := rl_magic rl @ rl_salt rl @ frames\<rparr>) rs' None"
    and "rl_holds env password (rl\<lparr>rl_file := rl_file rl @ frames\<rparr>) (rs @ rs') None"
proof -
  obtain fs where h: "length (rl_magic rl) = 6" "length (rl_salt rl) = 16"
    "rl_key rl = key_from_password env password (rl_salt rl)" "rl_file rl = rl_magic rl @ rl_salt rl @ concat fs"
    "list_all2 (frame_for env (rl_key rl)) rs fs" "pending = None"
    using rl_holdsE [OF assms(3)] assms(4) by (metis append_Nil2)
  obtain fs' where fs': "list_all2 (frame_for env (rl_key rl)) rs' fs'" "frames = concat fs'"
    using encode_records_frames [OF assms(1,2,5)] by blast
  show "rl_holds env password (rl\<lparr>rl_file := rl_magic rl @ rl_salt rl @ frames\<rparr>) rs' None"
    using h fs' assms(4) by (auto simp: rl_holds_def intro!: exI [of _ fs'])
  show "rl_holds env password (rl\<lparr>rl_file := rl_file rl @ frames\<rparr>) (rs @ rs') None"
    using h fs' assms(4) by (auto simp: rl_holds_def list_all2_appendI intro!: exI [of _ "fs @ fs'"])
qed

lemma rewrite_holds:
  assumes "store_coded env" and "\<And>i. length (nonces i) = 12" and "rl_holds env password rl rs pending"
    and "record_log_rewrite env disk nonces rl rs' = (res, rl')"
  shows "res = Inr () \<and> rl_holds env password rl' rs' None \<or> (\<exists>e. res = Inl e \<and> rl' = rl)"
  using assms(4) replaced_holds(1) [OF assms(1-3)]
  by (auto simp: record_log_rewrite_def split: if_splits sum.splits)

lemma batch_holds:
  assumes "store_coded env" and "\<And>i. length (nonces i) = 12" and "rl_holds env password rl rs pending"
    and "append_batch_atomic env disk nonces rl rs' = (res, rl')"
  shows "res = Inr () \<and> rl_holds env password rl' (rs @ rs') None \<or> (\<exists>e. res = Inl e \<and> rl' = rl)"
proof (cases "rs' = []")
  case True
  have "\<not> rl_poisoned rl \<Longrightarrow> pending = None" using rl_holdsE [OF assms(3)] by metis
  with True assms(3,4) show ?thesis by (auto simp: append_batch_atomic_def split: if_splits)
next
  case False
  with assms(4) replaced_holds(2) [OF assms(1-3)] show ?thesis
    by (auto simp: append_batch_atomic_def split: if_splits sum.splits)
qed

lemma visit_all_snoc: "visit_all visit (rs @ [r]) s = bind_result (visit_all visit rs s) (visit r)"
proof (induction rs arbitrary: s)
  case Nil
  show ?case by (cases "visit r s") simp_all
next
  case (Cons r' rs)
  then show ?case by (cases "visit r' s") simp_all
qed

lemma parse_records_Nil [simp]: "parse_records env key visit [] s valid = Inr (s, valid)"
  by (subst parse_records.simps) simp

text \<open>
  Loading visits the acknowledged records and, at most, the pending one after them; it leaves a
  file that holds what was visited.
\<close>

lemma load_holds:
  assumes "rl_holds env password rl rs pending"
  shows "\<exists>rs' rl'. (rs' = rs \<or> (\<exists>r. pending = Some r \<and> rs' = rs @ [r])) \<and> rl_holds env password rl' rs' None
    \<and> (\<forall>visit s. record_log_load env good_disk password (rl_magic rl) visit s (rl_file rl)
         = bind_result (visit_all visit rs' s) (\<lambda>s'. Inr (s', rl')))"
proof -
  obtain fs tail where h: "length (rl_magic rl) = 6" "length (rl_salt rl) = 16"
    "rl_key rl = key_from_password env password (rl_salt rl)" "rl_file rl = rl_magic rl @ rl_salt rl @ concat fs @ tail"
    "list_all2 (frame_for env (rl_key rl)) rs fs"
    "rl_poisoned rl \<longrightarrow> rl_rollback_boundary rl = length (rl_magic rl @ rl_salt rl @ concat fs)"
    "rl_poisoned rl \<longrightarrow> (\<exists>r f. pending = Some r \<and> frame_for env (rl_key rl) r f \<and> prefix tail f)"
    "\<not> rl_poisoned rl \<longrightarrow> tail = [] \<and> pending = None"
    by (rule rl_holdsE [OF assms])
  let ?key = "rl_key rl"
  have load: "record_log_load env good_disk password (rl_magic rl) visit s (rl_file rl)
      = bind_result (parse_records env ?key visit (concat fs @ tail) s 0) (\<lambda>(s', valid).
          Inr (s', \<lparr>rl_file = take (22 + valid) (rl_file rl), rl_key = ?key, rl_salt = rl_salt rl,
                   rl_magic = rl_magic rl, rl_poisoned = False, rl_rollback_boundary = 0\<rparr>))"
    for visit :: "'a \<Rightarrow> 'b \<Rightarrow> log_error + 'b" and s
    using h(1-3) by (simp add: record_log_load_def h(4) SALT_SIZE_def good_disk_def Let_def)
  define whole where "whole = (\<lambda>fs'. \<lparr>rl_file = rl_magic rl @ rl_salt rl @ concat fs', rl_key = ?key,
      rl_salt = rl_salt rl, rl_magic = rl_magic rl, rl_poisoned = False, rl_rollback_boundary = 0\<rparr>)"
  have whole_holds: "rl_holds env password (whole fs') rs' None" if "list_all2 (frame_for env ?key) rs' fs'" for rs' fs'
    using h(1-3) that by (auto simp: rl_holds_def whole_def)
  have parse: "parse_records env ?key visit (concat fs @ tail) s 0
      = bind_result (visit_all visit rs s) (\<lambda>s'. parse_records env ?key visit tail s' (length (concat fs)))"
    for visit :: "'a \<Rightarrow> 'b \<Rightarrow> log_error + 'b" and s
    using parse_frames [OF h(5), of visit tail s 0] by simp
  show ?thesis
  proof (cases "tail = [] \<or> (\<exists>r f. frame_for env ?key r f \<and> strict_prefix tail f)")
    case True
    have "parse_records env ?key visit tail s' valid = Inr (s', valid)"
      for visit :: "'a \<Rightarrow> 'b \<Rightarrow> log_error + 'b" and s' valid
      using True
    proof
      assume "tail = []"
      then show ?thesis by simp
    next
      assume "\<exists>r f. frame_for env ?key r f \<and> strict_prefix tail f"
      then obtain r f where "frame_for env ?key r f" "strict_prefix tail f" by blast
      then show ?thesis by (rule parse_torn)
    qed
    moreover have "take (22 + length (concat fs)) (rl_file rl) = rl_magic rl @ rl_salt rl @ concat fs"
      using h(1,2) by (simp add: h(4))
    ultimately have "record_log_load env good_disk password (rl_magic rl) visit s (rl_file rl)
        = bind_result (visit_all visit rs s) (\<lambda>s'. Inr (s', whole fs))"
      for visit :: "'a \<Rightarrow> 'b \<Rightarrow> log_error + 'b" and s
      unfolding load parse whole_def by (cases "visit_all visit rs s") auto
    then show ?thesis using whole_holds [OF h(5)] by blast
  next
    case False
    then obtain r f where r: "pending = Some r" "frame_for env ?key r f" "tail = f"
      using h(7,8) by (metis prefix_order.le_less)
    have "parse_records env ?key visit tail s' valid = bind_result (visit r s') (\<lambda>s''. Inr (s'', valid + length f))"
      for visit :: "'a \<Rightarrow> 'b \<Rightarrow> log_error + 'b" and s' valid
      using parse_frame [OF r(2), of visit "[]" s' valid] unfolding r(3) by simp
    moreover have "take (22 + (length (concat fs) + length f)) (rl_file rl) = rl_magic rl @ rl_salt rl @ concat (fs @ [f])"
      using h(1,2) by (simp add: h(4) r(3))
    ultimately have "record_log_load env good_disk password (rl_magic rl) visit s (rl_file rl)
        = bind_result (visit_all visit (rs @ [r]) s) (\<lambda>s'. Inr (s', whole (fs @ [f])))"
      for visit :: "'a \<Rightarrow> 'b \<Rightarrow> log_error + 'b" and s
      unfolding load parse whole_def visit_all_snoc
      by (cases "visit_all visit rs s"; cases "visit r (projr (visit_all visit rs s))") auto
    moreover have "rl_holds env password (whole (fs @ [f])) (rs @ [r]) None"
      using h(5) r(2) by (intro whole_holds) (simp add: list_all2_appendI)
    ultimately show ?thesis using r(1) by blast
  qed
qed

lemma clean_load:
  assumes "rl_holds env password rl rs pending" and "\<not> rl_poisoned rl"
    and "record_log_load env good_disk password (rl_magic rl) visit s (rl_file rl) = Inr (s', rl')"
  shows "rl_file rl' = rl_file rl"
proof -
  obtain fs where h: "length (rl_magic rl) = 6" "length (rl_salt rl) = 16"
    "rl_key rl = key_from_password env password (rl_salt rl)" "rl_file rl = rl_magic rl @ rl_salt rl @ concat fs"
    "list_all2 (frame_for env (rl_key rl)) rs fs"
    using rl_holdsE [OF assms(1)] assms(2) by (metis append_Nil2)
  have "parse_records env (rl_key rl) visit (concat fs) s 0
      = bind_result (visit_all visit rs s) (\<lambda>s'. Inr (s', length (concat fs)))"
    using parse_frames [OF h(5), of visit "[]" s 0] by simp
  then show ?thesis
    using assms(3) h(1-3)
    by (cases "visit_all visit rs s") (auto simp: record_log_load_def h(4) SALT_SIZE_def good_disk_def Let_def)
qed

section \<open>Histories of a file\<close>

text \<open>
  Any sequence of operations on a file with any disk behaviour, with the records acknowledged so
  far and, at most, the one record whose append failed in a way that could not be undone.
\<close>

inductive file_history :: "'r store_env \<Rightarrow> string \<Rightarrow> record_log \<Rightarrow> 'r list \<Rightarrow> 'r option \<Rightarrow> bool"
  for env password where
  create: "record_log_open env disk fresh password magic None = Inr (rs, rl) \<Longrightarrow> length magic = 6 \<Longrightarrow> length fresh = 16 \<Longrightarrow>
    file_history env password rl rs None"
| appended: "file_history env password rl rs p \<Longrightarrow> length nonce = 12 \<Longrightarrow>
    append_with env disk durable nonce rl r = (Inr (), rl') \<Longrightarrow> file_history env password rl' (rs @ [r]) None"
| append_failed: "file_history env password rl rs p \<Longrightarrow> length nonce = 12 \<Longrightarrow>
    append_with env disk durable nonce rl r = (Inl e, rl') \<Longrightarrow>
    file_history env password rl' rs (if rl_poisoned rl' \<and> \<not> rl_poisoned rl then Some r else p)"
| recovered: "file_history env password rl rs p \<Longrightarrow> recover_failed_append disk rl = (Inr (), rl') \<Longrightarrow>
    file_history env password rl' rs None"
| recovery_failed: "file_history env password rl rs p \<Longrightarrow> recover_failed_append disk rl = (Inl e, rl') \<Longrightarrow>
    file_history env password rl' rs p"
| rewritten: "file_history env password rl rs p \<Longrightarrow> (\<forall>i. length (nonces i) = 12) \<Longrightarrow>
    record_log_rewrite env disk nonces rl rs' = (Inr (), rl') \<Longrightarrow> file_history env password rl' rs' None"
| batch: "file_history env password rl rs p \<Longrightarrow> (\<forall>i. length (nonces i) = 12) \<Longrightarrow>
    append_batch_atomic env disk nonces rl rs' = (Inr (), rl') \<Longrightarrow> file_history env password rl' (rs @ rs') None"
| replace_failed: "file_history env password rl rs p \<Longrightarrow>
    record_log_rewrite env disk nonces rl rs' = (Inl e, rl') \<or> append_batch_atomic env disk nonces rl rs' = (Inl e, rl') \<Longrightarrow>
    file_history env password rl' rs p"
| reopened: "file_history env password rl rs p \<Longrightarrow>
    record_log_open env good_disk fresh password (rl_magic rl) (Some (rl_file rl)) = Inr (rs', rl') \<Longrightarrow>
    file_history env password rl' rs' None"

lemma visit_all_list: "visit_all (\<lambda>r rs. Inr (rs @ [r])) rs' rs = Inr (rs @ rs')"
  by (induction rs' arbitrary: rs) simp_all

lemma open_holds:
  fixes env :: "'r store_env"
  assumes "rl_holds env password rl rs pending"
  shows "\<exists>rs' rl'. record_log_open env good_disk fresh password (rl_magic rl) (Some (rl_file rl)) = Inr (rs', rl')
    \<and> (rs' = rs \<or> (\<exists>r. pending = Some r \<and> rs' = rs @ [r])) \<and> rl_holds env password rl' rs' None"
proof -
  obtain rs' rl' where l: "rs' = rs \<or> (\<exists>r. pending = Some r \<and> rs' = rs @ [r])" "rl_holds env password rl' rs' None"
    "\<And>(visit :: 'r \<Rightarrow> 'r list \<Rightarrow> _) s. record_log_load env good_disk password (rl_magic rl) visit s (rl_file rl)
       = bind_result (visit_all visit rs' s) (\<lambda>s'. Inr (s', rl'))"
    using load_holds [OF assms] by metis
  have "record_log_open env good_disk fresh password (rl_magic rl) (Some (rl_file rl)) = Inr (rs', rl')"
    unfolding record_log_open_def open_with_visitor_def option.case l(3) visit_all_list by simp
  with l(1,2) show ?thesis by blast
qed

lemma not_poisoned_pending:
  assumes "rl_holds env password rl rs pending" and "\<not> rl_poisoned rl"
  shows "pending = None"
  using assms by (auto simp: rl_holds_def)

lemma holds_poisoned: "rl_holds env password rl rs pending \<Longrightarrow> rl_poisoned rl \<longleftrightarrow> pending \<noteq> None"
  by (auto simp: rl_holds_def split: if_splits)

lemma append_failed_holds:
  assumes "store_coded env" and "length nonce = 12" and "rl_holds env password rl rs pending"
    and "append_with env disk durable nonce rl r = (Inl e, rl')"
  shows "rl_holds env password rl' rs (if rl_poisoned rl' \<and> \<not> rl_poisoned rl then Some r else pending)"
proof (cases "rl_poisoned rl")
  case True
  with assms(3,4) show ?thesis by (auto simp: append_with_def)
next
  case False
  then have none: "pending = None" by (rule not_poisoned_pending [OF assms(3)])
  from append_holds [OF assms] consider "rl_holds env password rl' rs None" | "rl_holds env password rl' rs (Some r)"
    using none by auto
  then show ?thesis
  proof cases
    case 1
    then have "\<not> rl_poisoned rl'" by (simp add: holds_poisoned)
    with 1 none show ?thesis by simp
  next
    case 2
    then have "rl_poisoned rl'" by (simp add: holds_poisoned)
    with 2 False show ?thesis by simp
  qed
qed

lemma file_history_holds:
  assumes "store_coded env" and "file_history env password rl rs p"
  shows "rl_holds env password rl rs p"
  using assms(2)
proof (induction rule: file_history.induct)
  case (create disk fresh magic rs rl)
  from created_holds [OF create(2,3) create(1) [unfolded record_log_open_def]] show ?case by simp
next
  case (appended rl rs p nonce disk durable r rl')
  then show ?case using append_holds [OF assms(1)] by blast
next
  case (append_failed rl rs p nonce disk durable r e rl')
  then show ?case using append_failed_holds [OF assms(1)] by blast
next
  case (recovered rl rs p disk rl')
  then show ?case using recover_holds by fastforce
next
  case (recovery_failed rl rs p disk e rl')
  then obtain q where "rl_holds env password rl' rs q" "q = None \<or> q = p" using recover_holds by blast
  moreover have "rl_poisoned rl'"
    using recovery_failed.hyps(2) by (auto simp: recover_failed_append_def Let_def split: if_splits)
  ultimately show ?case using holds_poisoned [of env password rl' rs q] by auto
next
  case (rewritten rl rs p nonces disk rs' rl')
  then show ?case using rewrite_holds [OF assms(1)] by blast
next
  case (batch rl rs p nonces disk rs' rl')
  then show ?case using batch_holds [OF assms(1)] by blast
next
  case (replace_failed rl rs p disk nonces rs' e rl')
  then show ?case
    by (auto simp: record_log_rewrite_def append_batch_atomic_def split: if_splits sum.splits)
next
  case (reopened rl rs p fresh rs' rl')
  then show ?case using open_holds [OF reopened.IH, of fresh] by auto
qed

section \<open>Properties\<close>

text \<open>
  C33. What was acknowledged is read back: after any operations with any disk faults, short writes
  and failed rollbacks included, reopening the file returns the acknowledged records in order,
  followed at most by the one record whose append failed and could not be rolled back; a file that
  is not waiting for a rollback returns exactly the acknowledged ones.
\<close>

theorem acknowledged_records_survive:
  assumes "store_coded env" and "file_history env password rl rs pending"
  shows "\<exists>rs' rl'. record_log_open env good_disk fresh password (rl_magic rl) (Some (rl_file rl)) = Inr (rs', rl')
    \<and> (rs' = rs \<or> (\<exists>r. pending = Some r \<and> rs' = rs @ [r]))
    \<and> (\<not> rl_poisoned rl \<longrightarrow> rs' = rs \<and> rl_file rl' = rl_file rl)"
proof -
  note h = file_history_holds [OF assms]
  obtain rs' rl' where o: "record_log_open env good_disk fresh password (rl_magic rl) (Some (rl_file rl)) = Inr (rs', rl')"
    "rs' = rs \<or> (\<exists>r. pending = Some r \<and> rs' = rs @ [r])" "rl_holds env password rl' rs' None"
    using open_holds [OF h] by blast
  moreover have "rl_file rl' = rl_file rl" if "\<not> rl_poisoned rl"
    using clean_load [OF h that] o(1) by (simp add: record_log_open_def open_with_visitor_def)
  ultimately show ?thesis using not_poisoned_pending [OF h] by auto
qed

lemma parse_damaged:
  assumes "length nonce = 12" and "12 + length ct < 2 ^ 32" and "store_decrypt env key nonce ct = None"
  shows "parse_records env key visit (u32_to_be_bytes (of_nat (12 + length ct)) @ nonce @ ct @ rest) s valid
    = Inl (CorruptFile ''record failed to decrypt'')"
proof -
  let ?body = "u32_to_be_bytes (of_nat (12 + length ct)) @ nonce @ ct @ rest"
  define body where "body = ?body"
  have "unat (u32_from_be_bytes (take 4 body)) = 12 + length ct"
    using unat_u32_of_nat [OF assms(2)] by (simp add: body_def)
  moreover have "\<not> length body < 4" "\<not> 12 + length ct > length body - 4" using assms(1) by (auto simp: body_def)
  moreover have "take (12 + length ct) (drop 4 body) = nonce @ ct" using assms(1) by (simp add: body_def)
  ultimately have "parse_records env key visit body s valid = Inl (CorruptFile ''record failed to decrypt'')"
    using assms(1,3)
    by (subst parse_records.simps) (simp add: Let_def STORE_NONCE_SIZE_def decrypt_data_def)
  then show ?thesis by (simp add: body_def)
qed

text \<open>
  C34. Damage is reported, not skipped: where a whole frame follows the acknowledged records and
  does not decrypt under the file's key, opening fails as corrupt whatever comes after it, and so
  does opening a file under another store's magic.
\<close>

theorem damage_reported:
  assumes "store_coded env" and "file_history env password rl rs pending" and "\<not> rl_poisoned rl"
    and "length nonce = 12" and "12 + length ct < 2 ^ 32" and "store_decrypt env (rl_key rl) nonce ct = None"
    and "length magic = 6" and "magic \<noteq> rl_magic rl"
  shows "record_log_open env disk fresh password (rl_magic rl)
      (Some (rl_file rl @ u32_to_be_bytes (of_nat (12 + length ct)) @ nonce @ ct @ rest))
        = Inl (CorruptFile ''record failed to decrypt'')
    \<and> record_log_open env disk fresh password magic (Some (rl_file rl)) = Inl (CorruptFile ''bad magic'')"
proof -
  obtain fs where h: "length (rl_magic rl) = 6" "length (rl_salt rl) = 16"
    "rl_key rl = key_from_password env password (rl_salt rl)" "rl_file rl = rl_magic rl @ rl_salt rl @ concat fs"
    "list_all2 (frame_for env (rl_key rl)) rs fs"
    using rl_holdsE [OF file_history_holds [OF assms(1,2)]] assms(3) by (metis append_Nil2)
  let ?bad = "u32_to_be_bytes (of_nat (12 + length ct)) @ nonce @ ct @ rest"
  have "parse_records env (rl_key rl) (\<lambda>r rs. Inr (rs @ [r])) (concat fs @ ?bad) [] 0
      = Inl (CorruptFile ''record failed to decrypt'')"
    using parse_frames [OF h(5), of "\<lambda>r rs. Inr (rs @ [r])" ?bad "[]" 0] parse_damaged [OF assms(4-6)]
    by (simp add: visit_all_list)
  moreover have "record_log_open env disk fresh password magic (Some (rl_file rl)) = Inl (CorruptFile ''bad magic'')"
    using assms(7,8) h(1) by (simp add: record_log_open_def open_with_visitor_def record_log_load_def h(4))
  ultimately show ?thesis
    using h(1-3) by (simp add: record_log_open_def open_with_visitor_def record_log_load_def h(4) SALT_SIZE_def Let_def)
qed

section \<open>Witnesses\<close>

text \<open>A computable instance: records are bytes, and the cipher leaves the text as it is, but opens
  nothing that is empty.\<close>

definition demo_store :: "u8 store_env" where
  "demo_store =
     \<lparr>pbkdf2_hmac = (\<lambda>password salt rounds. 7), store_encrypt = (\<lambda>key nonce bs. if bs = [] then None else Some bs),
      store_decrypt = (\<lambda>key nonce ct. if ct = [] then None else Some ct),
      bincode_record = (\<lambda>r. Inr [r]), parse_record = (\<lambda>bs. if bs = [] then Inl [] else Inr (hd bs))\<rparr>"

lemma demo_store_coded: "store_coded demo_store"
  by (auto simp: store_coded_def demo_store_def split: if_splits)

definition demo_file :: record_log where
  "demo_file = \<lparr>rl_file = replicate 6 1 @ replicate 16 2, rl_key = 7, rl_salt = replicate 16 2,
                rl_magic = replicate 6 1, rl_poisoned = False, rl_rollback_boundary = 0\<rparr>"

lemma demo_file_history: "file_history demo_store ''pw'' demo_file [] None"
proof (rule file_history.create)
  show "record_log_open demo_store good_disk (replicate 16 2) ''pw'' (replicate 6 1) None = Inr ([], demo_file)"
    by (simp add: record_log_open_def open_with_visitor_def good_disk_def demo_file_def key_from_password_def demo_store_def)
qed simp_all

theorem acknowledged_records_survive_witness:
  "\<exists>rl rl'. append_with demo_store good_disk False (replicate 12 0) demo_file 5 = (Inr (), rl)
    \<and> record_log_open demo_store good_disk [] ''pw'' (rl_magic rl) (Some (rl_file rl)) = Inr ([5], rl')"
proof -
  obtain rl where a: "append_with demo_store good_disk False (replicate 12 0) demo_file 5 = (Inr (), rl)" "\<not> rl_poisoned rl"
    by (simp add: append_with_def demo_file_def encode_record_def demo_store_def encrypt_data_def
        STORE_NONCE_SIZE_def good_disk_def Let_def)
  have "file_history demo_store ''pw'' rl ([] @ [5]) None"
    by (rule file_history.appended [OF demo_file_history _ a(1)]) simp
  from acknowledged_records_survive [OF demo_store_coded this, of "[]"] a show ?thesis by auto
qed

theorem damage_reported_witness:
  "record_log_open demo_store good_disk [] ''pw'' (rl_magic demo_file)
     (Some (rl_file demo_file @ u32_to_be_bytes 12 @ replicate 12 0 @ [9, 9])) = Inl (CorruptFile ''record failed to decrypt'')"
proof -
  have "store_decrypt demo_store (rl_key demo_file) (replicate 12 0) [] = None" "\<not> rl_poisoned demo_file"
    "replicate 6 3 \<noteq> rl_magic demo_file"
    by (simp_all add: demo_store_def demo_file_def)
  then show ?thesis
    using damage_reported [OF demo_store_coded demo_file_history, of "replicate 12 0" "[]" "replicate 6 3" good_disk "[]" "[9, 9]"]
    by simp
qed

end
