(* ===== verification/Durable_Log.thy ===== *)
theory Durable_Log
  imports Event_Sync Record_Log
begin

text \<open>
  The durable event log, from \<^verbatim>\<open>eventlog/persist/legacy.rs\<close>: the in-memory log of \<open>Event_Store\<close>
  beside the encrypted file of \<open>Record_Log\<close>. An event is validated, then written, then indexed;
  compaction rebuilds the indexes before it replaces the file.

  Instants are nanoseconds of the monotonic clock. The order in which a \<^verbatim>\<open>HashMap\<close> lists its keys is
  the argument \<open>enum\<close>. The cache of fingerprints, behind a lock in the source, is a field.
\<close>

section \<open>The durable log\<close>

text \<open>The magic is the bytes of \<^verbatim>\<open>MTLOG1\<close>.\<close>

definition LOG_MAGIC :: bytes where
  "LOG_MAGIC = [77, 84, 76, 79, 71, 49]"

definition PROFILE_COMPACTION_COOLDOWN :: nat where
  "PROFILE_COMPACTION_COOLDOWN = 10 * 10 ^ 9"

definition PROFILE_REWRITE_COOLDOWN :: nat where
  "PROFILE_REWRITE_COOLDOWN = 60 * 10 ^ 9"

definition PROFILE_RECLAIM_RATIO :: nat where
  "PROFILE_RECLAIM_RATIO = 8"

definition COMPACT_PROFILE_MIN :: nat where
  "COMPACT_PROFILE_MIN = 8"

record durable_log =
  dl_log :: event_log
  dl_file :: record_log
  dl_pending :: "conversation_id set"
  dl_last_scan :: "nat option"
  dl_last_rewrite :: "nat option"
  dl_cache :: "conversation_id \<rightharpoonup> array32 \<times> nat"

type_synonym key_order = "conversation_id set \<Rightarrow> conversation_id list"

definition retained_cyclic :: log_error where
  "retained_cyclic = CorruptFile ''retained event graph is not acyclic''"

fun index_in_order ::
  "(event_id \<rightharpoonup> event) \<Rightarrow> event_id list \<Rightarrow> event_log \<Rightarrow> event list \<Rightarrow> failure + (event_log \<times> event list)" where
  "index_in_order by_id [] rebuilt ordered = Inr (rebuilt, ordered)"
| "index_in_order by_id (i # is) rebuilt ordered =
     (case by_id i of
        None \<Rightarrow> Inl Panicked
      | Some e \<Rightarrow>
          if missing_parents rebuilt e \<noteq> [] then Inl (Failed (MissingParents (missing_parents rebuilt e)))
          else index_in_order (by_id(i := None)) is (index_trusted rebuilt e) (ordered @ [e]))"

definition index_retained :: "event list \<Rightarrow> event_log \<Rightarrow> failure + (event_log \<times> event list)" where
  "index_retained kept rebuilt =
     (case ordered_ids kept [] True of
        None \<Rightarrow> Inl Panicked
      | Some order \<Rightarrow>
          if length order \<noteq> length kept then Inl (Failed retained_cyclic)
          else index_in_order (foldl (\<lambda>m e. m(ev_id e \<mapsto> e)) Map.empty kept) order rebuilt [])"

definition replay_step :: "event_log \<times> event list \<Rightarrow> event \<Rightarrow> event_log \<times> event list" where
  "replay_step = (\<lambda>(l, deferred) e.
     if list_all (\<lambda>p. case log_get l p of None \<Rightarrow> False | Some q \<Rightarrow> conversation_id q = conversation_id e) (parents e)
     then (index_trusted l e, deferred) else (l, deferred @ [e]))"

definition durable_open ::
  "event store_env \<Rightarrow> disk \<Rightarrow> bytes \<Rightarrow> string \<Rightarrow> bytes option \<Rightarrow> failure + durable_log" where
  "durable_open env disk fresh password file =
     (case record_log_open env disk fresh password LOG_MAGIC file of
        Inl err \<Rightarrow> Inl (Failed err)
      | Inr (events, rl) \<Rightarrow>
          (case foldl replay_step (event_log_default, []) events of
             (l, deferred) \<Rightarrow>
               bind_result (if deferred = [] then Inr l
                            else bind_result (index_retained deferred l) (\<lambda>(l', _). Inr l'))
                 (\<lambda>l'. Inr \<lparr>dl_log = l', dl_file = rl, dl_pending = {}, dl_last_scan = None,
                            dl_last_rewrite = None, dl_cache = Map.empty\<rparr>)))"

section \<open>Appending\<close>

definition index_appended :: "durable_log \<Rightarrow> record_log \<Rightarrow> event \<Rightarrow> durable_log" where
  "index_appended d rl e =
     d\<lparr>dl_file := rl, dl_cache := (dl_cache d)(conversation_id e := None), dl_log := index_trusted (dl_log d) e\<rparr>"

text \<open>\<open>precommit\<close> is the caller's hook on a state of its own; it runs for new valid events only.\<close>

definition append_with_precommit ::
  "crypto_env \<Rightarrow> event store_env \<Rightarrow> disk \<Rightarrow> bytes \<Rightarrow> ('h \<Rightarrow> (log_error + unit) \<times> 'h) \<Rightarrow> 'h \<Rightarrow> durable_log \<Rightarrow> event
   \<Rightarrow> (log_error + append_outcome) \<times> 'h \<times> durable_log" where
  "append_with_precommit cr env disk nonce precommit h d e =
     (case validate cr (dl_log d) e of
        Inl err \<Rightarrow> (Inl err, h, d)
      | Inr False \<Rightarrow> (Inr Duplicate, h, d)
      | Inr True \<Rightarrow>
          (case precommit h of
             (Inl err, h') \<Rightarrow> (Inl err, h', d)
           | (Inr _, h') \<Rightarrow>
               (case record_log_append env disk nonce (dl_file d) e of
                  (Inl err, rl) \<Rightarrow> (Inl err, h', d\<lparr>dl_file := rl\<rparr>)
                | (Inr _, rl) \<Rightarrow> (Inr Appended, h', index_appended d rl e))))"

definition durable_append ::
  "crypto_env \<Rightarrow> event store_env \<Rightarrow> disk \<Rightarrow> bytes \<Rightarrow> durable_log \<Rightarrow> event
   \<Rightarrow> (log_error + append_outcome) \<times> durable_log" where
  "durable_append cr env disk nonce d e =
     (case append_with_precommit cr env disk nonce (\<lambda>h. (Inr (), h)) () d e of (r, _, d') \<Rightarrow> (r, d'))"

definition durable_sync :: "disk \<Rightarrow> durable_log \<Rightarrow> log_error + unit" where
  "durable_sync disk d = record_log_sync disk (dl_file d)"

definition append_durable ::
  "crypto_env \<Rightarrow> event store_env \<Rightarrow> disk \<Rightarrow> bytes \<Rightarrow> durable_log \<Rightarrow> event
   \<Rightarrow> (log_error + append_outcome) \<times> durable_log" where
  "append_durable cr env disk nonce d e =
     (case validate cr (dl_log d) e of
        Inl err \<Rightarrow> (Inl err, d)
      | Inr False \<Rightarrow> (bind_result (record_log_sync disk (dl_file d)) (\<lambda>_. Inr Duplicate), d)
      | Inr True \<Rightarrow>
          (case record_log_append_durable env disk nonce (dl_file d) e of
             (Inl err, rl) \<Rightarrow> (Inl err, d\<lparr>dl_file := rl\<rparr>)
           | (Inr _, rl) \<Rightarrow> (Inr Appended, index_appended d rl e)))"

definition batch_not_new :: log_error where
  "batch_not_new = Io ''channel batch must be one new conversation''"

definition append_channel_batch_atomic ::
  "crypto_env \<Rightarrow> event store_env \<Rightarrow> disk \<Rightarrow> (nat \<Rightarrow> bytes) \<Rightarrow> durable_log \<Rightarrow> event list
   \<Rightarrow> (log_error + unit) \<times> durable_log" where
  "append_channel_batch_atomic cr env disk nonces d events =
     (case events of
        [] \<Rightarrow> (Inr (), d)
      | first # _ \<Rightarrow>
          if log_events (dl_log d) (conversation_id first) \<noteq> []
             \<or> list_ex (\<lambda>e. conversation_id e \<noteq> conversation_id first) events
          then (Inl batch_not_new, d)
          else
            (case append_all cr event_log_default events of
               Inl err \<Rightarrow> (Inl err, d)
             | Inr _ \<Rightarrow>
                 (case append_batch_atomic env disk nonces (dl_file d) events of
                    (Inl err, rl) \<Rightarrow> (Inl err, d\<lparr>dl_file := rl\<rparr>)
                  | (Inr _, rl) \<Rightarrow>
                      (Inr (), d\<lparr>dl_file := rl, dl_cache := (dl_cache d)(conversation_id first := None),
                                 dl_log := foldl index_trusted (dl_log d) events\<rparr>))))"

section \<open>Compaction\<close>

definition rewrite_kept ::
  "event store_env \<Rightarrow> disk \<Rightarrow> (nat \<Rightarrow> bytes) \<Rightarrow> durable_log \<Rightarrow> event list \<Rightarrow> (failure + unit) \<times> durable_log" where
  "rewrite_kept env disk nonces d kept =
     (case index_retained kept event_log_default of
        Inl f \<Rightarrow> (Inl f, d)
      | Inr (rebuilt, ordered) \<Rightarrow>
          (case record_log_rewrite env disk nonces (dl_file d) ordered of
             (Inl err, rl) \<Rightarrow> (Inl (Failed err), d\<lparr>dl_file := rl\<rparr>)
           | (Inr _, rl) \<Rightarrow> (Inr (), d\<lparr>dl_file := rl, dl_log := rebuilt\<rparr>)))"

text \<open>The events of the listed conversations, as the compactions collect them.\<close>

definition kept_events :: "event_log \<Rightarrow> conversation_id list \<Rightarrow> event list" where
  "kept_events l cs = concat (map (log_events l) cs)"

definition retain_conversations ::
  "event store_env \<Rightarrow> disk \<Rightarrow> (nat \<Rightarrow> bytes) \<Rightarrow> key_order \<Rightarrow> durable_log \<Rightarrow> conversation_id set
   \<Rightarrow> (failure + nat) \<times> durable_log" where
  "retain_conversations env disk nonces enum d keep =
     (let before = card (all_event_ids (dl_log d));
          kept = kept_events (dl_log d) (filter (\<lambda>c. c \<in> keep) (enum (conversations (dl_log d))))
      in if length kept > before then (Inl Panicked, d)
         else if before - length kept = 0 then (Inr 0, d)
         else
           (case rewrite_kept env disk nonces d kept of
              (Inl f, d') \<Rightarrow> (Inl f, d')
            | (Inr _, d') \<Rightarrow> (Inr (before - length kept), d'\<lparr>dl_cache := Map.empty\<rparr>)))"

definition drop_conversation ::
  "event store_env \<Rightarrow> disk \<Rightarrow> (nat \<Rightarrow> bytes) \<Rightarrow> key_order \<Rightarrow> durable_log \<Rightarrow> conversation_id
   \<Rightarrow> (failure + nat) \<times> durable_log" where
  "drop_conversation env disk nonces enum d c =
     (let dropped = length (log_events (dl_log d) c)
      in if dropped = 0 then (Inr 0, d)
         else
           (case rewrite_kept env disk nonces d
                   (kept_events (dl_log d) (filter (\<lambda>x. x \<noteq> c) (enum (conversations (dl_log d))))) of
              (Inl f, d') \<Rightarrow> (Inl f, d')
            | (Inr _, d') \<Rightarrow> (Inr dropped, d'\<lparr>dl_cache := (dl_cache d')(c := None)\<rparr>)))"

text \<open>Estimated bytes of a stored event; \<open>usize\<close> sums saturate.\<close>

definition stored_cost :: "event \<Rightarrow> usize" where
  "stored_cost e =
     saturating_add (saturating_add (of_nat (length (ciphertext e)))
       (saturating_mul (of_nat (length (parents e))) 32)) 256"

definition referenced_ids :: "event list \<Rightarrow> event_id set" where
  "referenced_ids es = (\<Union>e\<in>set es. set (parents e))"

definition push_newest :: "event_id set \<Rightarrow> (author \<rightharpoonup> event_id list) \<Rightarrow> event \<Rightarrow> (author \<rightharpoonup> event_id list)" where
  "push_newest referenced newest e =
     (if kind e = Profile \<and> ev_id e \<notin> referenced then
        let pair = entry_or [] newest (author e)
        in newest(author e \<mapsto> (if length pair = 2 then tl pair else pair) @ [ev_id e])
      else newest)"

definition superseded_profile_ids :: "event_log \<Rightarrow> conversation_id \<Rightarrow> event_id set" where
  "superseded_profile_ids l c =
     (let events = log_events l c;
          referenced = referenced_ids events;
          newest = foldl (push_newest referenced) Map.empty events
      in ev_id ` set (filter (\<lambda>e. kind e = Profile \<and> ev_id e \<notin> referenced
                        \<and> ev_id e \<notin> set (entry_or [] newest (author e))) events))"

definition tally :: "event_id set \<Rightarrow> usize \<times> usize \<Rightarrow> event \<Rightarrow> usize \<times> usize" where
  "tally dropped = (\<lambda>(total_bytes, reclaimed_bytes) e.
     (saturating_add total_bytes (stored_cost e),
      saturating_add reclaimed_bytes (if ev_id e \<in> dropped then stored_cost e else 0)))"

definition compact_profile_conversations ::
  "event store_env \<Rightarrow> disk \<Rightarrow> (nat \<Rightarrow> bytes) \<Rightarrow> key_order \<Rightarrow> durable_log \<Rightarrow> conversation_id list \<Rightarrow> nat option
   \<Rightarrow> (failure + nat) \<times> durable_log" where
  "compact_profile_conversations env disk nonces enum d cs maintenance_at =
     (let l = dl_log d;
          dropped = (\<Union>c\<in>set cs. superseded_profile_ids l c)
      in if card dropped < COMPACT_PROFILE_MIN then (Inr 0, d)
         else
           (case foldl (tally dropped) (0, 0) (kept_events l (enum (conversations l))) of
              (total_bytes, reclaimed_bytes) \<Rightarrow>
                if unat reclaimed_bytes < (unat total_bytes + (PROFILE_RECLAIM_RATIO - 1)) div PROFILE_RECLAIM_RATIO then (Inr 0, d)
                else
                  let d1 = (case maintenance_at of None \<Rightarrow> d | Some now \<Rightarrow> d\<lparr>dl_last_rewrite := Some now\<rparr>);
                      kept = filter (\<lambda>e. ev_id e \<notin> dropped) (kept_events l (enum (conversations l)))
                  in (case rewrite_kept env disk nonces d1 kept of
                        (Inl f, d2) \<Rightarrow> (Inl f, d2)
                      | (Inr _, d2) \<Rightarrow>
                          (Inr (card dropped), d2\<lparr>dl_cache := (\<lambda>c. if c \<in> set cs then None else dl_cache d2 c)\<rparr>))))"

definition compact_superseded_profiles ::
  "event store_env \<Rightarrow> disk \<Rightarrow> (nat \<Rightarrow> bytes) \<Rightarrow> key_order \<Rightarrow> durable_log \<Rightarrow> conversation_id
   \<Rightarrow> (failure + nat) \<times> durable_log" where
  "compact_superseded_profiles env disk nonces enum d c = compact_profile_conversations env disk nonces enum d [c] None"

definition request_profile_compaction :: "durable_log \<Rightarrow> conversation_id \<Rightarrow> durable_log" where
  "request_profile_compaction d c = d\<lparr>dl_pending := insert c (dl_pending d)\<rparr>"

text \<open>Less than \<open>cooldown\<close> has passed since \<open>since\<close>; a clock reading before it counts as zero time.\<close>

definition cooling :: "nat \<Rightarrow> nat option \<Rightarrow> nat \<Rightarrow> bool" where
  "cooling now since cooldown = (case since of None \<Rightarrow> False | Some t \<Rightarrow> now - t < cooldown)"

definition drain_one_profile_compaction_at ::
  "event store_env \<Rightarrow> disk \<Rightarrow> (nat \<Rightarrow> bytes) \<Rightarrow> key_order \<Rightarrow> durable_log \<Rightarrow> nat
   \<Rightarrow> (failure + nat option) \<times> durable_log" where
  "drain_one_profile_compaction_at env disk nonces enum d now =
     (if cooling now (dl_last_rewrite d) PROFILE_REWRITE_COOLDOWN then (Inr None, d)
      else if cooling now (dl_last_scan d) PROFILE_COMPACTION_COOLDOWN then (Inr None, d)
      else if dl_pending d = {} then (Inr None, d)
      else
        let cs = enum (dl_pending d)
        in (case compact_profile_conversations env disk nonces enum (d\<lparr>dl_last_scan := Some now\<rparr>) cs (Some now) of
              (Inl f, d1) \<Rightarrow> (Inl f, d1)
            | (Inr dropped, d1) \<Rightarrow>
                (Inr (Some dropped),
                 d1\<lparr>dl_pending := dl_pending d1 - {c \<in> set cs. superseded_profile_ids (dl_log d1) c = {}}\<rparr>)))"

section \<open>Reading\<close>

definition durable_get :: "durable_log \<Rightarrow> event_id \<Rightarrow> log_error + event option" where
  "durable_get d i = Inr (log_get (dl_log d) i)"

definition conversation_len :: "durable_log \<Rightarrow> conversation_id \<Rightarrow> nat" where
  "conversation_len d c = length (log_events (dl_log d) c)"

definition cached_fingerprint_and_len ::
  "crypto_env \<Rightarrow> durable_log \<Rightarrow> conversation_id \<Rightarrow> (array32 \<times> nat) \<times> durable_log" where
  "cached_fingerprint_and_len cr d c =
     (case dl_cache d c of
        Some cached \<Rightarrow> (cached, d)
      | None \<Rightarrow>
          let ids = map ev_id (log_events (dl_log d) c);
              v = (fingerprint cr ids, length ids)
          in (v, if length ids > 0 then d\<lparr>dl_cache := (dl_cache d)(c \<mapsto> v)\<rparr> else d))"

text \<open>
  The durable log as a store for reconciliation. Every ingestion draws its nonce from the
  generator \<open>rng\<close>, here a function of the file so far.
\<close>

definition durable_events_excluding ::
  "durable_log \<Rightarrow> conversation_id \<Rightarrow> event_id set \<Rightarrow> failure + event list" where
  "durable_events_excluding d c have =
     (case causal_events (log_events (dl_log d) c) of
        None \<Rightarrow> Inl Panicked
      | Some es \<Rightarrow> Inr (filter (\<lambda>e. ev_id e \<notin> have) es))"

definition durable_events_excluding_bounded ::
  "(event \<Rightarrow> usize option) \<Rightarrow> durable_log \<Rightarrow> conversation_id \<Rightarrow> event_id set \<Rightarrow> usize \<Rightarrow> nat \<Rightarrow> failure + event list" where
  "durable_events_excluding_bounded ser d c have budget max_frames =
     (case causal_events (log_events (dl_log d) c) of
        None \<Rightarrow> Inl Panicked
      | Some es \<Rightarrow> Inr (bounded_events ser (filter (\<lambda>e. ev_id e \<notin> have) es) budget max_frames))"

definition durable_ingest ::
  "crypto_env \<Rightarrow> event store_env \<Rightarrow> disk \<Rightarrow> (bytes \<Rightarrow> bytes) \<Rightarrow> durable_log \<Rightarrow> event
   \<Rightarrow> (failure + append_outcome) \<times> durable_log" where
  "durable_ingest cr env disk rng d e =
     (case durable_append cr env disk (rng (rl_file (dl_file d))) d e of
        (Inl err, d') \<Rightarrow> (Inl (Failed err), d')
      | (Inr outcome, d') \<Rightarrow> (Inr outcome, d'))"

definition durable_ops ::
  "crypto_env \<Rightarrow> event store_env \<Rightarrow> disk \<Rightarrow> (bytes \<Rightarrow> bytes) \<Rightarrow> (event \<Rightarrow> usize option) \<Rightarrow> durable_log sync_ops" where
  "durable_ops cr env disk rng ser =
     \<lparr>op_event_ids = (\<lambda>d c. Inr (map ev_id (log_events (dl_log d) c))),
      op_events_excluding = durable_events_excluding,
      op_events_excluding_bounded = durable_events_excluding_bounded ser,
      op_ingest = durable_ingest cr env disk rng\<rparr>"

section \<open>Rebuilding the indexes\<close>

text \<open>
  Indexing events of a graph \<open>N\<close>, parents first, gives the log of the indexed events: nothing else
  is needed of the order.
\<close>

lemma sub_dag_fresh:
  assumes N: "event_dag cr N" and l: "event_dag cr l" "l \<subseteq>\<^sub>m N" and "e \<in> ran N" and "l (ev_id e) = None"
    and "set (parents e) \<subseteq> dom l"
  shows "fresh_event l e \<and> event_valid cr e"
proof -
  have e: "N (ev_id e) = Some e" using event_dag_lookup [OF N] assms(4) by simp
  have sub: "N i = Some f" if "l i = Some f" for i f using that l(2) by (metis domI map_le_def)
  have parent: "\<exists>q. l p = Some q \<and> conversation_id q = conversation_id e" if "p \<in> set (parents e)" for p
    using that assms(6) event_dagD(4) [OF N e that] sub by fastforce
  have refs: "ev_id e \<notin> set (parents f)" if "f \<in> ran l" for f
    using that event_dagD(4) [OF l(1)] assms(5) by (fastforce simp: ran_def)
  have slots: "seq f \<noteq> seq e" if f: "f \<in> ran l" "conversation_id f = conversation_id e" "author f = author e" for f
  proof
    assume "seq f = seq e"
    moreover have "f \<in> ran N" using f(1) sub by (auto simp: ran_def)
    ultimately have "f = e" using event_dagD(6) [OF N _ assms(4)] f by blast
    then show False using f(1) event_dagD(2) [OF l(1)] assms(5) by (fastforce simp: ran_def)
  qed
  have "fresh_event l e" unfolding fresh_event_def using assms(5) parent refs slots by blast
  with event_dagD(3) [OF N e] show ?thesis by simp
qed

lemma index_fresh:
  assumes "log_wf cr l" and "event_valid cr e" and "fresh_event (l_events l) e"
  shows "log_wf cr (index_trusted l e)" and "l_events (index_trusted l e) = (l_events l)(ev_id e \<mapsto> e)"
    and "ran (l_events (index_trusted l e)) = insert e (ran (l_events l))"
proof -
  have eq: "l_events (index_trusted l e) = (l_events l)(ev_id e \<mapsto> e)"
    by (simp add: index_trusted_def Let_def)
  obtain l' where "log_append cr l e = Inr (Appended, l')" "log_wf cr l'" by (rule log_append_new [OF assms])
  then show "log_wf cr (index_trusted l e)" using log_append_Appended_eq by blast
  show "l_events (index_trusted l e) = (l_events l)(ev_id e \<mapsto> e)" by (rule eq)
  show "ran (l_events (index_trusted l e)) = insert e (ran (l_events l))"
    using assms(3) by (simp add: eq fresh_event_def)
qed

definition indexable :: "crypto_env \<Rightarrow> (event_id \<rightharpoonup> event) \<Rightarrow> event_log \<Rightarrow> event list \<Rightarrow> bool" where
  "indexable cr N l es \<longleftrightarrow>
     event_dag cr N \<and> log_wf cr l \<and> l_events l \<subseteq>\<^sub>m N \<and> set es \<subseteq> ran N \<and> distinct (map ev_id es)
     \<and> (\<forall>e\<in>set es. l_events l (ev_id e) = None) \<and> causal (dom (l_events l)) es"

lemma indexableD:
  assumes "indexable cr N l es"
  shows "event_dag cr N" and "log_wf cr l" and "l_events l \<subseteq>\<^sub>m N" and "set es \<subseteq> ran N" and "distinct (map ev_id es)"
    and "\<forall>e\<in>set es. l_events l (ev_id e) = None" and "causal (dom (l_events l)) es"
  using assms unfolding indexable_def by blast+

lemma indexable_Cons:
  assumes "indexable cr N l (e # es)"
  shows "event_valid cr e" and "fresh_event (l_events l) e" and "indexable cr N (index_trusted l e) es"
    and "\<forall>f\<in>set es. ev_id f \<noteq> ev_id e"
proof -
  note a = indexableD [OF assms]
  have mem: "e \<in> ran N" "l_events l (ev_id e) = None" "set (parents e) \<subseteq> dom (l_events l)" using a(4,6,7) by simp_all
  note f = sub_dag_fresh [OF a(1) log_wfD(1) [OF a(2)] a(3) mem]
  show v: "event_valid cr e" "fresh_event (l_events l) e" using f by simp_all
  note i = index_fresh [OF a(2) v]
  have e: "N (ev_id e) = Some e" using event_dag_lookup [OF a(1)] mem(1) by simp
  have sub: "(l_events l)(ev_id e \<mapsto> e) \<subseteq>\<^sub>m N" using a(3) e by (simp add: map_le_def)
  show other: "\<forall>f\<in>set es. ev_id f \<noteq> ev_id e" using a(5) by (metis distinct.simps(2) image_eqI list.simps(9) list.set_map)
  have "causal (dom ((l_events l)(ev_id e \<mapsto> e))) es" using a(7) by simp
  moreover have "\<forall>f\<in>set es. ((l_events l)(ev_id e \<mapsto> e)) (ev_id f) = None" using other a(6) by simp
  ultimately show "indexable cr N (index_trusted l e) es"
    unfolding indexable_def i(2) using a(1,4,5) i(1) sub by simp
qed

lemma index_causal:
  assumes "indexable cr N l es"
  shows "log_wf cr (foldl index_trusted l es) \<and> l_events (foldl index_trusted l es) \<subseteq>\<^sub>m N
    \<and> ran (l_events (foldl index_trusted l es)) = ran (l_events l) \<union> set es"
  using assms
proof (induction es arbitrary: l)
  case Nil
  then show ?case by (simp add: indexable_def)
next
  case (Cons e es)
  have "log_wf cr l" using Cons.prems by (simp add: indexable_def)
  note i = index_fresh [OF this indexable_Cons(1,2) [OF Cons.prems]]
  from Cons.IH [OF indexable_Cons(3) [OF Cons.prems]] show ?case by (simp add: i(3))
qed

lemma index_in_order_causal:
  assumes "indexable cr N l es" and "\<forall>e\<in>set es. by_id (ev_id e) = Some e"
  shows "index_in_order by_id (map ev_id es) l ord = Inr (foldl index_trusted l es, ord @ es)"
  using assms
proof (induction es arbitrary: l by_id ord)
  case (Cons e es)
  note c = indexable_Cons [OF Cons.prems(1)]
  have "missing_parents l e = []" using c(2) by (simp add: missing_parents_Nil fresh_event_def)
  moreover have "\<forall>f\<in>set es. (by_id(ev_id e := None)) (ev_id f) = Some f"
    using Cons.prems(2) c(4) by simp
  ultimately show ?case using Cons.IH [OF c(3)] Cons.prems(2) by simp
qed simp

lemma map_ran_sub:
  assumes "event_dag cr M" and "event_dag cr N" and "ran M \<subseteq> ran N"
  shows "M \<subseteq>\<^sub>m N"
proof (unfold map_le_def, rule ballI)
  fix i assume "i \<in> dom M"
  then obtain e where e: "M i = Some e" by blast
  then have "e \<in> ran N" "ev_id e = i" using event_dagD(2) [OF assms(1) e] assms(3) by (auto intro: ranI)
  then show "M i = N i" using event_dag_lookup [OF assms(2), of i e] e by simp
qed

text \<open>Events whose parents are held or among them are indexed whatever order they are given in.\<close>

lemma index_retained_ok:
  assumes N: "event_dag cr N" and l: "log_wf cr l" "l_events l \<subseteq>\<^sub>m N"
    and kept: "set kept \<subseteq> ran N" "distinct (map ev_id kept)" "\<forall>e\<in>set kept. l_events l (ev_id e) = None"
    and closed: "\<forall>e\<in>set kept. set (parents e) \<subseteq> dom (l_events l) \<union> ev_id ` set kept"
  shows "\<exists>es. index_retained kept l = Inr (foldl index_trusted l es, es) \<and> set es = set kept \<and> indexable cr N l es"
proof -
  have inj: "inj_on ev_id (set kept)" using kept(2) by (simp add: distinct_map)
  have "acyclic (event_edges (set kept))"
    using event_dagD(5) [OF N]
    by (rule acyclic_subset) (use kept(1) event_dag_lookup [OF N] in \<open>fastforce simp: event_edges_def parent_edges_def\<close>)
  from causal_order_spec [OF inj this, of "dom (l_events l)"] closed
  obtain es where es: "ordered_ids kept [] True = Some (map ev_id es)" "set es = set kept"
    "distinct (map ev_id es)" "causal (dom (l_events l)) es" by auto
  have ix: "indexable cr N l es" using N l kept(1,3) es by (simp add: indexable_def)
  have "length es = length kept"
    using es(2,3) kept(2) by (metis distinct_card distinct_map)
  moreover have "\<forall>e\<in>set es. foldl (\<lambda>m e. m(ev_id e \<mapsto> e)) Map.empty kept (ev_id e) = Some e"
    using foldl_upd_mem [OF inj, of _ "\<lambda>e. e"] es(2) by simp
  ultimately show ?thesis
    using index_in_order_causal [OF ix, of _ "[]"] es ix by (intro exI [of _ es]) (simp add: index_retained_def)
qed

section \<open>Opening\<close>

lemma replay_indexes:
  "replay_step (l, deferred) e = (if missing_parents l e = [] then (index_trusted l e, deferred) else (l, deferred @ [e]))"
  by (auto simp: replay_step_def list_all_iff log_get_def missing_parents_Nil split: option.splits)

lemma replay_step_spec:
  assumes N: "event_dag cr N" and l: "log_wf cr l" "l_events l \<subseteq>\<^sub>m N"
    and e: "e \<in> ran N" "l_events l (ev_id e) = None"
    and other: "\<forall>f\<in>set deferred. ev_id f \<noteq> ev_id e \<and> l_events l (ev_id f) = None"
    and step: "replay_step (l, deferred) e = (l', deferred')"
  shows "log_wf cr l' \<and> l_events l' \<subseteq>\<^sub>m N \<and> set deferred' \<subseteq> insert e (set deferred)
    \<and> ran (l_events l') \<union> set deferred' = insert e (ran (l_events l) \<union> set deferred)
    \<and> (\<forall>f\<in>set deferred'. l_events l' (ev_id f) = None) \<and> dom (l_events l') \<subseteq> insert (ev_id e) (dom (l_events l))
    \<and> (deferred' = deferred \<or> deferred' = deferred @ [e])"
proof (cases "missing_parents l e = []")
  case True
  then have "set (parents e) \<subseteq> dom (l_events l)" by (auto simp: missing_parents_Nil)
  from sub_dag_fresh [OF N log_wfD(1) [OF l(1)] l(2) e this]
  have i: "log_wf cr (index_trusted l e)" "l_events (index_trusted l e) = (l_events l)(ev_id e \<mapsto> e)"
    "ran (l_events (index_trusted l e)) = insert e (ran (l_events l))"
    using index_fresh [OF l(1)] by simp_all
  have "N (ev_id e) = Some e" using event_dag_lookup [OF N] e(1) by simp
  then have "(l_events l)(ev_id e \<mapsto> e) \<subseteq>\<^sub>m N" using l(2) by (simp add: map_le_def)
  moreover have "l' = index_trusted l e" "deferred' = deferred" using step True by (simp_all add: replay_indexes)
  ultimately show ?thesis using i other by auto
next
  case False
  then have "l' = l" "deferred' = deferred @ [e]" using step by (simp_all add: replay_indexes)
  then show ?thesis using l e other by auto
qed

lemma replay_spec:
  assumes "event_dag cr N" and "log_wf cr l" and "l_events l \<subseteq>\<^sub>m N"
    and "set deferred \<union> set es \<subseteq> ran N" and "distinct (map ev_id (deferred @ es))"
    and "\<forall>f\<in>set deferred \<union> set es. l_events l (ev_id f) = None"
    and "foldl replay_step (l, deferred) es = (l', deferred')"
  shows "log_wf cr l' \<and> l_events l' \<subseteq>\<^sub>m N \<and> set deferred' \<subseteq> ran N \<and> distinct (map ev_id deferred')
    \<and> ran (l_events l') \<union> set deferred' = ran (l_events l) \<union> set deferred \<union> set es
    \<and> (\<forall>f\<in>set deferred'. l_events l' (ev_id f) = None)"
  using assms(2-)
proof (induction es arbitrary: l deferred)
  case Nil
  then show ?case by auto
next
  case (Cons e es)
  obtain l1 d1 where s: "replay_step (l, deferred) e = (l1, d1)" by fastforce
  have "ev_id e \<notin> ev_id ` (set deferred \<union> set es)" using Cons.prems(4) by auto
  then have diff: "\<forall>f\<in>set deferred \<union> set es. ev_id f \<noteq> ev_id e" by (metis imageI)
  then have "\<forall>f\<in>set deferred. ev_id f \<noteq> ev_id e \<and> l_events l (ev_id f) = None" using Cons.prems(5) by simp
  from replay_step_spec [OF assms(1) Cons.prems(1,2) _ _ this s] Cons.prems(3,5)
  have l1: "log_wf cr l1" "l_events l1 \<subseteq>\<^sub>m N" "set d1 \<subseteq> insert e (set deferred)"
    "ran (l_events l1) \<union> set d1 = insert e (ran (l_events l) \<union> set deferred)"
    "\<forall>f\<in>set d1. l_events l1 (ev_id f) = None" "dom (l_events l1) \<subseteq> insert (ev_id e) (dom (l_events l))"
    "d1 = deferred \<or> d1 = deferred @ [e]"
    by auto
  have "distinct (map ev_id (d1 @ es))" using l1(7) Cons.prems(4) by (elim disjE) simp_all
  moreover have "l_events l1 (ev_id f) = None" if "f \<in> set es" for f
  proof -
    have "ev_id f \<notin> insert (ev_id e) (dom (l_events l))" using that diff Cons.prems(5) by auto
    with l1(6) show ?thesis by blast
  qed
  moreover have "set d1 \<union> set es \<subseteq> ran N" using l1(3) Cons.prems(3) by auto
  moreover have "foldl replay_step (l1, d1) es = (l', deferred')" using Cons.prems(6) s by simp
  ultimately have IH: "log_wf cr l' \<and> l_events l' \<subseteq>\<^sub>m N \<and> set deferred' \<subseteq> ran N \<and> distinct (map ev_id deferred')
      \<and> ran (l_events l') \<union> set deferred' = ran (l_events l1) \<union> set d1 \<union> set es
      \<and> (\<forall>f\<in>set deferred'. l_events l' (ev_id f) = None)"
    using l1(1,2,5) by (intro Cons.IH) auto
  have un: "ran (l_events l1) \<union> set d1 \<union> set es = ran (l_events l) \<union> set deferred \<union> set (e # es)"
    unfolding l1(4) by auto
  show ?case using IH unfolding un .
qed

text \<open>A file opens to the log of the events it holds, in whatever order it holds them.\<close>

lemma durable_open_replays:
  assumes N: "event_dag cr N" and rs: "set rs = ran N" "distinct (map ev_id rs)"
    and opened: "record_log_open env disk fresh password LOG_MAGIC bs = Inr (rs, rl)"
  shows "\<exists>l. log_wf cr l \<and> l_events l = N \<and> durable_open env disk fresh password bs
    = Inr \<lparr>dl_log = l, dl_file = rl, dl_pending = {}, dl_last_scan = None, dl_last_rewrite = None, dl_cache = Map.empty\<rparr>"
proof -
  have none: "ran (l_events event_log_default) = {}" "l_events event_log_default = Map.empty"
    by (simp_all add: event_log_default_def)
  obtain l d where r: "foldl replay_step (event_log_default, []) rs = (l, d)" by fastforce
  have s: "log_wf cr l \<and> l_events l \<subseteq>\<^sub>m N \<and> set d \<subseteq> ran N \<and> distinct (map ev_id d)
      \<and> ran (l_events l) \<union> set d = ran (l_events event_log_default) \<union> set [] \<union> set rs
      \<and> (\<forall>f\<in>set d. l_events l (ev_id f) = None)"
    using rs by (intro replay_spec [OF N log_wf_empty _ _ _ _ r]) (auto simp: none)
  then have all: "ran (l_events l) \<union> set d = ran N" by (simp add: none rs(1))
  have "\<exists>l'. log_wf cr l' \<and> ran (l_events l') = ran N
    \<and> (if d = [] then Inr l else bind_result (index_retained d l) (\<lambda>(l', _). Inr l')) = Inr l'"
  proof (cases "d = []")
    case True
    with s all show ?thesis by auto
  next
    case False
    have "set (parents e) \<subseteq> dom (l_events l) \<union> ev_id ` set d" if "e \<in> set d" for e
    proof
      fix p assume p: "p \<in> set (parents e)"
      have "e \<in> ran N" using s that by blast
      then have "N (ev_id e) = Some e" using event_dag_lookup [OF N] by simp
      then obtain q where q: "N p = Some q" using event_dagD(4) [OF N _ p] by blast
      then have "q \<in> ran (l_events l) \<union> set d" "ev_id q = p" using all event_dagD(2) [OF N q] by (auto intro: ranI)
      then show "p \<in> dom (l_events l) \<union> ev_id ` set d"
        using event_dag_lookup [OF log_wfD(1), of cr l p q] s by auto
    qed
    then obtain es where es: "index_retained d l = Inr (foldl index_trusted l es, es)" "set es = set d" "indexable cr N l es"
      using index_retained_ok [OF N, of l d] s by auto
    from index_causal [OF es(3)] es(1,2) all False show ?thesis by auto
  qed
  then obtain l' where l': "log_wf cr l'" "ran (l_events l') = ran N"
    "(if d = [] then Inr l else bind_result (index_retained d l) (\<lambda>(l', _). Inr l')) = (Inr l' :: failure + event_log)" by blast
  have "l_events l' = N" by (rule event_dag_eqI [OF log_wfD(1) [OF l'(1)] N l'(2)])
  with l'(1) show ?thesis
    unfolding durable_open_def opened by (intro exI [of _ l']) (simp only: sum.case prod.case r l'(3), simp)
qed

section \<open>What a durable log keeps\<close>

text \<open>
  The file holds exactly the events of the log, each once; after an append that could be neither
  finished nor undone it may also hold that one event, which was validated against the log.
\<close>

definition file_backs :: "crypto_env \<Rightarrow> event store_env \<Rightarrow> string \<Rightarrow> record_log \<Rightarrow> (event_id \<rightharpoonup> event) \<Rightarrow> bool" where
  "file_backs cr env password rl M \<longleftrightarrow>
     rl_magic rl = LOG_MAGIC
     \<and> (\<exists>rs p. rl_holds env password rl rs p \<and> distinct (map ev_id rs) \<and> set rs = ran M
          \<and> (\<forall>e. p = Some e \<longrightarrow> event_valid cr e \<and> fresh_event M e))"

definition cache_ok :: "crypto_env \<Rightarrow> durable_log \<Rightarrow> bool" where
  "cache_ok cr d \<longleftrightarrow>
     (\<forall>c v. dl_cache d c = Some v \<longrightarrow>
        v = (fingerprint cr (map ev_id (log_events (dl_log d) c)), length (log_events (dl_log d) c)))"

definition durable_ok :: "crypto_env \<Rightarrow> event store_env \<Rightarrow> string \<Rightarrow> durable_log \<Rightarrow> bool" where
  "durable_ok cr env password d \<longleftrightarrow>
     log_wf cr (dl_log d) \<and> file_backs cr env password (dl_file d) (l_events (dl_log d)) \<and> cache_ok cr d"

lemma log_events_cong:
  assumes "log_wf cr l" and "log_wf cr l'" and "conv_set (l_events l) c = conv_set (l_events l') c"
  shows "log_events l c = log_events l' c"
proof (rule map_inj_on)
  show "map order_key_of (log_events l c) = map order_key_of (log_events l' c)"
    by (simp add: log_events_keys(1) [OF assms(1)] log_events_keys(1) [OF assms(2)] assms(3))
  have "inj_on order_key_of (conv_set (l_events l) c)"
    using conv_setD(1) [OF log_wfD(1) [OF assms(1)]] by (intro inj_onI) (metis option.inject prod.inject)
  then show "inj_on order_key_of (set (log_events l c) \<union> set (log_events l' c))"
    by (simp add: log_events_keys(2) [OF assms(1)] log_events_keys(2) [OF assms(2)] assms(3))
qed

lemma cache_okI:
  assumes "cache_ok cr d" and "log_wf cr (dl_log d)" and "log_wf cr (dl_log d')"
    and "\<And>c v. dl_cache d' c = Some v \<Longrightarrow> dl_cache d c = Some v
      \<and> conv_set (l_events (dl_log d')) c = conv_set (l_events (dl_log d)) c"
  shows "cache_ok cr d'"
  unfolding cache_ok_def
proof (intro allI impI)
  fix c v assume v: "dl_cache d' c = Some v"
  have "log_events (dl_log d') c = log_events (dl_log d) c"
    using log_events_cong [OF assms(3,2)] assms(4) [OF v] by blast
  with assms(1) assms(4) [OF v] show "v = (fingerprint cr (map ev_id (log_events (dl_log d') c)), length (log_events (dl_log d') c))"
    unfolding cache_ok_def by metis
qed

lemma load_magic:
  assumes "record_log_load env disk password magic visit s bs = Inr (s', rl)"
  shows "rl_magic rl = magic"
proof -
  let ?p = "parse_records env (key_from_password env password (take SALT_SIZE (drop 6 bs))) visit (drop (6 + SALT_SIZE) bs) s 0"
  show ?thesis using assms by (cases ?p) (auto simp: record_log_load_def Let_def split: if_splits)
qed

lemma open_magic:
  assumes "record_log_open env disk fresh password magic bs = Inr (rs, rl)"
  shows "rl_magic rl = magic"
  using assms load_magic by (fastforce simp: record_log_open_def open_with_visitor_def split: option.splits if_splits)

lemma append_magic: "append_with env disk durable nonce rl r = (res, rl') \<Longrightarrow> rl_magic rl' = rl_magic rl"
  by (auto simp: append_with_def Let_def split: if_splits sum.splits)

lemma rewrite_magic: "record_log_rewrite env disk nonces rl rs = (res, rl') \<Longrightarrow> rl_magic rl' = rl_magic rl"
  by (auto simp: record_log_rewrite_def split: if_splits sum.splits)

lemma batch_magic: "append_batch_atomic env disk nonces rl rs = (res, rl') \<Longrightarrow> rl_magic rl' = rl_magic rl"
  by (auto simp: append_batch_atomic_def split: if_splits sum.splits)

lemma fresh_id: "fresh_event M e \<Longrightarrow> M (ev_id e) = None"
  by (simp add: fresh_event_def)

lemma fresh_not_listed:
  assumes "event_dag cr M" and "set rs = ran M" and "M (ev_id e) = None"
  shows "ev_id e \<notin> ev_id ` set rs"
  using event_dag_lookup [OF assms(1)] assms(2,3) by (metis image_iff option.distinct(1))

lemma file_backs_append:
  assumes "store_coded env" and "length nonce = 12" and M: "event_dag cr M"
    and b: "file_backs cr env password rl M" and e: "event_valid cr e" "fresh_event M e"
    and a: "append_with env disk durable nonce rl e = (res, rl')"
  shows "case res of Inr _ \<Rightarrow> file_backs cr env password rl' (M(ev_id e \<mapsto> e)) | Inl _ \<Rightarrow> file_backs cr env password rl' M"
proof -
  obtain rs p where h: "rl_holds env password rl rs p" "distinct (map ev_id rs)" "set rs = ran M"
    "\<forall>e. p = Some e \<longrightarrow> event_valid cr e \<and> fresh_event M e" "rl_magic rl = LOG_MAGIC"
    using b by (auto simp: file_backs_def)
  have new: "M (ev_id e) = None" using e(2) by (simp add: fresh_event_def)
  note magic = append_magic [OF a]
  show ?thesis
  proof (cases res)
    case (Inl err)
    from append_failed_holds [OF assms(1,2) h(1) a [unfolded Inl]] h e magic Inl show ?thesis
      unfolding file_backs_def by (auto split: if_splits)
  next
    case (Inr u)
    have "rl_holds env password rl' (rs @ [e]) None" using append_holds [OF assms(1,2) h(1) a] Inr by auto
    moreover have "distinct (map ev_id (rs @ [e]))" using fresh_not_listed [OF M h(3) new] h(2) by simp
    moreover have "set (rs @ [e]) = ran (M(ev_id e \<mapsto> e))" using h(3) new by simp
    ultimately have "file_backs cr env password rl' (M(ev_id e \<mapsto> e))"
      unfolding file_backs_def using magic h(5)
      by (intro conjI exI [of _ "rs @ [e]"] exI [of _ None]) simp_all
    with Inr show ?thesis by simp
  qed
qed

lemma file_backs_rewrite:
  assumes "store_coded env" and "\<And>i. length (nonces i) = 12"
    and b: "file_backs cr env password rl M" and rs: "distinct (map ev_id rs')" "set rs' = ran M'"
    and a: "record_log_rewrite env disk nonces rl rs' = (res, rl')"
  shows "case res of Inr _ \<Rightarrow> file_backs cr env password rl' M' | Inl _ \<Rightarrow> rl' = rl"
proof -
  obtain rs p where h: "rl_holds env password rl rs p" "rl_magic rl = LOG_MAGIC"
    using b by (auto simp: file_backs_def)
  from rewrite_holds [OF assms(1,2) h(1) a] show ?thesis
    using rs rewrite_magic [OF a] h(2) unfolding file_backs_def by (cases res) auto
qed

section \<open>Every operation keeps it\<close>

lemma durable_okD:
  assumes "durable_ok cr env password d"
  shows "log_wf cr (dl_log d)" and "event_dag cr (l_events (dl_log d))"
    and "file_backs cr env password (dl_file d) (l_events (dl_log d))" and "cache_ok cr d"
  using assms log_wfD(1) by (auto simp: durable_ok_def)

lemma durable_create_ok:
  assumes "length fresh = 16" and "durable_open env disk fresh password None = Inr d"
  shows "durable_ok cr env password d \<and> dl_log d = event_log_default \<and> dl_pending d = {}"
proof -
  obtain rs rl where o: "record_log_open env disk fresh password LOG_MAGIC None = Inr (rs, rl)"
    using assms(2) by (auto simp: durable_open_def split: sum.splits)
  have c: "rs = []" "rl_holds env password rl [] None"
    using created_holds [OF _ assms(1) o [unfolded record_log_open_def]] by (simp_all add: LOG_MAGIC_def)
  note magic = open_magic [OF o]
  have d: "d = \<lparr>dl_log = event_log_default, dl_file = rl, dl_pending = {}, dl_last_scan = None, dl_last_rewrite = None,
      dl_cache = Map.empty\<rparr>"
    using assms(2) by (simp add: durable_open_def o c(1))
  have "ran (l_events event_log_default) = {}" by (simp add: event_log_default_def)
  with c(2) magic log_wf_empty [of cr] show ?thesis
    unfolding d durable_ok_def file_backs_def cache_ok_def by auto
qed

lemma reopen_ok:
  assumes ok: "durable_ok cr env password d"
  shows "\<exists>d'. durable_open env good_disk fresh password (Some (rl_file (dl_file d))) = Inr d' \<and> durable_ok cr env password d'
    \<and> (dl_log d' = dl_log d \<or> (\<exists>e. rl_poisoned (dl_file d) \<and> event_valid cr e \<and> fresh_event (l_events (dl_log d)) e
         \<and> dl_log d' = index_trusted (dl_log d) e))"
proof -
  let ?M = "l_events (dl_log d)" and ?rl = "dl_file d"
  note k = durable_okD [OF ok]
  obtain rs p where h: "rl_holds env password ?rl rs p" "distinct (map ev_id rs)" "set rs = ran ?M"
    "\<forall>e. p = Some e \<longrightarrow> event_valid cr e \<and> fresh_event ?M e" "rl_magic ?rl = LOG_MAGIC"
    using k(3) by (auto simp: file_backs_def)
  obtain rs' rl' where o: "record_log_open env good_disk fresh password LOG_MAGIC (Some (rl_file ?rl)) = Inr (rs', rl')"
    "rs' = rs \<or> (\<exists>e. p = Some e \<and> rs' = rs @ [e])" "rl_holds env password rl' rs' None"
    using open_holds [OF h(1), of fresh] unfolding h(5) by blast
  note magic = open_magic [OF o(1)]
  have opened: "\<exists>d'. durable_open env good_disk fresh password (Some (rl_file ?rl)) = Inr d' \<and> durable_ok cr env password d' \<and> dl_log d' = l"
    if l: "log_wf cr l" "set rs' = ran (l_events l)" "distinct (map ev_id rs')" for l
  proof -
    obtain l' where l': "log_wf cr l'" "l_events l' = l_events l" "durable_open env good_disk fresh password (Some (rl_file ?rl))
      = Inr \<lparr>dl_log = l', dl_file = rl', dl_pending = {}, dl_last_scan = None, dl_last_rewrite = None, dl_cache = Map.empty\<rparr>"
      using durable_open_replays [OF log_wfD(1) [OF l(1)] l(2,3) o(1)] by blast
    have "l' = l" by (rule log_wf_eqI [OF l'(1) l(1)]) (simp add: l'(2))
    with l' l o(3) magic show ?thesis
      unfolding durable_ok_def file_backs_def cache_ok_def by auto
  qed
  from o(2) show ?thesis
  proof
    assume "rs' = rs"
    with opened [OF k(1)] h(2,3) show ?thesis by auto
  next
    assume "\<exists>e. p = Some e \<and> rs' = rs @ [e]"
    then obtain e where e: "p = Some e" "rs' = rs @ [e]" by blast
    then have v: "event_valid cr e" "fresh_event ?M e" using h(4) by auto
    have "ev_id e \<notin> ev_id ` set rs" by (rule fresh_not_listed [OF k(2) h(3) fresh_id [OF v(2)]])
    moreover have "rl_poisoned ?rl" using holds_poisoned [OF h(1)] e(1) by simp
    ultimately show ?thesis
      using opened [OF index_fresh(1) [OF k(1) v]] index_fresh(3) [OF k(1) v] v e(2) h(2,3) by auto
  qed
qed

lemma index_appended_ok:
  assumes ok: "durable_ok cr env password d" and e: "event_valid cr e" "fresh_event (l_events (dl_log d)) e"
    and "file_backs cr env password rl ((l_events (dl_log d))(ev_id e \<mapsto> e))"
  shows "durable_ok cr env password (index_appended d rl e)"
proof -
  note k = durable_okD [OF ok] and i = index_fresh [OF durable_okD(1) [OF ok] e]
  have other: "conv_set (l_events (index_trusted (dl_log d) e)) c = conv_set (l_events (dl_log d)) c" if "c \<noteq> conversation_id e" for c
    using that unfolding conv_set_def i(3) by auto
  have "cache_ok cr (index_appended d rl e)"
  proof (rule cache_okI [OF k(4,1)])
    show "log_wf cr (dl_log (index_appended d rl e))" using i(1) by (simp add: index_appended_def)
    fix c v assume "dl_cache (index_appended d rl e) c = Some v"
    then have c: "c \<noteq> conversation_id e" "dl_cache d c = Some v" by (simp_all add: index_appended_def split: if_splits)
    then show "dl_cache d c = Some v \<and> conv_set (l_events (dl_log (index_appended d rl e))) c = conv_set (l_events (dl_log d)) c"
      using other [OF c(1)] by (simp add: index_appended_def)
  qed
  with i(1,2) assms(4) show ?thesis by (simp add: durable_ok_def index_appended_def)
qed

lemma file_changed_ok:
  "durable_ok cr env password d \<Longrightarrow> file_backs cr env password rl (l_events (dl_log d)) \<Longrightarrow> durable_ok cr env password (d\<lparr>dl_file := rl\<rparr>)"
  by (simp add: durable_ok_def cache_ok_def)

text \<open>What an append may do: nothing, an unfinished write, or one new valid event.\<close>

definition appends_one :: "crypto_env \<Rightarrow> event store_env \<Rightarrow> string \<Rightarrow> durable_log \<Rightarrow> event
    \<Rightarrow> log_error + append_outcome \<Rightarrow> durable_log \<Rightarrow> bool" where
  "appends_one cr env password d e r d' \<longleftrightarrow>
     durable_ok cr env password d'
     \<and> (if r = Inr Appended
        then event_valid cr e \<and> fresh_event (l_events (dl_log d)) e \<and> dl_log d' = index_trusted (dl_log d) e
        else dl_log d' = dl_log d)"

lemma file_append_ok:
  assumes "store_coded env" and "length nonce = 12" and ok: "durable_ok cr env password d"
    and v: "validate cr (dl_log d) e = Inr True"
    and a: "append_with env disk durable nonce (dl_file d) e = (res, rl)"
  shows "case res of Inl err \<Rightarrow> appends_one cr env password d e (Inl err) (d\<lparr>dl_file := rl\<rparr>)
    | Inr _ \<Rightarrow> appends_one cr env password d e (Inr Appended) (index_appended d rl e)"
proof -
  note k = durable_okD [OF ok]
  have e: "event_valid cr e" "fresh_event (l_events (dl_log d)) e" using v validate_True_iff [OF k(1)] by simp_all
  from file_backs_append [OF assms(1,2) k(2,3) e a] show ?thesis
    using e index_appended_ok [OF ok e] file_changed_ok [OF ok]
    by (cases res) (auto simp: appends_one_def index_appended_def)
qed

lemma append_with_precommit_ok:
  assumes "store_coded env" and "length nonce = 12" and ok: "durable_ok cr env password d"
    and a: "append_with_precommit cr env disk nonce precommit h d e = (r, h', d')"
  shows "appends_one cr env password d e r d'"
proof -
  have same: "appends_one cr env password d e r d" if "r \<noteq> Inr Appended" using ok that by (simp add: appends_one_def)
  show ?thesis
  proof (cases "validate cr (dl_log d) e = Inr True")
    case False
    with a same show ?thesis
      by (auto simp: append_with_precommit_def split: sum.splits bool.splits)
  next
    case True
    obtain q h1 where q: "precommit h = (q, h1)" by fastforce
    obtain res rl where f: "append_with env disk False nonce (dl_file d) e = (res, rl)" by fastforce
    from file_append_ok [OF assms(1,2) ok True f] a same show ?thesis
      by (cases q; cases res) (auto simp: append_with_precommit_def record_log_append_def True q f)
  qed
qed

lemma durable_append_ok:
  assumes "store_coded env" and "length nonce = 12" and "durable_ok cr env password d"
    and "durable_append cr env disk nonce d e = (r, d')"
  shows "appends_one cr env password d e r d'"
  using append_with_precommit_ok [OF assms(1-3)] assms(4) by (auto simp: durable_append_def split: prod.splits)

lemma append_durable_ok:
  assumes "store_coded env" and "length nonce = 12" and ok: "durable_ok cr env password d"
    and a: "append_durable cr env disk nonce d e = (r, d')"
  shows "appends_one cr env password d e r d'"
proof (cases "validate cr (dl_log d) e = Inr True")
  case False
  have "r \<noteq> Inr Appended \<and> d' = d"
    using a False by (cases "record_log_sync disk (dl_file d)") (auto simp: append_durable_def split: sum.splits bool.splits)
  with ok show ?thesis by (simp add: appends_one_def)
next
  case True
  obtain res rl where f: "append_with env disk True nonce (dl_file d) e = (res, rl)" by fastforce
  from file_append_ok [OF assms(1,2) ok True f] a show ?thesis
    by (cases res) (auto simp: append_durable_def record_log_append_durable_def True f)
qed

section \<open>Compaction\<close>

text \<open>A map lists each of its keys once, in an order of its own.\<close>

definition lists_keys :: "key_order \<Rightarrow> bool" where
  "lists_keys enum \<longleftrightarrow> (\<forall>S. finite S \<longrightarrow> set (enum S) = S \<and> distinct (enum S))"

lemma lists_keysD: "lists_keys enum \<Longrightarrow> finite S \<Longrightarrow> set (enum S) = S \<and> distinct (enum S)"
  by (simp add: lists_keys_def)

lemma conversations_wf:
  assumes "log_wf cr l"
  shows "conversations l = conversation_id ` ran (l_events l)" and "finite (conversations l)"
proof -
  have "c \<in> conversations l \<longleftrightarrow> conv_set (l_events l) c \<noteq> {}" for c
    using log_wfD(3) [OF assms, of c] by (auto simp: conversations_def keys_of_def dom_def)
  then show eq: "conversations l = conversation_id ` ran (l_events l)" by (auto simp: conv_set_def)
  show "finite (conversations l)"
    unfolding eq using finite_ran event_dagD(1) [OF log_wfD(1) [OF assms]] by blast
qed

lemma set_kept_events:
  assumes wf: "log_wf cr l"
  shows "set (kept_events l cs) = {e \<in> ran (l_events l). conversation_id e \<in> set cs}"
proof -
  have "set (kept_events l cs) = (\<Union>c\<in>set cs. conv_set (l_events l) c)"
    by (simp add: kept_events_def log_events_keys(2) [OF wf])
  then show ?thesis by (auto simp: conv_set_def)
qed

lemma distinct_kept_events:
  assumes wf: "log_wf cr l" and "distinct cs"
  shows "distinct (map ev_id (kept_events l cs))"
  using assms(2)
proof (induction cs)
  case Nil
  then show ?case by (simp add: kept_events_def)
next
  case (Cons c cs)
  have "ev_id e \<noteq> ev_id f" if e: "e \<in> conv_set (l_events l) c" and f: "f \<in> set (kept_events l cs)" for e f
  proof
    assume eq: "ev_id e = ev_id f"
    have "f \<in> ran (l_events l)" "conversation_id f \<in> set cs" using f unfolding set_kept_events [OF wf] by simp_all
    then have "l_events l (ev_id f) = Some f" using event_dag_lookup [OF log_wfD(1) [OF wf]] by simp
    with conv_setD [OF log_wfD(1) [OF wf] e] eq have "e = f" by simp
    with conv_setD(2) [OF log_wfD(1) [OF wf] e] \<open>conversation_id f \<in> set cs\<close> Cons.prems show False by simp
  qed
  then have "ev_id ` set (log_events l c) \<inter> ev_id ` set (kept_events l cs) = {}"
    unfolding log_events_keys(2) [OF wf] by blast
  moreover have "kept_events l (c # cs) = log_events l c @ kept_events l cs" by (simp add: kept_events_def)
  moreover have "distinct (map ev_id (kept_events l cs))" using Cons by simp
  ultimately show ?case using distinct_log_events [OF wf, of c] by simp
qed

text \<open>A set of events closed under parents replaces the log, in memory and in the file.\<close>

lemma rewrite_kept_ok:
  assumes env: "store_coded env" "\<And>i. length (nonces i) = 12" and ok: "durable_ok cr env password d"
    and kept: "distinct (map ev_id kept)" "set kept \<subseteq> ran (l_events (dl_log d))"
      "\<And>e. e \<in> set kept \<Longrightarrow> set (parents e) \<subseteq> ev_id ` set kept"
    and a: "rewrite_kept env disk nonces d kept = (r, d')"
  shows "case r of Inl f \<Rightarrow> d' = d \<and> f \<noteq> Panicked
    | Inr _ \<Rightarrow> log_wf cr (dl_log d') \<and> ran (l_events (dl_log d')) = set kept
        \<and> file_backs cr env password (dl_file d') (l_events (dl_log d')) \<and> (\<exists>rl l. d' = d\<lparr>dl_file := rl, dl_log := l\<rparr>)"
proof -
  note k = durable_okD [OF ok]
  have none: "l_events event_log_default = Map.empty" by (simp add: event_log_default_def)
  obtain es where es: "index_retained kept event_log_default = Inr (foldl index_trusted event_log_default es, es)"
    "set es = set kept" "indexable cr (l_events (dl_log d)) event_log_default es"
    using index_retained_ok [OF k(2) log_wf_empty _ kept(2,1)] kept(3) by (auto simp: none)
  let ?l = "foldl index_trusted event_log_default es"
  have l: "log_wf cr ?l" "ran (l_events ?l) = set kept"
    using index_causal [OF es(3)] es(2) by (simp_all add: none)
  have dist: "distinct (map ev_id es)" using es(3) by (rule indexableD)
  obtain res rl where f: "record_log_rewrite env disk nonces (dl_file d) es = (res, rl)" by fastforce
  have "set es = ran (l_events ?l)" using es(2) l(2) by simp
  note b = file_backs_rewrite [OF env k(3) dist this f]
  show ?thesis
  proof (cases res)
    case (Inl err)
    then have "rl = dl_file d" using b by simp
    then have "d' = d" "r = Inl (Failed err)" using a by (simp_all add: rewrite_kept_def es(1) f Inl)
    then show ?thesis by simp
  next
    case (Inr u)
    then have "d' = d\<lparr>dl_file := rl, dl_log := ?l\<rparr>" "r = Inr ()" using a by (simp_all add: rewrite_kept_def es(1) f)
    then show ?thesis using b l Inr by auto
  qed
qed

lemma rewrite_to:
  assumes env: "store_coded env" "\<And>i. length (nonces i) = 12" and ok: "durable_ok cr env password d"
    and kept: "distinct (map ev_id kept)" "set kept = S" "S \<subseteq> ran (l_events (dl_log d))"
      "\<And>e. e \<in> S \<Longrightarrow> set (parents e) \<subseteq> ev_id ` S"
    and a: "rewrite_kept env disk nonces d kept = (r, d')"
    and cache: "\<And>c v. cache c = Some v \<Longrightarrow> dl_cache d c = Some v \<and> (\<forall>e\<in>ran (l_events (dl_log d)). conversation_id e = c \<longrightarrow> e \<in> S)"
  shows "case r of Inl f \<Rightarrow> d' = d \<and> f \<noteq> Panicked
    | Inr _ \<Rightarrow> durable_ok cr env password (d'\<lparr>dl_cache := cache\<rparr>) \<and> ran (l_events (dl_log d')) = S"
proof -
  note w = rewrite_kept_ok [OF env ok kept(1) _ _ a, unfolded kept(2), OF kept(3,4)]
  show ?thesis
  proof (cases r)
    case (Inl f)
    with w show ?thesis by simp
  next
    case (Inr u)
    with w have w': "log_wf cr (dl_log d')" "ran (l_events (dl_log d')) = S"
      "file_backs cr env password (dl_file d') (l_events (dl_log d'))" by simp_all
    have "cache_ok cr (d'\<lparr>dl_cache := cache\<rparr>)"
    proof (rule cache_okI [OF durable_okD(4,1) [OF ok]])
      show "log_wf cr (dl_log (d'\<lparr>dl_cache := cache\<rparr>))" using w'(1) by simp
      fix c v assume "dl_cache (d'\<lparr>dl_cache := cache\<rparr>) c = Some v"
      then have c: "dl_cache d c = Some v" "\<forall>e\<in>ran (l_events (dl_log d)). conversation_id e = c \<longrightarrow> e \<in> S"
        using cache [of c v] by simp_all
      have "conv_set (l_events (dl_log d')) c = conv_set (l_events (dl_log d)) c"
        unfolding conv_set_def w'(2) using c(2) kept(3) by blast
      with c(1) show "dl_cache d c = Some v
          \<and> conv_set (l_events (dl_log (d'\<lparr>dl_cache := cache\<rparr>))) c = conv_set (l_events (dl_log d)) c" by simp
    qed
    with w' Inr show ?thesis by (simp add: durable_ok_def)
  qed
qed

text \<open>Keeping or dropping whole conversations.\<close>

lemma whole_conversations_closed:
  assumes "event_dag cr M" and "S = {e \<in> ran M. conversation_id e \<in> C}" and "e \<in> S"
  shows "set (parents e) \<subseteq> ev_id ` S"
proof
  fix p assume "p \<in> set (parents e)"
  moreover have "M (ev_id e) = Some e" using assms event_dag_lookup [OF assms(1)] by simp
  ultimately obtain q where q: "M p = Some q" "conversation_id q = conversation_id e"
    using event_dagD(4) [OF assms(1)] by blast
  then have "q \<in> S" "ev_id q = p" using assms(2,3) event_dagD(2) [OF assms(1)] by (auto intro: ranI)
  then show "p \<in> ev_id ` S" by blast
qed

lemma distinct_ids_card: "distinct (map ev_id es) \<Longrightarrow> length es = card (set es)"
  by (simp add: distinct_map distinct_card)

lemma ran_card:
  assumes "event_dag cr M"
  shows "card (dom M) = card (ran M)" and "finite (ran M)"
proof -
  have key: "M (ev_id e) = Some e" if "e \<in> ran M" for e using that event_dag_lookup [OF assms] by simp
  have "inj_on ev_id (ran M)" by (rule inj_onI) (metis key option.inject)
  moreover have "ev_id ` ran M = dom M"
  proof
    show "ev_id ` ran M \<subseteq> dom M" using key by blast
    show "dom M \<subseteq> ev_id ` ran M" using event_dagD(2) [OF assms] by (auto simp: ran_def image_iff)
  qed
  ultimately show "card (dom M) = card (ran M)" by (metis card_image)
  show "finite (ran M)" using finite_ran [OF event_dagD(1) [OF assms]] .
qed

text \<open>What a compaction that keeps the events \<open>S\<close> does.\<close>

definition keeps_only :: "crypto_env \<Rightarrow> event store_env \<Rightarrow> string \<Rightarrow> durable_log \<Rightarrow> event set
    \<Rightarrow> failure + nat \<Rightarrow> durable_log \<Rightarrow> bool" where
  "keeps_only cr env password d S r d' \<longleftrightarrow>
     durable_ok cr env password d'
     \<and> (case r of
          Inl f \<Rightarrow> dl_log d' = dl_log d \<and> dl_file d' = dl_file d \<and> f \<noteq> Panicked
        | Inr n \<Rightarrow> ran (l_events (dl_log d')) = S \<and> n = card (ran (l_events (dl_log d)) - S))"

lemma listed_conversations:
  assumes "lists_keys enum" and "log_wf cr l"
  shows "set (kept_events l (filter P (enum (conversations l)))) = {e \<in> ran (l_events l). P (conversation_id e)}"
    and "distinct (map ev_id (kept_events l (filter P (enum (conversations l)))))"
proof -
  note cs = lists_keysD [OF assms(1) conversations_wf(2) [OF assms(2)]]
  show "set (kept_events l (filter P (enum (conversations l)))) = {e \<in> ran (l_events l). P (conversation_id e)}"
    unfolding set_kept_events [OF assms(2)] using cs conversations_wf(1) [OF assms(2)] by auto
  show "distinct (map ev_id (kept_events l (filter P (enum (conversations l)))))"
    using cs by (intro distinct_kept_events [OF assms(2)]) simp
qed

lemma dropped_card:
  assumes "event_dag cr M" and "S \<subseteq> ran M"
  shows "card (ran M - S) = card (ran M) - card S" and "card S \<le> card (ran M)"
  using card_Diff_subset [of S "ran M"] card_mono [of "ran M" S] ran_card(2) [OF assms(1)] assms(2) finite_subset by auto

lemma retain_conversations_ok:
  assumes env: "store_coded env" "\<And>i. length (nonces i) = 12" and enum: "lists_keys enum"
    and ok: "durable_ok cr env password d"
    and a: "retain_conversations env disk nonces enum d keep = (r, d')"
  shows "keeps_only cr env password d {e \<in> ran (l_events (dl_log d)). conversation_id e \<in> keep} r d'"
proof -
  let ?M = "l_events (dl_log d)"
  let ?kept = "kept_events (dl_log d) (filter (\<lambda>c. c \<in> keep) (enum (conversations (dl_log d))))"
  note k = durable_okD [OF ok]
  define S where "S = {e \<in> ran ?M. conversation_id e \<in> keep}"
  have kept: "set ?kept = S" "distinct (map ev_id ?kept)"
    unfolding S_def by (rule listed_conversations [OF enum k(1)])+
  have len: "length ?kept = card S" using distinct_ids_card [OF kept(2)] kept(1) by simp
  have sub: "S \<subseteq> ran ?M" by (auto simp: S_def)
  note cards = dropped_card [OF k(2) sub]
  have before: "card (all_event_ids (dl_log d)) = card (ran ?M)" by (simp add: all_event_ids_def ran_card(1) [OF k(2)])
  obtain q d1 where q: "rewrite_kept env disk nonces d ?kept = (q, d1)" by fastforce
  have closed: "\<And>e. e \<in> S \<Longrightarrow> set (parents e) \<subseteq> ev_id ` S" by (rule whole_conversations_closed [OF k(2) S_def])
  note w = rewrite_to [OF env ok kept(2,1) sub closed q, of Map.empty]
  have "keeps_only cr env password d S r d'"
  proof (cases "card (ran ?M) = card S")
    case True
    then have "S = ran ?M" using ran_card(2) [OF k(2)] sub card_subset_eq by metis
    moreover have "r = Inr 0" "d' = d" using a by (simp_all add: retain_conversations_def Let_def before len True)
    ultimately show ?thesis using ok by (simp add: keeps_only_def)
  next
    case False
    with cards(2) have "\<not> card (ran ?M) \<le> card S" by simp
    with a have run: "(r, d') = (case q of Inl f \<Rightarrow> (Inl f, d1) | Inr _ \<Rightarrow> (Inr (card (ran ?M - S)), d1\<lparr>dl_cache := Map.empty\<rparr>))"
      by (cases q) (simp_all add: retain_conversations_def Let_def before len q cards(1))
    show ?thesis using w run ok by (cases q) (simp_all add: keeps_only_def)
  qed
  then show ?thesis by (simp only: S_def)
qed

lemma drop_conversation_ok:
  assumes env: "store_coded env" "\<And>i. length (nonces i) = 12" and enum: "lists_keys enum"
    and ok: "durable_ok cr env password d"
    and a: "drop_conversation env disk nonces enum d c = (r, d')"
  shows "keeps_only cr env password d {e \<in> ran (l_events (dl_log d)). conversation_id e \<noteq> c} r d'"
proof -
  let ?M = "l_events (dl_log d)"
  let ?kept = "kept_events (dl_log d) (filter (\<lambda>x. x \<noteq> c) (enum (conversations (dl_log d))))"
  note k = durable_okD [OF ok]
  define S where "S = {e \<in> ran ?M. conversation_id e \<noteq> c}"
  have kept: "set ?kept = S" "distinct (map ev_id ?kept)"
    unfolding S_def by (rule listed_conversations [OF enum k(1)])+
  have sub: "S \<subseteq> ran ?M" by (auto simp: S_def)
  have "ran ?M - S = conv_set ?M c" by (auto simp: S_def conv_set_def)
  then have len: "length (log_events (dl_log d) c) = card (ran ?M - S)"
    using distinct_ids_card [OF distinct_log_events [OF k(1)]] log_events_keys(2) [OF k(1)] by simp
  obtain q d1 where q: "rewrite_kept env disk nonces d ?kept = (q, d1)" by fastforce
  have closed: "\<And>e. e \<in> S \<Longrightarrow> set (parents e) \<subseteq> ev_id ` S"
    by (rule whole_conversations_closed [OF k(2), of _ "- {c}"]) (simp_all add: S_def)
  have w: "case q of Inl f \<Rightarrow> d1 = d \<and> f \<noteq> Panicked
    | Inr _ \<Rightarrow> durable_ok cr env password (d1\<lparr>dl_cache := (dl_cache d)(c := None)\<rparr>) \<and> ran (l_events (dl_log d1)) = S"
    by (rule rewrite_to [OF env ok kept(2,1) sub closed q]) (auto simp: S_def split: if_splits)
  have same: "dl_cache d1 = dl_cache d" using q by (auto simp: rewrite_kept_def split: sum.splits prod.splits)
  have "keeps_only cr env password d S r d'"
  proof (cases "card (ran ?M - S) = 0")
    case True
    then have "ran ?M = S" using ran_card(2) [OF k(2)] sub by auto
    moreover have "r = Inr 0" "d' = d" using a by (simp_all add: drop_conversation_def Let_def len True)
    ultimately show ?thesis using ok by (simp add: keeps_only_def)
  next
    case False
    with a have run: "(r, d') = (case q of Inl f \<Rightarrow> (Inl f, d1)
        | Inr _ \<Rightarrow> (Inr (card (ran ?M - S)), d1\<lparr>dl_cache := (dl_cache d)(c := None)\<rparr>))"
      by (cases q) (simp_all add: drop_conversation_def Let_def len q same)
    show ?thesis using w run ok by (cases q) (simp_all add: keeps_only_def)
  qed
  then show ?thesis by (simp only: S_def)
qed

section \<open>Superseded profiles\<close>

definition loose_profiles :: "event_id set \<Rightarrow> author \<Rightarrow> event list \<Rightarrow> event list" where
  "loose_profiles R a es = filter (\<lambda>e. kind e = Profile \<and> ev_id e \<notin> R \<and> author e = a) es"

definition last_two :: "'a list \<Rightarrow> 'a list" where
  "last_two xs = drop (length xs - 2) xs"

lemma last_two_snoc:
  "last_two (xs @ [x]) = (if length (last_two xs) = 2 then tl (last_two xs) else last_two xs) @ [x]"
proof (cases "2 \<le> length xs")
  case True
  have "tl (drop k xs) = drop (Suc k) xs" for k by (simp add: drop_Suc tl_drop)
  moreover have "Suc (length xs - 2) = length xs - 1" using True by simp
  ultimately have "tl (drop (length xs - 2) xs) = drop (length xs - 1) xs" by metis
  with True show ?thesis by (simp add: last_two_def)
next
  case False
  then show ?thesis by (simp add: last_two_def)
qed

lemma newest_last_two:
  "entry_or [] (foldl (push_newest R) Map.empty es) a = last_two (map ev_id (loose_profiles R a es))"
proof (induction es rule: rev_induct)
  case Nil
  then show ?case by (simp add: entry_or_def loose_profiles_def last_two_def)
next
  case (snoc e es)
  then show ?case
    by (auto simp: push_newest_def Let_def loose_profiles_def last_two_snoc entry_or_def split: option.splits)
qed

lemma superseded_iff:
  "i \<in> superseded_profile_ids l c \<longleftrightarrow>
     (\<exists>e\<in>set (log_events l c). ev_id e = i \<and> kind e = Profile \<and> i \<notin> referenced_ids (log_events l c)
        \<and> i \<notin> set (last_two (map ev_id (loose_profiles (referenced_ids (log_events l c)) (author e) (log_events l c)))))"
  unfolding superseded_profile_ids_def Let_def newest_last_two by (auto simp: image_iff)

text \<open>A list in strict order whose element is not among its last two has two greater ones.\<close>

lemma before_last_two:
  assumes "sorted (map f xs)" and "distinct (map f xs)" and "x \<in> set xs" and "g x \<notin> set (last_two (map g xs))"
  shows "\<exists>y z. y \<in> set xs \<and> z \<in> set xs \<and> g y \<in> set (last_two (map g xs)) \<and> g z \<in> set (last_two (map g xs))
    \<and> f x < f y \<and> f y < f z"
proof -
  let ?n = "length xs"
  obtain k where k: "k < ?n" "xs ! k = x" using assms(3) by (auto simp: in_set_conv_nth)
  have "k < ?n - 2"
  proof (rule ccontr)
    assume "\<not> k < ?n - 2"
    then have "x = drop (?n - 2) xs ! (k - (?n - 2))" "k - (?n - 2) < length (drop (?n - 2) xs)" using k by simp_all
    then have "x \<in> set (drop (?n - 2) xs)" by (metis nth_mem)
    with assms(4) show False by (simp add: last_two_def drop_map)
  qed
  then have n: "k < ?n - 2" "?n - 2 < ?n - 1" "?n - 1 < ?n" by simp_all
  have less: "f (xs ! i) < f (xs ! j)" if "i < j" "j < ?n" for i j
    using sorted_nth_mono [OF assms(1), of i j] nth_eq_iff_index_eq [OF assms(2), of i j] that by (simp add: order_less_le)
  have mem: "g (xs ! i) \<in> set (last_two (map g xs))" if "?n - 2 \<le> i" "i < ?n" for i
  proof -
    have "xs ! i = drop (?n - 2) xs ! (i - (?n - 2))" "i - (?n - 2) < length (drop (?n - 2) xs)" using that by simp_all
    then have "xs ! i \<in> set (drop (?n - 2) xs)" by (metis nth_mem)
    then show ?thesis by (simp add: last_two_def drop_map)
  qed
  show ?thesis
    using n k less [of k "?n - 2"] less [of "?n - 2" "?n - 1"] mem [of "?n - 2"] mem [of "?n - 1"]
    by (intro exI [of _ "xs ! (?n - 2)"] exI [of _ "xs ! (?n - 1)"]) simp
qed

lemma sorted_map_filter: "sorted (map f xs) \<Longrightarrow> sorted (map f (filter P xs))"
  by (induction xs) auto

lemma distinct_map_filter': "distinct (map f xs) \<Longrightarrow> distinct (map f (filter P xs))"
  by (induction xs) auto

lemma superseded_spec:
  assumes wf: "log_wf cr l" and "i \<in> superseded_profile_ids l c"
  shows "\<exists>e f g. {e, f, g} \<subseteq> conv_set (l_events l) c \<and> ev_id e = i \<and> kind e = Profile \<and> kind f = Profile \<and> kind g = Profile
    \<and> author f = author e \<and> author g = author e \<and> order_key_of e < order_key_of f \<and> order_key_of f < order_key_of g
    \<and> ev_id f \<notin> superseded_profile_ids l c \<and> ev_id g \<notin> superseded_profile_ids l c
    \<and> (\<forall>h\<in>conv_set (l_events l) c. i \<notin> set (parents h))"
proof -
  let ?es = "log_events l c"
  let ?R = "referenced_ids ?es"
  have evs: "set ?es = conv_set (l_events l) c" by (rule log_events_keys(2) [OF wf])
  obtain e where e: "e \<in> set ?es" "ev_id e = i" "kind e = Profile" "i \<notin> ?R"
    "i \<notin> set (last_two (map ev_id (loose_profiles ?R (author e) ?es)))"
    using assms(2) unfolding superseded_iff by blast
  let ?xs = "loose_profiles ?R (author e) ?es"
  have xs: "sorted (map order_key_of ?xs)" "distinct (map order_key_of ?xs)"
    using log_events_ascending [OF wf, of c] sorted_map_filter distinct_map_filter' unfolding loose_profiles_def by blast+
  have "e \<in> set ?xs" using e by (simp add: loose_profiles_def)
  then obtain f g where fg: "f \<in> set ?xs" "g \<in> set ?xs" "ev_id f \<in> set (last_two (map ev_id ?xs))"
    "ev_id g \<in> set (last_two (map ev_id ?xs))" "order_key_of e < order_key_of f" "order_key_of f < order_key_of g"
    using before_last_two [OF xs, of e ev_id] e(2,5) by blast
  have keep: "ev_id h \<notin> superseded_profile_ids l c" if h: "h \<in> set ?xs" "ev_id h \<in> set (last_two (map ev_id ?xs))" for h
  proof
    assume "ev_id h \<in> superseded_profile_ids l c"
    then obtain h' where h': "h' \<in> set ?es" "ev_id h' = ev_id h"
      "ev_id h \<notin> set (last_two (map ev_id (loose_profiles ?R (author h') ?es)))"
      unfolding superseded_iff by blast
    have "h \<in> set ?es" "author h = author e" using h(1) by (simp_all add: loose_profiles_def)
    then have "h' = h" using h'(1,2) distinct_log_events [OF wf, of c] by (simp add: distinct_map inj_on_def)
    with h h' \<open>author h = author e\<close> show False by simp
  qed
  have mem: "h \<in> set ?es \<and> kind h = Profile \<and> author h = author e" if "h \<in> set ?xs" for h
    using that by (simp add: loose_profiles_def)
  have "\<forall>h\<in>conv_set (l_events l) c. i \<notin> set (parents h)" using e(4) by (simp add: referenced_ids_def evs)
  with e(1-3) fg(5,6) mem [OF fg(1)] mem [OF fg(2)] keep [OF fg(1,3)] keep [OF fg(2,4)] show ?thesis
    unfolding evs by blast
qed

abbreviation superseded_in :: "event_log \<Rightarrow> conversation_id set \<Rightarrow> event_id set" where
  "superseded_in l C \<equiv> (\<Union>c\<in>C. superseded_profile_ids l c)"

lemma superseded_in_spec:
  assumes wf: "log_wf cr l" and "i \<in> superseded_in l C"
  shows "\<exists>e f g. {e, f, g} \<subseteq> ran (l_events l) \<and> ev_id e = i \<and> kind e = Profile \<and> conversation_id e \<in> C
    \<and> (\<forall>h\<in>{f, g}. kind h = Profile \<and> conversation_id h = conversation_id e \<and> author h = author e \<and> ev_id h \<notin> superseded_in l C)
    \<and> order_key_of e < order_key_of f \<and> order_key_of f < order_key_of g
    \<and> (\<forall>h\<in>ran (l_events l). i \<notin> set (parents h))"
proof -
  note dag = log_wfD(1) [OF wf]
  obtain c where c: "c \<in> C" "i \<in> superseded_profile_ids l c" using assms(2) by blast
  from superseded_spec [OF wf c(2)] obtain e f g where
    s: "{e, f, g} \<subseteq> conv_set (l_events l) c" "ev_id e = i" "kind e = Profile" "kind f = Profile" "kind g = Profile"
    "author f = author e" "author g = author e" "order_key_of e < order_key_of f" "order_key_of f < order_key_of g"
    "ev_id f \<notin> superseded_profile_ids l c" "ev_id g \<notin> superseded_profile_ids l c"
    "\<forall>h\<in>conv_set (l_events l) c. i \<notin> set (parents h)" by blast
  have key: "l_events l (ev_id h) = Some h \<and> conversation_id h = c" if "h \<in> {e, f, g}" for h
    using conv_setD [OF dag, of h c] s(1) that by blast
  have elsewhere: "ev_id h \<notin> superseded_profile_ids l c'" if h: "h \<in> {f, g}" and ne: "c' \<noteq> c" for h c'
  proof
    assume "ev_id h \<in> superseded_profile_ids l c'"
    from superseded_spec [OF wf this] obtain h' where "h' \<in> conv_set (l_events l) c'" "ev_id h' = ev_id h" by blast
    then show False using conv_setD [OF dag, of h' c'] key [of h] h ne by auto
  qed
  have "ev_id h \<notin> superseded_profile_ids l c'" if "h \<in> {f, g}" for h c'
    using elsewhere [OF that] s(10,11) that by (cases "c' = c") auto
  then have here: "ev_id h \<notin> superseded_in l C" if "h \<in> {f, g}" for h using that by simp
  have refs: "i \<notin> set (parents h)" if "h \<in> ran (l_events l)" for h
  proof
    assume r: "i \<in> set (parents h)"
    have "l_events l (ev_id h) = Some h" using event_dag_lookup [OF dag] that by simp
    then obtain q where "l_events l i = Some q" "conversation_id q = conversation_id h"
      using event_dagD(4) [OF dag _ r] by blast
    then have "conversation_id h = c" using key [of e] s(2) by simp
    with s(12) that r show False by (auto simp: conv_set_def)
  qed
  have "{e, f, g} \<subseteq> ran (l_events l)" using s(1) by (auto simp: conv_set_def)
  moreover have "conversation_id e \<in> C" using key [of e] c(1) by simp
  moreover have "\<forall>h\<in>{f, g}. kind h = Profile \<and> conversation_id h = conversation_id e \<and> author h = author e \<and> ev_id h \<notin> superseded_in l C"
    using key here s(4-7) by simp
  ultimately show ?thesis using s(2,3,8,9) refs by blast
qed

lemma superseded_card:
  assumes wf: "log_wf cr l"
  shows "card (superseded_in l C) = card (ran (l_events l) - {e \<in> ran (l_events l). ev_id e \<notin> superseded_in l C})"
proof -
  note dag = log_wfD(1) [OF wf]
  let ?D = "{e \<in> ran (l_events l). ev_id e \<in> superseded_in l C}"
  have key: "l_events l (ev_id e) = Some e" if "e \<in> ?D" for e using that event_dag_lookup [OF dag] by simp
  have inj: "inj_on ev_id ?D" by (rule inj_onI) (metis key option.inject)
  have "superseded_in l C \<subseteq> ev_id ` ?D"
  proof
    fix i assume i: "i \<in> superseded_in l C"
    from superseded_in_spec [OF wf i] obtain e where "e \<in> ran (l_events l)" "ev_id e = i" by blast
    with i show "i \<in> ev_id ` ?D" by blast
  qed
  then have "superseded_in l C = ev_id ` ?D" by blast
  moreover have "ran (l_events l) - {e \<in> ran (l_events l). ev_id e \<notin> superseded_in l C} = ?D" by blast
  ultimately show ?thesis using card_image [OF inj] by presburger
qed

text \<open>What compacting the conversations \<open>C\<close> does: nothing, or dropping exactly their superseded profiles.\<close>

definition compacts :: "crypto_env \<Rightarrow> event store_env \<Rightarrow> string \<Rightarrow> durable_log \<Rightarrow> conversation_id set
    \<Rightarrow> failure + nat \<Rightarrow> durable_log \<Rightarrow> bool" where
  "compacts cr env password d C r d' \<longleftrightarrow>
     durable_ok cr env password d' \<and> r \<noteq> Inl Panicked \<and> dl_pending d' = dl_pending d
     \<and> (dl_log d' = dl_log d \<and> (r = Inr 0 \<or> (\<exists>f. r = Inl f))
        \<or> ran (l_events (dl_log d')) = {e \<in> ran (l_events (dl_log d)). ev_id e \<notin> superseded_in (dl_log d) C}
          \<and> r = Inr (card (superseded_in (dl_log d) C)))"

lemma bookkeeping_ok [simp]:
  "durable_ok cr env password (d\<lparr>dl_last_rewrite := t\<rparr>) = durable_ok cr env password d"
  "durable_ok cr env password (d\<lparr>dl_last_scan := t\<rparr>) = durable_ok cr env password d"
  "durable_ok cr env password (d\<lparr>dl_pending := P\<rparr>) = durable_ok cr env password d"
  by (simp_all add: durable_ok_def cache_ok_def)

lemma rewrite_kept_same:
  assumes "rewrite_kept env disk nonces d kept = (r, d')"
  shows "dl_cache d' = dl_cache d \<and> dl_pending d' = dl_pending d"
proof (cases "index_retained kept event_log_default")
  case (Inl f)
  with assms show ?thesis by (simp add: rewrite_kept_def)
next
  case (Inr x)
  obtain l es where x: "x = (l, es)" by fastforce
  obtain res rl where "record_log_rewrite env disk nonces (dl_file d) es = (res, rl)" by fastforce
  with assms show ?thesis by (cases res) (auto simp: rewrite_kept_def Inr x)
qed

text \<open>What a compaction keeps is closed under parents.\<close>

lemma kept_by_compaction:
  fixes C :: "conversation_id set"
  assumes enum: "lists_keys enum" and wf: "log_wf cr l"
  defines "kept \<equiv> filter (\<lambda>e. ev_id e \<notin> superseded_in l C) (kept_events l (enum (conversations l)))"
  shows "set kept = {e \<in> ran (l_events l). ev_id e \<notin> superseded_in l C}" and "distinct (map ev_id kept)"
    and "\<And>e. e \<in> set kept \<Longrightarrow> set (parents e) \<subseteq> ev_id ` set kept"
proof -
  let ?M = "l_events l" and ?D = "superseded_in l C"
  note dag = log_wfD(1) [OF wf]
  have all: "set (kept_events l (enum (conversations l))) = ran ?M" "distinct (map ev_id (kept_events l (enum (conversations l))))"
    using listed_conversations [OF enum wf, of "\<lambda>_. True"] by simp_all
  show s: "set kept = {e \<in> ran ?M. ev_id e \<notin> ?D}" using all by (auto simp: kept_def)
  show "distinct (map ev_id kept)" using distinct_map_filter' [OF all(2)] by (simp add: kept_def)
  show "set (parents e) \<subseteq> ev_id ` set kept" if e: "e \<in> set kept" for e
  proof
    fix p assume p: "p \<in> set (parents e)"
    have er: "e \<in> ran ?M" using e s by simp
    then have "?M (ev_id e) = Some e" using event_dag_lookup [OF dag] by simp
    then obtain q where q: "?M p = Some q" using event_dagD(4) [OF dag _ p] by blast
    have "p \<notin> ?D" using superseded_in_spec [OF wf, of p C] p er by blast
    with q event_dagD(2) [OF dag q] have "q \<in> set kept" "ev_id q = p" by (auto simp: s intro: ranI)
    then show "p \<in> ev_id ` set kept" by blast
  qed
qed

lemma compact_ok:
  assumes env: "store_coded env" "\<And>i. length (nonces i) = 12" and enum: "lists_keys enum"
    and ok: "durable_ok cr env password d"
    and a: "compact_profile_conversations env disk nonces enum d cs at = (r, d')"
  shows "compacts cr env password d (set cs) r d'"
proof -
  let ?l = "dl_log d"
  let ?M = "l_events ?l" and ?D = "superseded_in ?l (set cs)"
  let ?all = "kept_events ?l (enum (conversations ?l))"
  note k = durable_okD [OF ok]
  define d1 where "d1 = (case at of None \<Rightarrow> d | Some now \<Rightarrow> d\<lparr>dl_last_rewrite := Some now\<rparr>)"
  have d1: "dl_log d1 = ?l" "dl_cache d1 = dl_cache d" "dl_pending d1 = dl_pending d" "durable_ok cr env password d1"
    using ok by (auto simp: d1_def split: option.split)
  define S where "S = {e \<in> ran ?M. ev_id e \<notin> ?D}"
  let ?kept = "filter (\<lambda>e. ev_id e \<notin> ?D) ?all"
  note c = kept_by_compaction [OF enum k(1), where C = "set cs"]
  have kept: "set ?kept = S" "distinct (map ev_id ?kept)" using c(1,2) by (simp_all only: S_def)
  have sub: "S \<subseteq> ran (l_events (dl_log d1))" by (auto simp: S_def d1(1))
  have closed: "set (parents e) \<subseteq> ev_id ` S" if "e \<in> S" for e using c(3) that unfolding kept(1) by blast
  obtain q d2 where q: "rewrite_kept env disk nonces d1 ?kept = (q, d2)" by fastforce
  have same: "dl_cache d2 = dl_cache d1" "dl_pending d2 = dl_pending d"
    using rewrite_kept_same [OF q] d1(3) by simp_all
  let ?cache = "\<lambda>c. if c \<in> set cs then None else dl_cache d2 c"
  have w: "case q of Inl f \<Rightarrow> d2 = d1 \<and> f \<noteq> Panicked
    | Inr _ \<Rightarrow> durable_ok cr env password (d2\<lparr>dl_cache := ?cache\<rparr>) \<and> ran (l_events (dl_log d2)) = S"
  proof (rule rewrite_to [OF env d1(4) kept(2,1) sub closed q])
    fix c v assume v: "?cache c = Some v"
    then have c: "c \<notin> set cs" by (simp split: if_splits)
    have "e \<in> S" if e: "e \<in> ran ?M" "conversation_id e = c" for e
    proof (rule ccontr)
      assume "e \<notin> S"
      then have "ev_id e \<in> ?D" using e by (simp add: S_def)
      from superseded_in_spec [OF k(1) this] obtain e' where "e' \<in> ran ?M" "ev_id e' = ev_id e" "conversation_id e' \<in> set cs"
        by blast
      then have "e' = e" using event_dag_lookup [OF k(2), of "ev_id e"] e(1) by (metis option.inject)
      with \<open>conversation_id e' \<in> set cs\<close> c e(2) show False by simp
    qed
    with v c show "dl_cache d1 c = Some v \<and> (\<forall>e\<in>ran (l_events (dl_log d1)). conversation_id e = c \<longrightarrow> e \<in> S)"
      by (simp add: d1(1) same(1))
  qed
  have "(r, d') = (Inr 0, d)
    \<or> (r, d') = (case q of Inl f \<Rightarrow> (Inl f, d2) | Inr _ \<Rightarrow> (Inr (card ?D), d2\<lparr>dl_cache := ?cache\<rparr>))"
    using a unfolding compact_profile_conversations_def Let_def d1_def [symmetric] q
    by (cases q) (auto split: if_splits prod.splits)
  then show ?thesis
  proof
    assume "(r, d') = (Inr 0, d)"
    then show ?thesis using ok by (simp add: compacts_def)
  next
    assume "(r, d') = (case q of Inl f \<Rightarrow> (Inl f, d2) | Inr _ \<Rightarrow> (Inr (card ?D), d2\<lparr>dl_cache := ?cache\<rparr>))"
    then show ?thesis using w same(2) d1 by (cases q) (simp_all add: compacts_def S_def)
  qed
qed

lemma drain_ok:
  assumes env: "store_coded env" "\<And>i. length (nonces i) = 12" and enum: "lists_keys enum"
    and ok: "durable_ok cr env password d"
    and a: "drain_one_profile_compaction_at env disk nonces enum d now = (r, d')"
  shows "durable_ok cr env password d' \<and> r \<noteq> Inl Panicked"
proof -
  let ?d = "d\<lparr>dl_last_scan := Some now\<rparr>" and ?cs = "enum (dl_pending d)"
  obtain q d1 where q: "compact_profile_conversations env disk nonces enum ?d ?cs (Some now) = (q, d1)" by fastforce
  have "compacts cr env password ?d (set ?cs) q d1"
    using compact_ok [OF env enum _ q] ok by simp
  then have d1: "durable_ok cr env password d1" "q \<noteq> Inl Panicked" by (simp_all add: compacts_def)
  have "(r, d') = (Inr None, d) \<or> (r, d') = (case q of Inl f \<Rightarrow> (Inl f, d1) | Inr n \<Rightarrow>
      (Inr (Some n), d1\<lparr>dl_pending := dl_pending d1 - {c \<in> set ?cs. superseded_profile_ids (dl_log d1) c = {}}\<rparr>))"
    using a unfolding drain_one_profile_compaction_at_def Let_def q by (cases q) (auto split: if_splits)
  then show ?thesis using ok d1 by (cases q) auto
qed

lemma fingerprint_cached:
  assumes ok: "durable_ok cr env password d" and a: "cached_fingerprint_and_len cr d c = (v, d')"
  shows "v = (fingerprint cr (map ev_id (log_events (dl_log d) c)), conversation_len d c) \<and> durable_ok cr env password d'"
proof (cases "dl_cache d c")
  case None
  then have "v = (fingerprint cr (map ev_id (log_events (dl_log d) c)), conversation_len d c)"
    "d' = d \<or> d' = d\<lparr>dl_cache := (dl_cache d)(c \<mapsto> v)\<rparr>"
    using a by (auto simp: cached_fingerprint_and_len_def Let_def conversation_len_def split: if_splits)
  then show ?thesis using ok by (auto simp: durable_ok_def cache_ok_def conversation_len_def split: if_splits)
next
  case (Some w)
  then have "v = w" "d' = d" using a by (simp_all add: cached_fingerprint_and_len_def)
  with Some durable_okD(4) [OF ok] ok show ?thesis unfolding cache_ok_def conversation_len_def by blast
qed

section \<open>A channel's first batch\<close>

lemma batch_step:
  assumes l: "log_wf cr l" and v: "log_wf cr v" and sub: "ran (l_events v) = conv_set (l_events l) c"
    and e: "conversation_id e = c" "l_events l (ev_id e) = None"
    and step: "log_append cr v e = Inr (out, v')"
  shows "event_valid cr e \<and> fresh_event (l_events l) e \<and> log_wf cr v'
    \<and> ran (l_events v') = conv_set (l_events (index_trusted l e)) c"
proof -
  note ldag = log_wfD(1) [OF l] and vdag = log_wfD(1) [OF v]
  have held: "l_events l i = Some f" if "l_events v i = Some f" for i f
  proof -
    have "f \<in> conv_set (l_events l) c" "ev_id f = i" using that sub event_dagD(2) [OF vdag that] by (auto intro: ranI)
    then show ?thesis using conv_setD(1) [OF ldag] by blast
  qed
  have new: "l_events v (ev_id e) = None" using held e(2) by (metis not_None_eq)
  from step v have val: "event_valid cr e" and fv: "fresh_event (l_events v) e" and v': "log_wf cr v'"
    and ev: "l_events v' = (l_events v)(ev_id e \<mapsto> e)"
    using new by (auto elim: log_append_cases)
  have "\<exists>q. l_events l p = Some q \<and> conversation_id q = conversation_id e" if "p \<in> set (parents e)" for p
    using fv that held unfolding fresh_event_def by blast
  moreover have "ev_id e \<notin> set (parents f)" if "f \<in> ran (l_events l)" for f
    using that event_dagD(4) [OF ldag] e(2) by (fastforce simp: ran_def)
  moreover have "seq f \<noteq> seq e" if "f \<in> ran (l_events l)" "conversation_id f = conversation_id e" "author f = author e" for f
  proof -
    have "f \<in> ran (l_events v)" unfolding sub using that e(1) by (simp add: conv_set_def)
    with fv that show ?thesis by (simp add: fresh_event_def)
  qed
  ultimately have fl: "fresh_event (l_events l) e" unfolding fresh_event_def using e(2) by blast
  have "ran (l_events v') = insert e (ran (l_events v))" using new by (simp add: ev)
  moreover have "conv_set (l_events (index_trusted l e)) c = insert e (conv_set (l_events l) c)"
    using index_fresh(3) [OF l val fl] e(1) by (auto simp: conv_set_def)
  ultimately show ?thesis using val fl v' sub by simp
qed

lemma batch_indexes:
  assumes "log_wf cr l" and "log_wf cr v" and "ran (l_events v) = conv_set (l_events l) c"
    and "\<forall>e\<in>set es. conversation_id e = c \<and> l_events l (ev_id e) = None" and "distinct (map ev_id es)"
    and "append_all cr v es = Inr v'"
  shows "log_wf cr (foldl index_trusted l es) \<and> ran (l_events (foldl index_trusted l es)) = ran (l_events l) \<union> set es"
  using assms
proof (induction es arbitrary: l v)
  case (Cons e es)
  obtain out v1 where s: "log_append cr v e = Inr (out, v1)" "append_all cr v1 es = Inr v'"
    using Cons.prems(6) by (auto split: sum.splits prod.splits)
  have e: "conversation_id e = c" "l_events l (ev_id e) = None" using Cons.prems(4) by simp_all
  note b = batch_step [OF Cons.prems(1-3) e s(1)]
  note i = index_fresh [OF Cons.prems(1), of e]
  have "\<forall>f\<in>set es. conversation_id f = c \<and> l_events (index_trusted l e) (ev_id f) = None"
  proof
    fix f assume f: "f \<in> set es"
    have "ev_id e \<notin> ev_id ` set es" using Cons.prems(5) by simp
    with f have "ev_id f \<noteq> ev_id e" by (metis imageI)
    with f Cons.prems(4) b i(2) show "conversation_id f = c \<and> l_events (index_trusted l e) (ev_id f) = None" by simp
  qed
  moreover have "log_wf cr (index_trusted l e)" "ran (l_events (index_trusted l e)) = insert e (ran (l_events l))"
    using i b by blast+
  moreover have "distinct (map ev_id es)" using Cons.prems(5) by simp
  ultimately show ?case using Cons.IH [of "index_trusted l e" v1] b s(2) by auto
qed simp

lemma batch_file_backs:
  assumes env: "store_coded env" "\<And>i. length (nonces i) = 12" and b: "file_backs cr env password rl M"
    and es: "distinct (map ev_id es)" "\<forall>e\<in>set es. M (ev_id e) = None" "ran M' = ran M \<union> set es"
    and M: "event_dag cr M" and a: "append_batch_atomic env disk nonces rl es = (res, rl')"
  shows "case res of Inr _ \<Rightarrow> file_backs cr env password rl' M' | Inl _ \<Rightarrow> rl' = rl"
proof -
  obtain rs p where h: "rl_holds env password rl rs p" "distinct (map ev_id rs)" "set rs = ran M" "rl_magic rl = LOG_MAGIC"
    using b by (auto simp: file_backs_def)
  have "ev_id ` set es \<inter> ev_id ` set rs = {}" using fresh_not_listed [OF M h(3)] es(2) by blast
  then have "distinct (map ev_id (rs @ es))" using h(2) es(1) by auto
  moreover have "set (rs @ es) = ran M'" using h(3) es(3) by simp
  ultimately have "file_backs cr env password rl' M'" if "rl_holds env password rl' (rs @ es) None"
    unfolding file_backs_def using that batch_magic [OF a] h(4) by (intro conjI exI [of _ "rs @ es"] exI [of _ None]) simp_all
  then show ?thesis using batch_holds [OF env h(1) a] by auto
qed

lemma new_conversation_ids:
  assumes "event_dag cr M" and "conv_set M c = {}" and "conversation_id e = c" and "event_valid cr e"
    and "no_event_collision cr (ran M \<union> {e})"
  shows "M (ev_id e) = None"
proof (rule ccontr)
  assume "M (ev_id e) \<noteq> None"
  then obtain f where f: "M (ev_id e) = Some f" by blast
  have "ev_id f = ev_id e" "event_valid cr f" using event_dagD(2,3) [OF assms(1) f] by auto
  then have "recompute_id cr f = recompute_id cr e" using assms(4) by (auto simp: event_valid_def verify_integrity_def)
  then have "event_content_of f = event_content_of e"
    using assms(5) f by (auto simp: no_event_collision_def intro: ranI)
  then have "conversation_id f = c" using assms(3) by (simp add: event_content_of_def)
  with f assms(2) show False by (auto simp: conv_set_def intro: ranI)
qed

lemma append_all_valid:
  assumes "append_all cr l es = Inr l'" and "e \<in> set es"
  shows "event_valid cr e"
  using assms
proof (induction es arbitrary: l)
  case (Cons x es)
  then show ?case
    by (auto simp: log_append_def validate_def event_valid_def Let_def split: sum.splits prod.splits bool.splits if_splits option.splits)
qed simp

lemma batch_ok:
  assumes env: "store_coded env" "\<And>i. length (nonces i) = 12" and ok: "durable_ok cr env password d"
    and es: "distinct (map ev_id es)" "no_event_collision cr (ran (l_events (dl_log d)) \<union> set es)"
    and a: "append_channel_batch_atomic cr env disk nonces d es = (r, d')"
  shows "durable_ok cr env password d'
    \<and> (r = Inr () \<longrightarrow> ran (l_events (dl_log d')) = ran (l_events (dl_log d)) \<union> set es)
    \<and> (r \<noteq> Inr () \<longrightarrow> d' = d)"
proof (cases es)
  case Nil
  with a ok show ?thesis by (simp add: append_channel_batch_atomic_def)
next
  case (Cons first rest)
  let ?l = "dl_log d" and ?c = "conversation_id first"
  note k = durable_okD [OF ok]
  show ?thesis
  proof (cases "log_events ?l ?c \<noteq> [] \<or> list_ex (\<lambda>e. conversation_id e \<noteq> ?c) es \<or> (\<exists>err. append_all cr event_log_default es = Inl err)")
    case True
    have "r \<noteq> Inr () \<and> d' = d"
    proof (cases "append_all cr event_log_default es")
      case (Inl err)
      with a Cons show ?thesis by (auto simp: append_channel_batch_atomic_def split: if_splits)
    next
      case (Inr v)
      with True a Cons show ?thesis by (auto simp: append_channel_batch_atomic_def split: if_splits)
    qed
    with ok show ?thesis by simp
  next
    case False
    then obtain v where v: "append_all cr event_log_default es = Inr v" by (cases "append_all cr event_log_default es") auto
    have none: "ran (l_events event_log_default) = {}" by (simp add: event_log_default_def)
    have empty: "conv_set (l_events ?l) ?c = {}" using False log_events_keys(2) [OF k(1), of ?c] by simp
    have conv: "\<forall>e\<in>set es. conversation_id e = ?c" using False by (simp add: list_ex_iff)
    have new: "\<forall>e\<in>set es. conversation_id e = ?c \<and> l_events ?l (ev_id e) = None"
    proof
      fix e assume e: "e \<in> set es"
      have "no_event_collision cr (ran (l_events ?l) \<union> {e})" using es(2) e by (auto simp: no_event_collision_def)
      from new_conversation_ids [OF k(2) empty _ append_all_valid [OF v e] this] conv e
      show "conversation_id e = ?c \<and> l_events ?l (ev_id e) = None" by simp
    qed
    have ix: "log_wf cr (foldl index_trusted ?l es)" "ran (l_events (foldl index_trusted ?l es)) = ran (l_events ?l) \<union> set es"
      using batch_indexes [OF k(1) log_wf_empty _ new es(1) v] empty none by simp_all
    obtain res rl where f: "append_batch_atomic env disk nonces (dl_file d) es = (res, rl)" by fastforce
    have b: "case res of Inr _ \<Rightarrow> file_backs cr env password rl (l_events (foldl index_trusted ?l es)) | Inl _ \<Rightarrow> rl = dl_file d"
      by (rule batch_file_backs [OF env k(3) es(1) _ ix(2) k(2) f]) (use new in blast)
    define d1 where "d1 = d\<lparr>dl_file := rl, dl_cache := (dl_cache d)(?c := None), dl_log := foldl index_trusted ?l es\<rparr>"
    have run: "(r, d') = (case res of Inl err \<Rightarrow> (Inl err, d\<lparr>dl_file := rl\<rparr>) | Inr _ \<Rightarrow> (Inr (), d1))"
      using a False Cons v f by (cases res) (auto simp: append_channel_batch_atomic_def d1_def)
    have "cache_ok cr d1"
    proof (rule cache_okI [OF k(4,1)])
      show "log_wf cr (dl_log d1)" using ix(1) by (simp add: d1_def)
      fix c v assume "dl_cache d1 c = Some v"
      then have c: "c \<noteq> ?c" "dl_cache d c = Some v" by (simp_all add: d1_def split: if_splits)
      have "conv_set (l_events (dl_log d1)) c = conv_set (l_events ?l) c"
        using c(1) conv by (auto simp: conv_set_def d1_def ix(2))
      with c(2) show "dl_cache d c = Some v \<and> conv_set (l_events (dl_log d1)) c = conv_set (l_events ?l) c" by simp
    qed
    then have "res = Inr () \<Longrightarrow> durable_ok cr env password d1" using b ix(1) by (simp add: durable_ok_def d1_def)
    with run b ok ix(2) show ?thesis by (cases res) (auto simp: d1_def)
  qed
qed

section \<open>Reconciling durable logs\<close>

text \<open>
  On a disk without faults the durable log takes part in reconciliation exactly as its in-memory
  log does, for events that can be encoded under its key within the frame limit.
\<close>

definition storable :: "event store_env \<Rightarrow> array32 \<Rightarrow> event \<Rightarrow> bool" where
  "storable env key e \<longleftrightarrow>
     (\<forall>nonce. length nonce = 12 \<longrightarrow>
        (\<exists>bs ct. bincode_record env e = Inr bs \<and> store_encrypt env key nonce bs = Some ct \<and> 12 + length ct < 2 ^ 32))"

definition durable_ready :: "crypto_env \<Rightarrow> event store_env \<Rightarrow> string \<Rightarrow> array32 \<Rightarrow> durable_log \<Rightarrow> bool" where
  "durable_ready cr env password key d \<longleftrightarrow>
     durable_ok cr env password d \<and> \<not> rl_poisoned (dl_file d) \<and> rl_key (dl_file d) = key"

lemma good_append:
  assumes "storable env (rl_key rl) e" and "length nonce = 12" and "\<not> rl_poisoned rl"
  shows "\<exists>rl'. append_with env good_disk durable nonce rl e = (Inr (), rl') \<and> \<not> rl_poisoned rl' \<and> rl_key rl' = rl_key rl"
proof -
  obtain bs ct where "bincode_record env e = Inr bs" "store_encrypt env (rl_key rl) nonce bs = Some ct" "12 + length ct < 2 ^ 32"
    using assms(1,2) unfolding storable_def by blast
  then have "\<exists>f. encode_record env nonce rl e = Inr f" by (simp add: encode_record_def encrypt_data_def STORE_NONCE_SIZE_def)
  then show ?thesis using assms(3) by (auto simp: append_with_def good_disk_def Let_def)
qed

lemma good_records:
  assumes "\<forall>e\<in>set es. storable env (rl_key rl) e" and "\<And>i. length (nonces i) = 12"
  shows "\<exists>frames. encode_records env nonces rl es = Inr frames"
  using assms
proof (induction es arbitrary: nonces)
  case Nil
  then show ?case by simp
next
  case (Cons e es)
  obtain bs ct where "bincode_record env e = Inr bs" "store_encrypt env (rl_key rl) (nonces 0) bs = Some ct" "12 + length ct < 2 ^ 32"
    using Cons.prems unfolding storable_def by (metis list.set_intros(1))
  then obtain f where "encode_record env (nonces 0) rl e = Inr f" by (auto simp: encode_record_def encrypt_data_def STORE_NONCE_SIZE_def)
  moreover obtain fs where "encode_records env (\<lambda>i. nonces (Suc i)) rl es = Inr fs" using Cons.IH [of "\<lambda>i. nonces (Suc i)"] Cons.prems by auto
  ultimately show ?case by simp
qed

lemma good_rewrite:
  assumes ok: "durable_ok cr env password d" "\<not> rl_poisoned (dl_file d)" and n: "\<And>i. length (nonces i) = 12"
    and kept: "distinct (map ev_id kept)" "set kept \<subseteq> ran (l_events (dl_log d))"
      "\<And>e. e \<in> set kept \<Longrightarrow> set (parents e) \<subseteq> ev_id ` set kept"
    and st: "\<forall>e\<in>set kept. storable env (rl_key (dl_file d)) e"
  shows "\<exists>d'. rewrite_kept env good_disk nonces d kept = (Inr (), d')"
proof -
  have none: "l_events event_log_default = Map.empty" by (simp add: event_log_default_def)
  obtain es where es: "index_retained kept event_log_default = Inr (foldl index_trusted event_log_default es, es)" "set es = set kept"
    using index_retained_ok [OF durable_okD(2) [OF ok(1)] log_wf_empty _ kept(2,1)] kept(3) by (auto simp: none)
  obtain frames where "encode_records env nonces (dl_file d) es = Inr frames"
    using good_records [of es env "dl_file d" nonces] st es(2) n by auto
  then show ?thesis using ok(2) by (simp add: rewrite_kept_def es(1) record_log_rewrite_def good_disk_def)
qed

text \<open>When the code takes a compaction to be worth a rewrite.\<close>

definition compaction_due :: "key_order \<Rightarrow> event_log \<Rightarrow> conversation_id list \<Rightarrow> bool" where
  "compaction_due enum l cs \<longleftrightarrow>
     COMPACT_PROFILE_MIN \<le> card (superseded_in l (set cs))
     \<and> (case foldl (tally (superseded_in l (set cs))) (0, 0) (kept_events l (enum (conversations l))) of
          (total_bytes, reclaimed_bytes) \<Rightarrow>
            (unat total_bytes + (PROFILE_RECLAIM_RATIO - 1)) div PROFILE_RECLAIM_RATIO \<le> unat reclaimed_bytes)"

lemma good_compaction:
  assumes ok: "durable_ok cr env password d" "\<not> rl_poisoned (dl_file d)" and n: "\<And>i. length (nonces i) = 12"
    and enum: "lists_keys enum" and st: "\<forall>e\<in>ran (l_events (dl_log d)). storable env (rl_key (dl_file d)) e"
    and a: "compact_profile_conversations env good_disk nonces enum d cs at = (r, d')"
  shows "r = Inr (if compaction_due enum (dl_log d) cs then card (superseded_in (dl_log d) (set cs)) else 0)"
proof (cases "compaction_due enum (dl_log d) cs")
  case False
  then show ?thesis using a
    unfolding compact_profile_conversations_def compaction_due_def Let_def by (auto simp: not_le not_less split: prod.splits if_splits)
next
  case True
  define d1 where "d1 = (case at of None \<Rightarrow> d | Some now \<Rightarrow> d\<lparr>dl_last_rewrite := Some now\<rparr>)"
  have d1: "dl_log d1 = dl_log d" "dl_file d1 = dl_file d" "durable_ok cr env password d1"
    using ok by (auto simp: d1_def split: option.split)
  let ?kept = "filter (\<lambda>e. ev_id e \<notin> superseded_in (dl_log d) (set cs)) (kept_events (dl_log d) (enum (conversations (dl_log d))))"
  note k = kept_by_compaction [OF enum durable_okD(1) [OF ok(1)], where C = "set cs"]
  have "\<exists>d2. rewrite_kept env good_disk nonces d1 ?kept = (Inr (), d2)"
    using k(1,3) st ok(2) d1 by (intro good_rewrite [OF d1(3) _ n k(2)]) auto
  then show ?thesis using True a
    unfolding compact_profile_conversations_def compaction_due_def Let_def d1_def [symmetric] by (auto split: prod.splits)
qed

lemma durable_ingest_log:
  assumes env: "store_coded env" "\<forall>bs. length (rng bs) = 12" and d: "durable_ready cr env password key d"
    and s: "storable env key e"
  shows "\<exists>d'. durable_ingest cr env good_disk rng d e = (fst (log_ingest cr (dl_log d) e), d')
    \<and> dl_log d' = snd (log_ingest cr (dl_log d) e) \<and> durable_ready cr env password key d'"
proof -
  let ?nonce = "rng (rl_file (dl_file d))"
  have ok: "durable_ok cr env password d" and np: "\<not> rl_poisoned (dl_file d)" and key: "rl_key (dl_file d) = key"
    using d by (simp_all add: durable_ready_def)
  obtain rl where f: "append_with env good_disk False ?nonce (dl_file d) e = (Inr (), rl)" "\<not> rl_poisoned rl" "rl_key rl = key"
    using good_append [of env "dl_file d" e ?nonce False] env(2) np s key by auto
  show ?thesis
  proof (cases "validate cr (dl_log d) e = Inr True")
    case True
    from file_append_ok [OF env(1) _ ok True f(1)] env(2) have "durable_ok cr env password (index_appended d rl e)"
      by (simp add: appends_one_def)
    then show ?thesis using f True
      by (simp add: durable_ingest_def durable_append_def append_with_precommit_def record_log_append_def
          log_ingest_def log_append_def durable_ready_def index_appended_def)
  next
    case False
    then show ?thesis using d
      by (cases "validate cr (dl_log d) e") (auto simp: durable_ingest_def durable_append_def append_with_precommit_def
          log_ingest_def log_append_def split: bool.splits)
  qed
qed

lemma apply_received_log:
  assumes env: "store_coded env" "\<forall>bs. length (rng bs) = 12" and "durable_ready cr env password key d"
    and "\<forall>e\<in>set es. storable env key e"
  shows "\<exists>d'. apply_received_from (durable_ingest cr env good_disk rng) d es rep
      = (d', snd (apply_received_from (log_ingest cr) (dl_log d) es rep))
    \<and> dl_log d' = fst (apply_received_from (log_ingest cr) (dl_log d) es rep) \<and> durable_ready cr env password key d'"
  using assms(3,4)
proof (induction es arbitrary: d rep)
  case (Cons e es)
  obtain r l where l: "log_ingest cr (dl_log d) e = (r, l)" by fastforce
  obtain d1 where d1: "durable_ingest cr env good_disk rng d e = (r, d1)" "dl_log d1 = l" "durable_ready cr env password key d1"
    using durable_ingest_log [OF env Cons.prems(1), of e] Cons.prems(2) l by auto
  have "\<forall>f\<in>set es. storable env key f" using Cons.prems(2) by simp
  note IH = Cons.IH [OF d1(3) this, unfolded d1(2)]
  show ?case
  proof (cases r)
    case (Inl f)
    with IH d1 l show ?thesis by (cases f) auto
  next
    case (Inr out)
    with IH d1 l show ?thesis by (cases out) auto
  qed
qed simp

lemma exported_events:
  assumes "log_wf cr l" and "op_events_excluding_bounded (event_log_ops cr ser) l c have budget n = Inr es"
  shows "set es \<subseteq> conv_set (l_events l) c"
proof -
  obtain all where "causal_events (log_events l c) = Some all" "set all = conv_set (l_events l) c"
    using log_causal_events [OF assms(1)] by blast
  moreover have "set (frame_prefix xs budget n sz) \<subseteq> set xs" for xs :: "event list" and sz
    using set_mono_prefix [OF frame_prefix_prefix] .
  ultimately show ?thesis
    using assms(2) by (fastforce simp: event_log_ops_def log_events_excluding_bounded_def bounded_events_def)
qed

lemma durable_ops_log [simp]:
  "op_event_ids (durable_ops cr env disk rng ser) d c = op_event_ids (event_log_ops cr ser) (dl_log d) c"
  "op_events_excluding_bounded (durable_ops cr env disk rng ser) d c have budget n
    = op_events_excluding_bounded (event_log_ops cr ser) (dl_log d) c have budget n"
  "op_ingest (durable_ops cr env disk rng ser) = durable_ingest cr env disk rng"
  by (simp_all add: durable_ops_def event_log_ops_def log_event_ids_def durable_events_excluding_bounded_def
      log_events_excluding_bounded_def)

lemma followup_events:
  assumes "log_wf cr l'" and "handle_response ser (event_log_ops cr ser) l response = (l', Inr (report, followup))"
  shows "set (fu_events followup) \<subseteq> conv_set (l_events l') (rs_conversation response)"
proof -
  let ?c = "rs_conversation response" and ?b = "saturating_sub (- 1) SYNC_MARGIN"
  obtain missing where m: "op_events_excluding_bounded (event_log_ops cr ser) l' ?c (set (rs_have response)) ?b 1 = Inr missing"
    "followup = (let frames = followup_frames ser ?c missing ?b 1
       in if frames = [] then \<lparr>fu_conversation = ?c, fu_events = []\<rparr> else last frames)"
    using assms(2) unfolding handle_response_def handle_response_bounded_def handle_response_bounded_burst_def
    by (auto simp: bind_result_Inr Let_def split: prod.splits sum.splits)
  have "fu_events followup = frame_prefix missing ?b 1 (encoded_event_size ser)" unfolding m(2) followup_single by simp
  then have "set (fu_events followup) \<subseteq> set missing" using set_mono_prefix [OF frame_prefix_prefix] by metis
  with exported_events [OF assms(1) m(1)] show ?thesis by blast
qed

lemma response_log:
  assumes env: "store_coded env" "\<forall>bs. length (rng bs) = 12" and "durable_ready cr env password key d"
    and "\<forall>e\<in>set (rs_events response). storable env key e"
  shows "\<exists>d'. handle_response ser (durable_ops cr env good_disk rng ser) d response
      = (d', snd (handle_response ser (event_log_ops cr ser) (dl_log d) response))
    \<and> dl_log d' = fst (handle_response ser (event_log_ops cr ser) (dl_log d) response) \<and> durable_ready cr env password key d'"
proof -
  obtain l r where l: "apply_received_from (log_ingest cr) (dl_log d) (rs_events response)
      \<lparr>applied = 0, duplicates = 0, rejected = []\<rparr> = (l, r)" by fastforce
  then obtain d' where d': "apply_received_from (durable_ingest cr env good_disk rng) d (rs_events response)
      \<lparr>applied = 0, duplicates = 0, rejected = []\<rparr> = (d', r)" "dl_log d' = l" "durable_ready cr env password key d'"
    using apply_received_log [OF assms, of "\<lparr>applied = 0, duplicates = 0, rejected = []\<rparr>"] by auto
  have "ingest_all (event_log_ops cr ser) (dl_log d) (rs_events response) = (l, r)"
    using l by (simp add: ingest_all_def apply_received_events_def event_log_ops_def)
  moreover have "ingest_all (durable_ops cr env good_disk rng ser) d (rs_events response) = (d', r)"
    using d'(1) by (simp add: ingest_all_def apply_received_events_def)
  ultimately show ?thesis using d'(2,3)
    by (cases r) (auto simp: handle_response_def handle_response_bounded_def handle_response_bounded_burst_def Let_def)
qed

lemma followup_log:
  assumes env: "store_coded env" "\<forall>bs. length (rng bs) = 12" and "durable_ready cr env password key d"
    and "\<forall>e\<in>set (fu_events followup). storable env key e"
  shows "\<exists>d'. handle_followup (durable_ops cr env good_disk rng ser) d followup
      = (d', snd (handle_followup (event_log_ops cr ser) (dl_log d) followup))
    \<and> dl_log d' = fst (handle_followup (event_log_ops cr ser) (dl_log d) followup) \<and> durable_ready cr env password key d'"
  using apply_received_log [OF assms, of "\<lparr>applied = 0, duplicates = 0, rejected = []\<rparr>"]
  by (simp add: handle_followup_def ingest_all_def apply_received_events_def event_log_ops_def)

lemma reconcile_log:
  assumes env: "store_coded env" "\<forall>bs. length (rng bs) = 12"
    and a: "durable_ready cr env pa ka a" and b: "durable_ready cr env pb kb b"
    and merge: "mergeable (l_events (dl_log a)) (l_events (dl_log b)) c"
    and st: "\<forall>e\<in>conv_set (l_events (dl_log a)) c \<union> conv_set (l_events (dl_log b)) c. storable env ka e \<and> storable env kb e"
    and fits: "fits_one_frame ser (conv_set (l_events (dl_log a)) c \<union> conv_set (l_events (dl_log b)) c)"
  shows "\<exists>a' b' reports. reconcile ser (durable_ops cr env good_disk rng ser) (durable_ops cr env good_disk rng ser) a b c
      = ((a', b'), Inr reports)
    \<and> reconcile ser (event_log_ops cr ser) (event_log_ops cr ser) (dl_log a) (dl_log b) c = ((dl_log a', dl_log b'), Inr reports)
    \<and> durable_ready cr env pa ka a' \<and> durable_ready cr env pb kb b'
    \<and> ran (l_events (dl_log a')) = ran (l_events (dl_log a)) \<union> conv_set (l_events (dl_log b)) c
    \<and> ran (l_events (dl_log b')) = ran (l_events (dl_log b)) \<union> conv_set (l_events (dl_log a)) c"
proof -
  let ?ops = "event_log_ops cr ser" and ?dops = "durable_ops cr env good_disk rng ser"
  let ?A = "conv_set (l_events (dl_log a)) c" and ?B = "conv_set (l_events (dl_log b)) c"
  have wf: "log_wf cr (dl_log a)" "log_wf cr (dl_log b)" using a b by (auto simp: durable_ready_def durable_ok_def)
  obtain la lb reports where logs: "reconcile ser ?ops ?ops (dl_log a) (dl_log b) c = ((la, lb), Inr reports)"
    "log_wf cr la" "log_wf cr lb" "ran (l_events la) = ran (l_events (dl_log a)) \<union> ?B"
    "ran (l_events lb) = ran (l_events (dl_log b)) \<union> ?A"
    using elogs.reconcile_merges [OF wf merge fits] by blast
  obtain rq where rq: "build_request ?ops (dl_log a) c = Inr rq" "rq_conversation rq = c"
    by (simp add: build_request_def event_log_ops_def log_event_ids_def)
  obtain resp where resp: "handle_request ?ops (dl_log b) rq = Inr resp"
    using logs(1) rq(1) by (cases "handle_request ?ops (dl_log b) rq") (auto simp: reconcile_def)
  obtain ra fu where step: "handle_response ser ?ops (dl_log a) resp = (la, Inr (ra, fu))"
    using logs(1) rq(1) resp by (auto simp: reconcile_def split: prod.splits sum.splits)
  obtain rb where fup: "fst (handle_followup ?ops (dl_log b) fu) = lb" "snd (handle_followup ?ops (dl_log b) fu) = Inr rb" "reports = (ra, rb)"
    using logs(1) rq(1) resp step by (auto simp: reconcile_def split: prod.splits sum.splits)
  have rs: "rs_conversation resp = c" "set (rs_events resp) \<subseteq> ?B"
    using resp unfolding handle_request_def handle_request_bounded_def
    by (auto simp: bind_result_Inr rq(2) dest!: exported_events [OF wf(2), THEN subsetD])
  have fe: "set (fu_events fu) \<subseteq> ?A \<union> ?B"
    using followup_events [OF logs(2) step] rs(1) by (auto simp: conv_set_def logs(4))
  obtain a' where a': "handle_response ser ?dops a resp = (a', Inr (ra, fu))" "dl_log a' = la" "durable_ready cr env pa ka a'"
    using response_log [OF env a, of resp ser] rs(2) st step by auto
  have "\<forall>e\<in>set (fu_events fu). storable env kb e" using fe st by blast
  from followup_log [OF env b this, of ser] fup obtain b' where
    b': "handle_followup ?dops b fu = (b', Inr rb)" "dl_log b' = lb" "durable_ready cr env pb kb b'" by auto
  have "build_request ?dops a c = Inr rq" using rq(1) by (simp add: build_request_def)
  moreover have "handle_request ?dops b rq = Inr resp" using resp by (simp add: handle_request_def handle_request_bounded_def)
  ultimately have "reconcile ser ?dops ?dops a b c = ((a', b'), Inr (ra, rb))"
    using a'(1) b'(1) by (simp add: reconcile_def)
  then show ?thesis using a'(2,3) b'(2,3) logs(1,4,5) fup(3) by blast
qed

section \<open>Histories\<close>

text \<open>
  Everything that can happen to a durable log: its operations on disks with any faults, and being
  opened again at any point from the bytes its file holds. A batch repeats no event: its callers stage
  each event once.
\<close>

inductive durable_history :: "crypto_env \<Rightarrow> event store_env \<Rightarrow> string \<Rightarrow> key_order \<Rightarrow> durable_log \<Rightarrow> bool"
  for cr env password enum where
  created: "length fresh = 16 \<Longrightarrow> durable_open env disk fresh password None = Inr d
    \<Longrightarrow> durable_history cr env password enum d"
| appended: "durable_history cr env password enum d \<Longrightarrow> length nonce = 12
    \<Longrightarrow> durable_append cr env disk nonce d e = (r, d') \<Longrightarrow> durable_history cr env password enum d'"
| appended_durable: "durable_history cr env password enum d \<Longrightarrow> length nonce = 12
    \<Longrightarrow> append_durable cr env disk nonce d e = (r, d') \<Longrightarrow> durable_history cr env password enum d'"
| batch: "durable_history cr env password enum d \<Longrightarrow> (\<And>i. length (nonces i) = 12) \<Longrightarrow> distinct (map ev_id es)
    \<Longrightarrow> no_event_collision cr (ran (l_events (dl_log d)) \<union> set es)
    \<Longrightarrow> append_channel_batch_atomic cr env disk nonces d es = (r, d') \<Longrightarrow> durable_history cr env password enum d'"
| retained: "durable_history cr env password enum d \<Longrightarrow> (\<And>i. length (nonces i) = 12)
    \<Longrightarrow> retain_conversations env disk nonces enum d keep = (n, d') \<Longrightarrow> durable_history cr env password enum d'"
| dropped: "durable_history cr env password enum d \<Longrightarrow> (\<And>i. length (nonces i) = 12)
    \<Longrightarrow> drop_conversation env disk nonces enum d c = (n, d') \<Longrightarrow> durable_history cr env password enum d'"
| compacted: "durable_history cr env password enum d \<Longrightarrow> (\<And>i. length (nonces i) = 12)
    \<Longrightarrow> compact_profile_conversations env disk nonces enum d cs at = (n, d') \<Longrightarrow> durable_history cr env password enum d'"
| requested: "durable_history cr env password enum d \<Longrightarrow> durable_history cr env password enum (request_profile_compaction d c)"
| drained: "durable_history cr env password enum d \<Longrightarrow> (\<And>i. length (nonces i) = 12)
    \<Longrightarrow> drain_one_profile_compaction_at env disk nonces enum d now = (m, d') \<Longrightarrow> durable_history cr env password enum d'"
| fingerprinted: "durable_history cr env password enum d
    \<Longrightarrow> cached_fingerprint_and_len cr d c = (v, d') \<Longrightarrow> durable_history cr env password enum d'"
| reopened: "durable_history cr env password enum d
    \<Longrightarrow> durable_open env good_disk fresh password (Some (rl_file (dl_file d))) = Inr d'
    \<Longrightarrow> durable_history cr env password enum d'"

lemma durable_history_ok:
  assumes "store_coded env" and "lists_keys enum" and "durable_history cr env password enum d"
  shows "durable_ok cr env password d"
  using assms(3)
proof (induction rule: durable_history.induct)
  case (created fresh disk d)
  then show ?case using durable_create_ok by blast
next
  case (appended d nonce disk e r d')
  then show ?case using durable_append_ok [OF assms(1)] by (simp add: appends_one_def)
next
  case (appended_durable d nonce disk e r d')
  then show ?case using append_durable_ok [OF assms(1)] by (simp add: appends_one_def)
next
  case (batch d nonces es disk r d')
  then show ?case using batch_ok [of env nonces cr password d es disk r d'] assms(1) by blast
next
  case (retained d nonces disk keep n d')
  then show ?case using retain_conversations_ok [of env nonces enum cr password d disk keep n d'] assms(1,2) by (simp add: keeps_only_def)
next
  case (dropped d nonces disk c n d')
  then show ?case using drop_conversation_ok [of env nonces enum cr password d disk c n d'] assms(1,2) by (simp add: keeps_only_def)
next
  case (compacted d nonces disk cs at n d')
  then show ?case using compact_ok [of env nonces enum cr password d disk cs at n d'] assms(1,2) by (simp add: compacts_def)
next
  case (requested d c)
  then show ?case by (simp add: request_profile_compaction_def)
next
  case (drained d nonces disk now m d')
  then show ?case using drain_ok [of env nonces enum cr password d disk now m d'] assms(1,2) by blast
next
  case (fingerprinted d c v d')
  then show ?case using fingerprint_cached by blast
next
  case (reopened d fresh d')
  then show ?case using reopen_ok [OF reopened.IH, of fresh] by auto
qed

section \<open>What compaction leaves\<close>

lemma heads_cong:
  assumes "log_wf cr l" and "log_wf cr l'"
    and "\<And>e. kind e \<noteq> Profile \<Longrightarrow> e \<in> conv_set (l_events l) c \<longleftrightarrow> e \<in> conv_set (l_events l') c"
  shows "log_heads l c = log_heads l' c"
proof -
  have "set (log_heads l c) = set (log_heads l' c)"
    unfolding set_log_heads [OF assms(1)] set_log_heads [OF assms(2)] using assms(3) by blast
  then have "entry_or {} (l_heads l) c = entry_or {} (l_heads l') c"
    by (metis entry_heads_eq [OF assms(1)] entry_heads_eq [OF assms(2)])
  then show ?thesis by (simp only: log_heads_def)
qed

lemma version_entry:
  assumes "log_wf cr l"
  shows "entry_or 0 (entry_or Map.empty (l_version l) c) a
    = (case greatest_of seq {x \<in> conv_set (l_events l) c. author x = a} of None \<Rightarrow> 0 | Some v \<Rightarrow> v)"
  by (auto simp: entry_or_def log_wfD(6) [OF assms] version_of_def greatest_of_def)

lemma greatest_of_dominated:
  assumes "finite S" and "S' \<subseteq> S" and "\<And>e. e \<in> S \<Longrightarrow> \<exists>f\<in>S'. g e \<le> g f"
  shows "greatest_of g S = greatest_of g S'"
proof (cases "S = {}")
  case True
  with assms(2) show ?thesis by simp
next
  case False
  then have ne: "S' \<noteq> {}" using assms(3) by blast
  have fin: "finite S'" using assms(1,2) by (rule rev_finite_subset)
  have "Max (g ` S) = Max (g ` S')"
  proof (rule antisym)
    show "Max (g ` S') \<le> Max (g ` S)" using assms(1,2) ne by (intro Max_mono) auto
    have "x \<le> Max (g ` S')" if "x \<in> g ` S" for x
    proof -
      obtain e f where "x = g e" "f \<in> S'" "g e \<le> g f" using \<open>x \<in> g ` S\<close> assms(3) by blast
      moreover have "g f \<le> Max (g ` S')" using \<open>f \<in> S'\<close> fin by (intro Max_ge) auto
      ultimately show ?thesis by simp
    qed
    then show "Max (g ` S) \<le> Max (g ` S')" using assms(1) False by (intro Max.boundedI) auto
  qed
  with False ne show ?thesis by (simp add: greatest_of_def)
qed

lemma lamport_entry:
  assumes "log_wf cr l"
  shows "entry_or 0 (l_max_lamport l) c = (case greatest_of lamport (conv_set (l_events l) c) of None \<Rightarrow> 0 | Some v \<Rightarrow> v)"
  by (simp add: entry_or_def log_wfD(7) [OF assms])

lemma greatest_of_kept:
  assumes "finite S" and "S' \<subseteq> S" and "S \<noteq> {} \<longrightarrow> S' \<noteq> {}"
  shows "greatest_of g S' = greatest_of g S \<longleftrightarrow> (\<forall>e\<in>S. \<exists>f\<in>S'. g e \<le> g f)"
proof
  assume eq: "greatest_of g S' = greatest_of g S"
  show "\<forall>e\<in>S. \<exists>f\<in>S'. g e \<le> g f"
  proof
    fix e assume e: "e \<in> S"
    have fin: "finite S'" using assms(1,2) by (rule rev_finite_subset)
    have "Max (g ` S) = Max (g ` S')" "S' \<noteq> {}" using eq e assms(3) by (auto simp: greatest_of_def split: if_splits)
    then have "g e \<le> Max (g ` S')" "Max (g ` S') \<in> g ` S'" using e assms(1) fin by (metis Max_ge finite_imageI imageI, simp)
    then show "\<exists>f\<in>S'. g e \<le> g f" by (metis imageE)
  qed
next
  assume "\<forall>e\<in>S. \<exists>f\<in>S'. g e \<le> g f"
  then show "greatest_of g S' = greatest_of g S" using greatest_of_dominated [OF assms(1,2), of g] by auto
qed

lemma checked_succ_eq: "checked_add v (1 :: u64) = checked_add w 1 \<longleftrightarrow> v = w"
proof (cases "checked_add v 1 = None \<and> checked_add w 1 = None")
  case True
  then have "unat v = unat w" using unat_lt2p [of v] unat_lt2p [of w] by (simp add: checked_add_None)
  with True show ?thesis by (simp add: word_unat_eq_iff)
next
  case False
  then show ?thesis by (auto simp: checked_add_def)
qed

lemma next_sequence_kept:
  assumes wf: "log_wf cr l" "log_wf cr l'" and S: "S = {x \<in> conv_set (l_events l) c. author x = a}"
    and S': "S' = {x \<in> conv_set (l_events l') c. author x = a}" "S' \<subseteq> S" "S \<noteq> {} \<longrightarrow> S' \<noteq> {}"
  shows "next_sequence l' c a = next_sequence l c a \<longleftrightarrow> (\<forall>e\<in>S. \<exists>f\<in>S'. seq e \<le> seq f)"
proof -
  have "finite S" using log_wfD(2) [OF wf(1), of c] by (simp add: S)
  note g = greatest_of_kept [OF this S'(2,3), of seq]
  have next_eq: "next_sequence l c a = (case checked_add v 1 of None \<Rightarrow> Inl SequenceExhausted | Some n \<Rightarrow> Inr n)"
    if "v = entry_or 0 (entry_or Map.empty (l_version l) c) a" for l v using that by (simp add: next_sequence_def)
  have inj: "(case x of None \<Rightarrow> Inl SequenceExhausted | Some n \<Rightarrow> Inr n) = (case y of None \<Rightarrow> Inl SequenceExhausted | Some n \<Rightarrow> Inr n) \<longleftrightarrow> x = y"
    for x y :: "u64 option" by (cases x; cases y) auto
  have "next_sequence l' c a = next_sequence l c a \<longleftrightarrow>
      (case greatest_of seq S' of None \<Rightarrow> 0 | Some v \<Rightarrow> v) = (case greatest_of seq S of None \<Rightarrow> 0 | Some v \<Rightarrow> v)"
    unfolding next_eq [OF refl] inj checked_succ_eq version_entry [OF wf(1)] version_entry [OF wf(2)] S S'(1) by (rule refl)
  also have "\<dots> \<longleftrightarrow> greatest_of seq S' = greatest_of seq S"
    using S'(2,3) by (auto simp: greatest_of_def)
  finally show ?thesis using g by simp
qed

text \<open>
  Nothing but superseded profiles is gone; the heads and the clock a new event starts from stay, and
  an author's next sequence number stays exactly when what is left of theirs reaches every number
  they had, as it does where their numbers follow the log's order.
\<close>

definition compaction_safe :: "event_log \<Rightarrow> event_log \<Rightarrow> bool" where
  "compaction_safe l l' \<longleftrightarrow>
     ran (l_events l') \<subseteq> ran (l_events l)
     \<and> (\<forall>e \<in> ran (l_events l) - ran (l_events l').
          kind e = Profile \<and> (\<forall>h\<in>ran (l_events l). ev_id e \<notin> set (parents h))
          \<and> (\<exists>f g. {f, g} \<subseteq> ran (l_events l') \<and> order_key_of e < order_key_of f \<and> order_key_of f < order_key_of g
               \<and> (\<forall>h\<in>{f, g}. kind h = Profile \<and> conversation_id h = conversation_id e \<and> author h = author e)))
     \<and> (\<forall>c. log_heads l' c = log_heads l c \<and> prepare l' c = prepare l c)
     \<and> (\<forall>c a. next_sequence l' c a = next_sequence l c a \<longleftrightarrow>
          (\<forall>e\<in>conv_set (l_events l) c. author e = a \<longrightarrow> (\<exists>f\<in>conv_set (l_events l') c. author f = a \<and> seq e \<le> seq f)))
     \<and> (\<forall>c a. (\<forall>e\<in>conv_set (l_events l) c. \<forall>f\<in>conv_set (l_events l) c.
             author e = a \<longrightarrow> author f = a \<longrightarrow> order_key_of e < order_key_of f \<longrightarrow> seq e \<le> seq f)
          \<longrightarrow> next_sequence l' c a = next_sequence l c a)"

lemma compaction_safe_refl: "compaction_safe l l"
  by (auto simp: compaction_safe_def)

lemma superseded_gone:
  assumes wf: "log_wf cr l" and ran: "ran (l_events l') = {e \<in> ran (l_events l). ev_id e \<notin> superseded_in l C}"
    and e: "e \<in> ran (l_events l) - ran (l_events l')"
  shows "kind e = Profile \<and> (\<forall>h\<in>ran (l_events l). ev_id e \<notin> set (parents h))
      \<and> (\<exists>f g. {f, g} \<subseteq> ran (l_events l') \<and> order_key_of e < order_key_of f \<and> order_key_of f < order_key_of g
           \<and> (\<forall>h\<in>{f, g}. kind h = Profile \<and> conversation_id h = conversation_id e \<and> author h = author e))"
proof -
  have "ev_id e \<in> superseded_in l C" using e unfolding ran by simp
  from superseded_in_spec [OF wf this] obtain e' f g where
    s: "{e', f, g} \<subseteq> ran (l_events l)" "ev_id e' = ev_id e" "kind e' = Profile"
    "\<forall>h\<in>{f, g}. kind h = Profile \<and> conversation_id h = conversation_id e' \<and> author h = author e' \<and> ev_id h \<notin> superseded_in l C"
    "order_key_of e' < order_key_of f" "order_key_of f < order_key_of g" "\<forall>h\<in>ran (l_events l). ev_id e \<notin> set (parents h)"
    by blast
  have same: "e' = e" using event_dag_lookup [OF log_wfD(1) [OF wf], of "ev_id e"] s(1,2) e by (metis DiffD1 insert_subset option.inject)
  have kept: "{f, g} \<subseteq> ran (l_events l')" unfolding ran using s(1,4) by auto
  show ?thesis using s(3-7) kept unfolding same by (intro conjI exI [of _ f] exI [of _ g]) simp_all
qed

text \<open>So an event that is gone has a later one left by the same author.\<close>

lemma superseded_by:
  assumes "log_wf cr l" and "ran (l_events l') = {e \<in> ran (l_events l). ev_id e \<notin> superseded_in l C}"
    and "e \<in> conv_set (l_events l) c"
  shows "\<exists>f\<in>conv_set (l_events l') c. author f = author e \<and> (e = f \<or> order_key_of e < order_key_of f)"
proof (cases "e \<in> ran (l_events l')")
  case True
  with assms(3) show ?thesis by (auto simp: conv_set_def)
next
  case False
  then obtain f where "f \<in> ran (l_events l')" "order_key_of e < order_key_of f" "conversation_id f = conversation_id e" "author f = author e"
    using superseded_gone [OF assms(1,2), of e] assms(3) by (auto simp: conv_set_def)
  with assms(3) show ?thesis by (intro bexI [of _ f]) (auto simp: conv_set_def)
qed

lemma prepare_kept:
  assumes wf: "log_wf cr l" "log_wf cr l'" and ran: "ran (l_events l') = {e \<in> ran (l_events l). ev_id e \<notin> superseded_in l C}"
    and heads: "log_heads l' c = log_heads l c"
  shows "prepare l' c = prepare l c"
proof -
  have "\<exists>f\<in>conv_set (l_events l') c. lamport e \<le> lamport f" if e: "e \<in> conv_set (l_events l) c" for e
  proof -
    obtain f where "f \<in> conv_set (l_events l') c" "e = f \<or> order_key_of e < order_key_of f"
      using superseded_by [OF wf(1) ran e] by blast
    moreover then have "lamport e \<le> lamport f" by auto
    ultimately show ?thesis by blast
  qed
  moreover have "conv_set (l_events l') c \<subseteq> conv_set (l_events l) c" using ran by (auto simp: conv_set_def)
  ultimately have "greatest_of lamport (conv_set (l_events l) c) = greatest_of lamport (conv_set (l_events l') c)"
    using log_wfD(2) [OF wf(1), of c] by (intro greatest_of_dominated)
  then show ?thesis by (simp only: heads prepare_def lamport_entry [OF wf(1)] lamport_entry [OF wf(2)])
qed

lemma superseded_dropped_safe:
  assumes wf: "log_wf cr l" "log_wf cr l'" and ran: "ran (l_events l') = {e \<in> ran (l_events l). ev_id e \<notin> superseded_in l C}"
  shows "compaction_safe l l'"
proof -
  note gone = superseded_gone [OF wf(1) ran] and by_other = superseded_by [OF wf(1) ran]
  have "e \<in> ran (l_events l) \<longleftrightarrow> e \<in> ran (l_events l')" if "kind e \<noteq> Profile" for e
    using gone [of e] that ran by blast
  then have heads: "log_heads l' c = log_heads l c" for c
    by (intro heads_cong [OF wf(2,1)]) (auto simp: conv_set_def)
  have sub: "conv_set (l_events l') c \<subseteq> conv_set (l_events l) c" for c using ran by (auto simp: conv_set_def)
  have seqs: "next_sequence l' c a = next_sequence l c a \<longleftrightarrow>
      (\<forall>e\<in>conv_set (l_events l) c. author e = a \<longrightarrow> (\<exists>f\<in>conv_set (l_events l') c. author f = a \<and> seq e \<le> seq f))" for c a
  proof (subst next_sequence_kept [OF wf refl refl])
    show "{x \<in> conv_set (l_events l') c. author x = a} \<subseteq> {x \<in> conv_set (l_events l) c. author x = a}" using sub by blast
    show "{x \<in> conv_set (l_events l) c. author x = a} \<noteq> {} \<longrightarrow> {x \<in> conv_set (l_events l') c. author x = a} \<noteq> {}"
      using by_other [of _ c] by blast
  qed blast
  have follow: "next_sequence l' c a = next_sequence l c a"
    if mono: "\<forall>e\<in>conv_set (l_events l) c. \<forall>f\<in>conv_set (l_events l) c.
      author e = a \<longrightarrow> author f = a \<longrightarrow> order_key_of e < order_key_of f \<longrightarrow> seq e \<le> seq f" for c a
    unfolding seqs
  proof (intro ballI impI)
    fix e assume e: "e \<in> conv_set (l_events l) c" "author e = a"
    then obtain f where f: "f \<in> conv_set (l_events l') c" "author f = author e" "e = f \<or> order_key_of e < order_key_of f"
      using by_other by blast
    then have "seq e \<le> seq f" using mono e sub [of c] by auto
    with f e show "\<exists>f\<in>conv_set (l_events l') c. author f = a \<and> seq e \<le> seq f" by auto
  qed
  have "ran (l_events l') \<subseteq> ran (l_events l)" using ran by blast
  with gone heads prepare_kept [OF wf ran heads] seqs follow show ?thesis unfolding compaction_safe_def by blast
qed

section \<open>Properties\<close>

text \<open>
  C35. A durable log survives a crash at any point: whatever operations it went through on whatever
  faulty disks, batches without repeated events among them, reopening the bytes its file holds rebuilds exactly the log that was in memory or,
  where the last append could be neither finished nor undone, that log with the one event, validated
  before it was written.
\<close>

theorem durable_log_recovers:
  assumes "store_coded env" and "lists_keys enum" and "durable_history cr env password enum d"
  shows "\<exists>d'. durable_open env good_disk fresh password (Some (rl_file (dl_file d))) = Inr d'
    \<and> log_wf cr (dl_log d')
    \<and> (dl_log d' = dl_log d
       \<or> (\<exists>e. rl_poisoned (dl_file d) \<and> event_valid cr e \<and> fresh_event (l_events (dl_log d)) e
            \<and> dl_log d' = index_trusted (dl_log d) e))"
  using reopen_ok [OF durable_history_ok [OF assms], of fresh] durable_okD(1) by blast

text \<open>
  C36. States are well formed and no operation gets stuck: in every history the indexes are those of
  a valid event graph, a cached fingerprint is the one of the events held, and neither retention,
  dropping, compaction nor maintenance reaches one of the \<^verbatim>\<open>expect\<close> calls or subtractions
  that would panic, whatever the disk does.
\<close>

theorem durable_log_well_formed:
  assumes "store_coded env" and "lists_keys enum" and "durable_history cr env password enum d"
    and "\<forall>i. length (nonces i) = 12"
  shows "log_wf cr (dl_log d)
    \<and> fst (cached_fingerprint_and_len cr d c) = (fingerprint cr (map ev_id (log_events (dl_log d) c)), conversation_len d c)
    \<and> fst (retain_conversations env disk nonces enum d keep) \<noteq> Inl Panicked
    \<and> fst (drop_conversation env disk nonces enum d c) \<noteq> Inl Panicked
    \<and> fst (compact_superseded_profiles env disk nonces enum d c) \<noteq> Inl Panicked
    \<and> fst (drain_one_profile_compaction_at env disk nonces enum d now) \<noteq> Inl Panicked"
proof -
  note ok = durable_history_ok [OF assms(1-3)]
  have n: "\<And>i. length (nonces i) = 12" using assms(4) by simp
  have keeps: "r \<noteq> Inl Panicked" if "keeps_only cr env password d S r d'" for r :: "failure + nat" and d' S
    using that by (cases r) (auto simp: keeps_only_def)
  have "fst (retain_conversations env disk nonces enum d keep) \<noteq> Inl Panicked"
    using keeps retain_conversations_ok [of env nonces enum cr password d disk keep] assms(1,2) n ok by (metis prod.collapse)
  moreover have "fst (drop_conversation env disk nonces enum d c) \<noteq> Inl Panicked"
    using keeps drop_conversation_ok [of env nonces enum cr password d disk c] assms(1,2) n ok by (metis prod.collapse)
  moreover have "fst (compact_superseded_profiles env disk nonces enum d c) \<noteq> Inl Panicked"
    using compact_ok [of env nonces enum cr password d disk "[c]" None] assms(1,2) n ok
    unfolding compact_superseded_profiles_def compacts_def by (metis prod.collapse)
  moreover have "fst (drain_one_profile_compaction_at env disk nonces enum d now) \<noteq> Inl Panicked"
    using drain_ok [of env nonces enum cr password d disk now] assms(1,2) n ok by (metis prod.collapse)
  moreover have "fst (cached_fingerprint_and_len cr d c)
      = (fingerprint cr (map ev_id (log_events (dl_log d) c)), conversation_len d c)"
    using fingerprint_cached [OF ok, of c] by (metis prod.collapse)
  ultimately show ?thesis using durable_okD(1) [OF ok] by blast
qed

text \<open>
  C37. Compacting profiles loses nothing that counts: every event that is gone is a profile no event
  refers to, of which the same author has two newer ones left in the conversation; the heads and the
  clock every new event builds on stay the same; an author's next sequence number stays the same
  exactly when what is left of theirs reaches every number they had, in particular where their
  numbers follow the log's order. The count reported is the number of events gone; on a sound disk
  with events that fit a record it is all superseded profiles once the compaction is due, else none.
\<close>

theorem compaction_keeps_history:
  assumes "store_coded env" and "lists_keys enum" and "durable_history cr env password enum d"
    and "\<forall>i. length (nonces i) = 12"
    and "compact_profile_conversations env disk nonces enum d cs at = (r, d')"
  shows "log_wf cr (dl_log d') \<and> compaction_safe (dl_log d) (dl_log d')
    \<and> (\<forall>n. r = Inr n \<longrightarrow> n = card (ran (l_events (dl_log d)) - ran (l_events (dl_log d'))))
    \<and> (disk = good_disk \<and> \<not> rl_poisoned (dl_file d) \<and> (\<forall>e\<in>ran (l_events (dl_log d)). storable env (rl_key (dl_file d)) e)
       \<longrightarrow> r = Inr (if compaction_due enum (dl_log d) cs then card (superseded_in (dl_log d) (set cs)) else 0))"
proof -
  note ok = durable_history_ok [OF assms(1-3)]
  have n: "\<And>i. length (nonces i) = 12" using assms(4) by simp
  have good: "disk = good_disk \<and> \<not> rl_poisoned (dl_file d) \<and> (\<forall>e\<in>ran (l_events (dl_log d)). storable env (rl_key (dl_file d)) e)
       \<longrightarrow> r = Inr (if compaction_due enum (dl_log d) cs then card (superseded_in (dl_log d) (set cs)) else 0)"
    using good_compaction [of cr env password d nonces enum cs at r d'] ok n assms(2,5) by blast
  have c: "compacts cr env password d (set cs) r d'" using compact_ok [of env nonces enum cr password d disk cs at r d'] assms(1,2,5) n ok by blast
  then have ok': "durable_ok cr env password d'" by (simp add: compacts_def)
  note wf = durable_okD(1) [OF ok] durable_okD(1) [OF ok']
  from c consider (same) "dl_log d' = dl_log d" "r = Inr 0 \<or> (\<exists>f. r = Inl f)"
    | (dropped) "ran (l_events (dl_log d')) = {e \<in> ran (l_events (dl_log d)). ev_id e \<notin> superseded_in (dl_log d) (set cs)}"
      "r = Inr (card (superseded_in (dl_log d) (set cs)))"
    unfolding compacts_def by blast
  then show ?thesis
  proof cases
    case same
    then show ?thesis using wf good compaction_safe_refl by auto
  next
    case dropped
    then show ?thesis
      using wf good superseded_dropped_safe [OF wf dropped(1)] superseded_card [OF wf(1), of "set cs"] by simp
  qed
qed

text \<open>
  C38. Two devices that reconcile end with the union of the conversation on disk: with sound disks and
  events that fit a record, the exchange over the durable logs leaves the logs and the reports that
  the exchange over logs in memory gives, and reopening either file afterwards gives that merged log.
\<close>

theorem durable_replicas_converge:
  assumes "store_coded env" and "\<forall>bs. length (rng bs) = 12" and "lists_keys enum"
    and "durable_history cr env pa enum a" and "\<not> rl_poisoned (dl_file a)"
    and "durable_history cr env pb enum b" and "\<not> rl_poisoned (dl_file b)"
    and "mergeable (l_events (dl_log a)) (l_events (dl_log b)) c"
    and "\<forall>e\<in>conv_set (l_events (dl_log a)) c \<union> conv_set (l_events (dl_log b)) c.
      storable env (rl_key (dl_file a)) e \<and> storable env (rl_key (dl_file b)) e"
    and "fits_one_frame ser (conv_set (l_events (dl_log a)) c \<union> conv_set (l_events (dl_log b)) c)"
  shows "\<exists>a' b' reports a'' b''.
    reconcile ser (durable_ops cr env good_disk rng ser) (durable_ops cr env good_disk rng ser) a b c = ((a', b'), Inr reports)
    \<and> reconcile ser (event_log_ops cr ser) (event_log_ops cr ser) (dl_log a) (dl_log b) c = ((dl_log a', dl_log b'), Inr reports)
    \<and> durable_open env good_disk fa pa (Some (rl_file (dl_file a'))) = Inr a'' \<and> dl_log a'' = dl_log a'
    \<and> durable_open env good_disk fb pb (Some (rl_file (dl_file b'))) = Inr b'' \<and> dl_log b'' = dl_log b'
    \<and> ran (l_events (dl_log a'')) = ran (l_events (dl_log a)) \<union> conv_set (l_events (dl_log b)) c
    \<and> ran (l_events (dl_log b'')) = ran (l_events (dl_log b)) \<union> conv_set (l_events (dl_log a)) c"
proof -
  have ready: "durable_ready cr env pa (rl_key (dl_file a)) a" "durable_ready cr env pb (rl_key (dl_file b)) b"
    using durable_history_ok [OF assms(1,3,4)] durable_history_ok [OF assms(1,3,6)] assms(5,7)
    by (simp_all add: durable_ready_def)
  obtain a' b' reports where r: "reconcile ser (durable_ops cr env good_disk rng ser) (durable_ops cr env good_disk rng ser) a b c
      = ((a', b'), Inr reports)"
    "reconcile ser (event_log_ops cr ser) (event_log_ops cr ser) (dl_log a) (dl_log b) c = ((dl_log a', dl_log b'), Inr reports)"
    "durable_ready cr env pa (rl_key (dl_file a)) a'" "durable_ready cr env pb (rl_key (dl_file b)) b'"
    "ran (l_events (dl_log a')) = ran (l_events (dl_log a)) \<union> conv_set (l_events (dl_log b)) c"
    "ran (l_events (dl_log b')) = ran (l_events (dl_log b)) \<union> conv_set (l_events (dl_log a)) c"
    using reconcile_log [OF assms(1,2) ready assms(8,9,10)] by blast
  have "\<exists>d'. durable_open env good_disk fresh p (Some (rl_file (dl_file d))) = Inr d' \<and> dl_log d' = dl_log d"
    if "durable_ready cr env p key d" for fresh p key d
    using reopen_ok [of cr env p d fresh] that by (auto simp: durable_ready_def)
  from this [OF r(3), of fa] this [OF r(4), of fb] obtain a'' b'' where
    "durable_open env good_disk fa pa (Some (rl_file (dl_file a'))) = Inr a''" "dl_log a'' = dl_log a'"
    "durable_open env good_disk fb pb (Some (rl_file (dl_file b'))) = Inr b''" "dl_log b'' = dl_log b'" by blast
  with r(1,2,5,6) show ?thesis by (intro exI [of _ a'] exI [of _ b'] exI [of _ reports] exI [of _ a''] exI [of _ b'']) simp
qed

section \<open>Witnesses\<close>

text \<open>A computable instance whose records are two messages, and an order of keys.\<close>

definition demo_event_store :: "event store_env" where
  "demo_event_store =
     \<lparr>pbkdf2_hmac = (\<lambda>password salt rounds. 7), store_encrypt = (\<lambda>key nonce bs. Some bs),
      store_decrypt = (\<lambda>key nonce ct. Some ct),
      bincode_record = (\<lambda>e. if e = demo_message 1 [] 1 then Inr [1] else if e = demo_message 2 [] 1 then Inr [2] else Inl []),
      parse_record = (\<lambda>bs. if bs = [1] then Inr (demo_message 1 [] 1) else if bs = [2] then Inr (demo_message 2 [] 1) else Inl [])\<rparr>"

definition demo_enum :: key_order where
  "demo_enum S = map ConversationId (sorted_list_of_set (cid_bytes ` S))"

lemma demo_enum_lists: "lists_keys demo_enum"
  by (auto simp: lists_keys_def demo_enum_def distinct_map image_image inj_on_def)

lemma demo_event_store_coded: "store_coded demo_event_store"
  by (auto simp: store_coded_def demo_event_store_def split: if_splits)

lemma demo_storable: "k = 1 \<or> k = 2 \<Longrightarrow> storable demo_event_store key (demo_message k [] 1)"
  by (auto simp: storable_def demo_event_store_def)

lemma demo_durable:
  assumes "k = 1 \<or> k = 2"
  shows "\<exists>d. durable_history demo_env demo_event_store ''pw'' demo_enum d \<and> \<not> rl_poisoned (dl_file d) \<and> rl_key (dl_file d) = 7
    \<and> ran (l_events (dl_log d)) = {demo_message k [] 1}
    \<and> conv_set (l_events (dl_log d)) (ConversationId 1) = {demo_message k [] 1}"
proof -
  let ?e = "demo_message k [] 1" and ?open = "durable_open demo_event_store good_disk (replicate 16 2) ''pw'' None"
  obtain d0 where d0: "?open = Inr d0" "rl_key (dl_file d0) = 7" "\<not> rl_poisoned (dl_file d0)"
    by (simp add: durable_open_def record_log_open_def open_with_visitor_def good_disk_def key_from_password_def demo_event_store_def)
  have c: "durable_ok demo_env demo_event_store ''pw'' d0" "dl_log d0 = event_log_default"
    using durable_create_ok [OF _ d0(1)] by simp_all
  have h0: "durable_history demo_env demo_event_store ''pw'' demo_enum d0"
    by (rule durable_history.created [OF _ d0(1)]) simp
  obtain l where l: "log_append demo_env event_log_default ?e = Inr (Appended, l)" using demo_log_exists by blast
  have "durable_ready demo_env demo_event_store ''pw'' 7 d0" using c(1) d0 by (simp add: durable_ready_def)
  from durable_ingest_log [OF demo_event_store_coded _ this demo_storable [OF assms], of "\<lambda>_. replicate 12 0"]
  obtain d where d: "durable_ingest demo_env demo_event_store good_disk (\<lambda>_. replicate 12 0) d0 ?e = (Inr Appended, d)"
    "dl_log d = l" "durable_ready demo_env demo_event_store ''pw'' 7 d"
    using l c(2) by (auto simp: log_ingest_def)
  then have "durable_append demo_env demo_event_store good_disk (replicate 12 0) d0 ?e = (Inr Appended, d)"
    by (auto simp: durable_ingest_def split: prod.splits sum.splits)
  then have "durable_history demo_env demo_event_store ''pw'' demo_enum d"
    by (intro durable_history.appended [OF h0, of "replicate 12 0"]) simp_all
  then show ?thesis using d(2,3) demo_log [OF l] by (auto simp: durable_ready_def)
qed

text \<open>Ten profiles by one author, of which eight are superseded.\<close>

definition demo_profile :: "u64 \<Rightarrow> event" where
  "demo_profile k = event_new demo_env (demo_device 7) (ConversationId 1) k [] k 0 Profile [1]"

lemma demo_profile_fields [simp]:
  "ev_id (demo_profile k) = EventId (ucast (ucast k :: u8))" "conversation_id (demo_profile k) = ConversationId 1"
  "author (demo_profile k) = Author 7" "seq (demo_profile k) = k" "parents (demo_profile k) = []" "lamport (demo_profile k) = k"
  "kind (demo_profile k) = Profile" "ciphertext (demo_profile k) = [1]" "event_valid demo_env (demo_profile k)"
  by (simp_all add: demo_profile_def event_valid_def)

definition demo_profile_store :: "event store_env" where
  "demo_profile_store = demo_event_store
     \<lparr>bincode_record := (\<lambda>e. if e = demo_profile (seq e) \<and> seq e < 256 then Inr [ucast (seq e)] else Inl []),
      parse_record := (\<lambda>bs. if length bs = 1 then Inr (demo_profile (ucast (hd bs))) else Inl [])\<rparr>"

lemma small_byte: "k < 256 \<Longrightarrow> ucast (ucast k :: u8) = (k :: u64)"
proof -
  assume "k < 256"
  then have "unat k < 256" by (simp add: word_less_nat_alt)
  then have "unat (ucast (ucast k :: u8) :: u64) = unat k" by (simp add: unsigned_ucast_eq unsigned_take_bit_eq take_bit_nat_eq_self)
  then show ?thesis by (simp only: word_unat_eq_iff)
qed

lemma small_ids: "j < 256 \<Longrightarrow> k < 256 \<Longrightarrow> ev_id (demo_profile j) = ev_id (demo_profile k) \<Longrightarrow> j = k"
proof -
  assume s: "j < 256" "k < 256" and eq: "ev_id (demo_profile j) = ev_id (demo_profile k)"
  have up: "unat (ucast b :: array32) = unat b" for b :: u8
    using unat_lt2p [of b] by (simp add: unsigned_ucast_eq take_bit_nat_eq_self)
  have "(ucast j :: u8) = ucast k" using eq up [of "ucast j"] up [of "ucast k"] by (simp add: word_unat_eq_iff)
  then show "j = k" using small_byte [OF s(1)] small_byte [OF s(2)] by metis
qed

lemma demo_profile_store_coded: "store_coded demo_profile_store"
  unfolding store_coded_def demo_profile_store_def demo_event_store_def by (simp add: small_byte)

lemma demo_profile_storable: "k < 256 \<Longrightarrow> storable demo_profile_store key (demo_profile k)"
  by (simp add: storable_def demo_profile_store_def demo_event_store_def)

lemma demo_durable_profiles:
  assumes "distinct ks" and "\<forall>k\<in>set ks. k < 256"
  shows "\<exists>d. durable_history demo_env demo_profile_store ''pw'' demo_enum d
    \<and> durable_ready demo_env demo_profile_store ''pw'' 7 d \<and> ran (l_events (dl_log d)) = demo_profile ` set ks"
  using assms
proof (induction ks rule: rev_induct)
  case Nil
  let ?open = "durable_open demo_profile_store good_disk (replicate 16 2) ''pw'' None"
  obtain d0 where d0: "?open = Inr d0" "rl_key (dl_file d0) = 7" "\<not> rl_poisoned (dl_file d0)"
    by (simp add: durable_open_def record_log_open_def open_with_visitor_def good_disk_def key_from_password_def
        demo_profile_store_def demo_event_store_def)
  have "durable_ok demo_env demo_profile_store ''pw'' d0" "dl_log d0 = event_log_default"
    using durable_create_ok [OF _ d0(1)] by simp_all
  moreover have "durable_history demo_env demo_profile_store ''pw'' demo_enum d0"
    by (rule durable_history.created [OF _ d0(1)]) simp
  ultimately show ?case using d0 by (auto simp: durable_ready_def event_log_default_def)
next
  case (snoc k ks)
  then obtain d where d: "durable_history demo_env demo_profile_store ''pw'' demo_enum d"
    "durable_ready demo_env demo_profile_store ''pw'' 7 d" "ran (l_events (dl_log d)) = demo_profile ` set ks" by auto
  let ?e = "demo_profile k"
  have wf: "log_wf demo_env (dl_log d)" using d(2) by (auto simp: durable_ready_def durable_ok_def)
  have k: "k < 256" "k \<notin> set ks" "\<forall>j\<in>set ks. j < 256" using snoc.prems by auto
  have key: "l_events (dl_log d) (ev_id ?e) = None"
  proof (rule ccontr)
    assume "l_events (dl_log d) (ev_id ?e) \<noteq> None"
    then obtain f where f: "l_events (dl_log d) (ev_id ?e) = Some f" by blast
    have "ev_id f = ev_id ?e" by (rule event_dagD(2) [OF log_wfD(1) [OF wf] f])
    moreover obtain j where "f = demo_profile j" "j \<in> set ks" using ranI [of "l_events (dl_log d)", OF f] unfolding d(3) by blast
    ultimately show False using small_ids [of j k] k by auto
  qed
  have "fresh_event (l_events (dl_log d)) ?e"
    unfolding fresh_event_def d(3) using key k(2) by auto
  then obtain l where l: "log_ingest demo_env (dl_log d) ?e = (Inr Appended, l)" "l_events l = (l_events (dl_log d))(ev_id ?e \<mapsto> ?e)"
    using log_ingest_fresh [OF wf, of ?e] by auto
  from durable_ingest_log [OF demo_profile_store_coded _ d(2) demo_profile_storable [OF k(1)], of "\<lambda>_. replicate 12 0"] l(1)
  obtain d' where d': "durable_ingest demo_env demo_profile_store good_disk (\<lambda>_. replicate 12 0) d ?e = (Inr Appended, d')"
    "dl_log d' = l" "durable_ready demo_env demo_profile_store ''pw'' 7 d'" by auto
  then have "durable_append demo_env demo_profile_store good_disk (replicate 12 0) d ?e = (Inr Appended, d')"
    by (auto simp: durable_ingest_def split: prod.splits sum.splits)
  then have "durable_history demo_env demo_profile_store ''pw'' demo_enum d'"
    by (intro durable_history.appended [OF d(1), of "replicate 12 0"]) simp_all
  moreover have "ran (l_events (dl_log d')) = demo_profile ` set (ks @ [k])"
    unfolding d'(2) l(2) ran_map_upd [of "l_events (dl_log d)", OF key] d(3) by simp
  ultimately show ?case using d'(3) by blast
qed

abbreviation demo_numbers :: "u64 list" where
  "demo_numbers \<equiv> [1, 2, 3, 4, 5, 6, 7, 8, 9, 10]"

lemma demo_profile_events:
  assumes wf: "log_wf demo_env l" and "ran (l_events l) = demo_profile ` set demo_numbers"
  shows "log_events l (ConversationId 1) = map demo_profile demo_numbers" and "conversations l = {ConversationId 1}"
proof -
  have s: "conv_set (l_events l) (ConversationId 1) = set (map demo_profile demo_numbers)" using assms(2) by (auto simp: conv_set_def)
  have "map order_key_of (log_events l (ConversationId 1)) = sorted_list_of_set (set (map order_key_of (map demo_profile demo_numbers)))"
    unfolding log_events_keys(1) [OF wf] s by simp
  also have "\<dots> = map order_key_of (map demo_profile demo_numbers)"
    by (rule sorted_list_of_set.idem_if_sorted_distinct) simp_all
  finally have "map fst (map order_key_of (log_events l (ConversationId 1))) = map fst (map order_key_of (map demo_profile demo_numbers))" by simp
  then have k: "map lamport (log_events l (ConversationId 1)) = demo_numbers" by (simp add: comp_def)
  have "map demo_profile (map lamport (log_events l (ConversationId 1))) = log_events l (ConversationId 1)"
    unfolding map_map by (rule map_idI) (use log_events_keys(2) [OF wf, of "ConversationId 1"] s in auto)
  then show "log_events l (ConversationId 1) = map demo_profile demo_numbers" by (simp only: k)
  show "conversations l = {ConversationId 1}" unfolding conversations_wf(1) [OF wf] assms(2) by auto
qed

lemma demo_superseded:
  assumes "log_events l (ConversationId 1) = map demo_profile demo_numbers"
  shows "superseded_in l {ConversationId 1} = ev_id ` demo_profile ` set [1, 2, 3, 4, 5, 6, 7, 8]"
  by (simp add: superseded_profile_ids_def assms referenced_ids_def push_newest_def entry_or_def Let_def del: set_filter)

lemma demo_compaction_due:
  assumes wf: "log_wf demo_env l" and "ran (l_events l) = demo_profile ` set demo_numbers"
  shows "card (superseded_in l {ConversationId 1}) = 8" and "compaction_due demo_enum l [ConversationId 1]"
proof -
  note e = demo_profile_events [OF assms]
  note s = demo_superseded [OF e(1)]
  show c: "card (superseded_in l {ConversationId 1}) = 8" unfolding s by simp
  have "demo_enum {ConversationId 1} = [ConversationId 1]" by (simp add: demo_enum_def)
  then have "kept_events l (demo_enum (conversations l)) = map demo_profile demo_numbers" by (simp add: kept_events_def e)
  then show "compaction_due demo_enum l [ConversationId 1]"
    using c s by (simp add: compaction_due_def COMPACT_PROFILE_MIN_def PROFILE_RECLAIM_RATIO_def tally_def stored_cost_def
      saturating_add_def saturating_mul_def)
qed

theorem durable_log_recovers_witness:
  "\<exists>(d :: durable_log) d'. ran (l_events (dl_log d)) = {demo_message 1 [] 1}
    \<and> durable_open demo_event_store good_disk [] ''pw'' (Some (rl_file (dl_file d))) = Inr d' \<and> dl_log d' = dl_log d"
proof -
  obtain d where d: "durable_history demo_env demo_event_store ''pw'' demo_enum d" "\<not> rl_poisoned (dl_file d)"
    "ran (l_events (dl_log d)) = {demo_message 1 [] 1}" using demo_durable [of 1] by blast
  from durable_log_recovers [OF demo_event_store_coded demo_enum_lists d(1), of "[]"] d(2) obtain d' where
    "durable_open demo_event_store good_disk [] ''pw'' (Some (rl_file (dl_file d))) = Inr d'" "dl_log d' = dl_log d" by auto
  with d(3) show ?thesis by blast
qed

theorem durable_log_well_formed_witness:
  "\<exists>d. ran (l_events (dl_log d)) = {demo_message 1 [] 1}
    \<and> fst (retain_conversations demo_event_store good_disk (\<lambda>_. replicate 12 0) demo_enum d {}) \<noteq> Inl Panicked"
proof -
  obtain d where "durable_history demo_env demo_event_store ''pw'' demo_enum d"
    "ran (l_events (dl_log d)) = {demo_message 1 [] 1}" using demo_durable [of 1] by blast
  with durable_log_well_formed [OF demo_event_store_coded demo_enum_lists, of demo_env "''pw''" d "\<lambda>_. replicate 12 0"]
  show ?thesis by auto
qed

theorem compaction_keeps_history_witness:
  "\<exists>d d'. ran (l_events (dl_log d)) = demo_profile ` {1, 2, 3, 4, 5, 6, 7, 8, 9, 10}
    \<and> compact_profile_conversations demo_profile_store good_disk (\<lambda>_. replicate 12 0) demo_enum d [ConversationId 1] None = (Inr 8, d')
    \<and> card (ran (l_events (dl_log d)) - ran (l_events (dl_log d'))) = 8 \<and> compaction_safe (dl_log d) (dl_log d')"
proof -
  obtain d where d: "durable_history demo_env demo_profile_store ''pw'' demo_enum d" "durable_ready demo_env demo_profile_store ''pw'' 7 d"
    "ran (l_events (dl_log d)) = demo_profile ` set demo_numbers"
    using demo_durable_profiles [of demo_numbers] by (auto simp: word_less_nat_alt)
  have wf: "log_wf demo_env (dl_log d)" "\<not> rl_poisoned (dl_file d)" using d(2) by (auto simp: durable_ready_def durable_ok_def)
  note due = demo_compaction_due [OF wf(1) d(3)]
  obtain r d' where r: "compact_profile_conversations demo_profile_store good_disk (\<lambda>_. replicate 12 0) demo_enum d
      [ConversationId 1] None = (r, d')" by fastforce
  have "\<forall>e\<in>ran (l_events (dl_log d)). storable demo_profile_store (rl_key (dl_file d)) e"
    unfolding d(3) using demo_profile_storable by auto
  with compaction_keeps_history [OF demo_profile_store_coded demo_enum_lists d(1) _ r] wf(2) due
  have "r = Inr 8" "compaction_safe (dl_log d) (dl_log d')" "card (ran (l_events (dl_log d)) - ran (l_events (dl_log d'))) = 8" by auto
  with r d(3) show ?thesis by auto
qed
theorem durable_replicas_converge_witness:
  "\<exists>a b a'' b''. ran (l_events (dl_log a)) = {demo_message 1 [] 1} \<and> ran (l_events (dl_log b)) = {demo_message 2 [] 1}
    \<and> (\<exists>a' b' reports. reconcile (\<lambda>_. Some 300) (durable_ops demo_env demo_event_store good_disk (\<lambda>_. replicate 12 0) (\<lambda>_. Some 300))
          (durable_ops demo_env demo_event_store good_disk (\<lambda>_. replicate 12 0) (\<lambda>_. Some 300)) a b (ConversationId 1)
          = ((a', b'), Inr reports)
        \<and> durable_open demo_event_store good_disk [] ''pw'' (Some (rl_file (dl_file a'))) = Inr a''
        \<and> durable_open demo_event_store good_disk [] ''pw'' (Some (rl_file (dl_file b'))) = Inr b'')
    \<and> ran (l_events (dl_log a'')) = ran (l_events (dl_log b''))"
proof -
  let ?m1 = "demo_message 1 [] 1" and ?m2 = "demo_message 2 [] 1"
  obtain a where a: "durable_history demo_env demo_event_store ''pw'' demo_enum a" "\<not> rl_poisoned (dl_file a)"
    "ran (l_events (dl_log a)) = {?m1}" "conv_set (l_events (dl_log a)) (ConversationId 1) = {?m1}"
    using demo_durable [of 1] by blast
  obtain b where b: "durable_history demo_env demo_event_store ''pw'' demo_enum b" "\<not> rl_poisoned (dl_file b)"
    "ran (l_events (dl_log b)) = {?m2}" "conv_set (l_events (dl_log b)) (ConversationId 1) = {?m2}"
    using demo_durable [of 2] by blast
  have m: "mergeable (l_events (dl_log a)) (l_events (dl_log b)) (ConversationId 1)"
    using a b by (auto simp: mergeable_def)
  have s: "\<forall>e\<in>conv_set (l_events (dl_log a)) (ConversationId 1) \<union> conv_set (l_events (dl_log b)) (ConversationId 1).
      storable demo_event_store (rl_key (dl_file a)) e \<and> storable demo_event_store (rl_key (dl_file b)) e"
    unfolding a(4) b(4) using demo_storable by auto
  have "?m1 \<noteq> ?m2" using demo_message_fields(4) [of 1 "[]" 1] demo_message_fields(4) [of 2 "[]" 1] by fastforce
  then have f: "fits_one_frame (\<lambda>_. Some 300) (conv_set (l_events (dl_log a)) (ConversationId 1) \<union> conv_set (l_events (dl_log b)) (ConversationId 1))"
    unfolding a(4) b(4) by (simp add: fits_one_frame_def encoded_event_size_def saturating_sub_def SYNC_MARGIN_def)
  have n: "\<forall>bs :: bytes. length (replicate 12 (0 :: u8)) = 12" by simp
  from durable_replicas_converge [OF demo_event_store_coded n demo_enum_lists a(1,2) b(1,2) m s f, of "[]" "[]"]
  show ?thesis using a(3,4) b(3,4) by (metis Un_commute)
qed

end
