(* ===== verification/Relay_Mailbox.thy ===== *)
theory Relay_Mailbox
  imports Event_Store Double_Ratchet
begin

text \<open>
  The opaque envelopes a relay carries, from \<^verbatim>\<open>postoffice/opaque.rs\<close>. Two devices derive one
  mailbox (its id, keys and a signer of its own) from their key agreement; an event is padded to a
  fixed size, encrypted for the mailbox and signed by it, so the relay sees constant headers.

  X25519, HKDF and AES-GCM are those of \<open>ratchet_env\<close>. The bincode form of an event is a pair of
  parameters; the decoder \<open>parse_event\<close> takes the limit \<^verbatim>\<open>open\<close> gives it. The texts of errors and the wiping of
  memory have no counterpart.
\<close>

section \<open>The mailbox\<close>

record mailbox_env =
  mb_crypto :: crypto_env
  mb_ratchet :: ratchet_env
  bincode_event :: "event \<Rightarrow> bytes option"
  parse_event :: "nat \<Rightarrow> bytes \<Rightarrow> event option"

definition MAILBOX_DOMAIN :: bytes where
  "MAILBOX_DOMAIN = ascii ''mesh-talk-post-office-opaque-v2''"

definition FEDERATED_DOMAIN :: bytes where
  "FEDERATED_DOMAIN = ascii ''mesh-talk-post-office-opaque-v3''"

definition FEDERATED_ID_PREFIX :: bytes where
  "FEDERATED_ID_PREFIX = ascii ''MTF3''"

definition BUCKETS :: "nat list" where
  "BUCKETS = [512, 2048, 8192, 32768, 57344, 61440]"

definition MAX_INNER_BYTES :: nat where
  "MAX_INNER_BYTES = BUCKETS ! 5 - 4"

definition envelope_shape :: "event \<Rightarrow> bool" where
  "envelope_shape e \<longleftrightarrow>
     kind e = Message \<and> parents e = [] \<and> lamport e = 0 \<and> wall_clock e = 0 \<and> length (ciphertext e) \<ge> 28
     \<and> length (ciphertext e) - 28 \<in> set BUCKETS \<and> seq e = u64_from_le_bytes (take 8 (ciphertext e))"

datatype mailbox_error = InvalidPeer | InvalidEnvelope | TooLarge

record relay_mailbox =
  rm_id :: conversation_id
  rm_key :: array32
  rm_nonce_key :: array32
  rm_signer :: device_identity

definition is_federated_id :: "conversation_id \<Rightarrow> bool" where
  "is_federated_id i \<longleftrightarrow> take 4 (array_bytes (cid_bytes i)) = FEDERATED_ID_PREFIX"

text \<open>The two devices in the order of their keys, and what the keys are bound to.\<close>

definition ordered_pair :: "public_identity \<Rightarrow> public_identity \<Rightarrow> public_identity \<times> public_identity" where
  "ordered_pair me other =
     (if (x25519_pub me, ed25519_pub me) < (x25519_pub other, ed25519_pub other) then (me, other) else (other, me))"

definition mailbox_context :: "public_identity \<Rightarrow> public_identity \<Rightarrow> public_identity option \<Rightarrow> bytes" where
  "mailbox_context me other relay =
     (case ordered_pair me other of (fst_dev, snd_dev) \<Rightarrow>
        (if relay \<noteq> None then MAILBOX_DOMAIN else FEDERATED_DOMAIN)
        @ array_bytes (x25519_pub fst_dev) @ array_bytes (ed25519_pub fst_dev)
        @ array_bytes (x25519_pub snd_dev) @ array_bytes (ed25519_pub snd_dev)
        @ (case relay of None \<Rightarrow> [] | Some r \<Rightarrow> array_bytes (ed25519_pub r)))"

definition derive_mailbox ::
  "mailbox_env \<Rightarrow> device_identity \<Rightarrow> public_identity \<Rightarrow> public_identity option \<Rightarrow> mailbox_error + relay_mailbox" where
  "derive_mailbox env me other relay =
     (let me_public = device_public (mb_crypto env) me
      in if me_public = other then Inl InvalidPeer
         else
           let shared = x25519_dh (mb_ratchet env) (dh_secret me) (x25519_pub other)
           in if shared = 0 then Inl InvalidPeer
              else
                let material = hkdf (mb_ratchet env) (mailbox_context me_public other relay) (array_bytes shared)
                                 (ascii ''mailbox-keys'') 160;
                    id_bytes = (if relay = None then FEDERATED_ID_PREFIX @ drop 4 (take 32 material) else take 32 material)
                in Inr \<lparr>rm_id = ConversationId (array_of_bytes id_bytes),
                        rm_key = array_of_bytes (take 32 (drop 32 material)),
                        rm_nonce_key = array_of_bytes (take 32 (drop 64 material)),
                        rm_signer = \<lparr>signing_key = array_of_bytes (take 32 (drop 96 material)),
                                     dh_secret = array_of_bytes (take 32 (drop 128 material))\<rparr>\<rparr>)"

definition mailbox_new ::
  "mailbox_env \<Rightarrow> device_identity \<Rightarrow> public_identity \<Rightarrow> public_identity \<Rightarrow> mailbox_error + relay_mailbox" where
  "mailbox_new env me other relay = derive_mailbox env me other (Some relay)"

definition mailbox_federated ::
  "mailbox_env \<Rightarrow> device_identity \<Rightarrow> public_identity \<Rightarrow> mailbox_error + relay_mailbox" where
  "mailbox_federated env me other = derive_mailbox env me other None"

definition nonce_for :: "mailbox_env \<Rightarrow> relay_mailbox \<Rightarrow> event_id \<Rightarrow> bytes" where
  "nonce_for env m i =
     hkdf (mb_ratchet env) (array_bytes (rm_nonce_key m)) (array_bytes (eid_bytes i)) (ascii ''event-nonce'') 12"

definition mailbox_wrap :: "mailbox_env \<Rightarrow> relay_mailbox \<Rightarrow> event \<Rightarrow> mailbox_error + event" where
  "mailbox_wrap env m inner =
     (let cr = mb_crypto env
      in if \<not> is_canonical inner \<or> \<not> verify_integrity cr inner \<or> \<not> verify_signature cr inner then Inl InvalidEnvelope
         else
           (case bincode_event env inner of
              None \<Rightarrow> Inl InvalidEnvelope
            | Some serialized \<Rightarrow>
                if length serialized > MAX_INNER_BYTES then Inl TooLarge
                else
                  (case find (\<lambda>size. length serialized + 4 \<le> size) BUCKETS of
                     None \<Rightarrow> Inl TooLarge
                   | Some bucket \<Rightarrow>
                       let plaintext = u32_to_le_bytes (of_nat (length serialized)) @ serialized
                                         @ replicate (bucket - (4 + length serialized)) 0;
                           nonce = nonce_for env m (ev_id inner)
                       in (case aes_gcm_encrypt (mb_ratchet env) (rm_key m) nonce plaintext (array_bytes (cid_bytes (rm_id m))) of
                             None \<Rightarrow> Inl InvalidEnvelope
                           | Some ct \<Rightarrow>
                               Inr (event_new cr (rm_signer m) (rm_id m) (u64_from_le_bytes (take 8 nonce)) [] 0 0
                                      Message (nonce @ ct))))))"

definition mailbox_open :: "mailbox_env \<Rightarrow> relay_mailbox \<Rightarrow> event \<Rightarrow> mailbox_error + event" where
  "mailbox_open env m outer =
     (let cr = mb_crypto env
      in if conversation_id outer \<noteq> rm_id m
            \<or> author outer \<noteq> Author (ed25519_pub (device_public cr (rm_signer m)))
            \<or> kind outer \<noteq> Message \<or> parents outer \<noteq> [] \<or> lamport outer \<noteq> 0 \<or> wall_clock outer \<noteq> 0
            \<or> length (ciphertext outer) < 28 \<or> length (ciphertext outer) > BUCKETS ! 5 + 28
            \<or> \<not> verify_integrity cr outer \<or> \<not> verify_signature cr outer
         then Inl InvalidEnvelope
         else
           let nonce = take 12 (ciphertext outer)
           in if seq outer \<noteq> u64_from_le_bytes (take 8 nonce) then Inl InvalidEnvelope
              else
                (case aes_gcm_decrypt (mb_ratchet env) (rm_key m) nonce (drop 12 (ciphertext outer))
                        (array_bytes (cid_bytes (rm_id m))) of
                   None \<Rightarrow> Inl InvalidEnvelope
                 | Some plaintext \<Rightarrow>
                     if length plaintext \<notin> set BUCKETS then Inl InvalidEnvelope
                     else
                       let len = unat (u32_from_le_bytes (take 4 plaintext))
                       in if len > MAX_INNER_BYTES \<or> len + 4 > length plaintext
                             \<or> list_ex (\<lambda>b. b \<noteq> 0) (drop (4 + len) plaintext)
                          then Inl InvalidEnvelope
                          else
                            (case parse_event env MAX_INNER_BYTES (take len (drop 4 plaintext)) of
                               None \<Rightarrow> Inl InvalidEnvelope
                             | Some inner \<Rightarrow>
                                 if nonce_for env m (ev_id inner) \<noteq> nonce \<or> \<not> is_canonical inner
                                    \<or> \<not> verify_integrity cr inner \<or> \<not> verify_signature cr inner
                                 then Inl InvalidEnvelope
                                 else Inr inner)))"

section \<open>Lemmas\<close>

text \<open>
  What the proofs use of the crates: signatures, the cipher and the key agreement as before, the same
  X25519 for identities and agreements, key material of the length asked for up to the limit of HKDF,
  a cipher text sixteen bytes longer than its text, and an event whose encoding is within the decoder's
  limit decoding to what was encoded.
\<close>

definition mailbox_coded :: "mailbox_env \<Rightarrow> bool" where
  "mailbox_coded env \<longleftrightarrow>
     signatures_verify (mb_crypto env) \<and> aead_opens (mb_ratchet env) \<and> dh_agrees (mb_ratchet env)
     \<and> (\<forall>s. x25519_public (mb_crypto env) s = x25519_base (mb_ratchet env) s)
     \<and> (\<forall>salt ikm info n. n \<le> 255 * 32 \<longrightarrow> length (hkdf (mb_ratchet env) salt ikm info n) = n)
     \<and> (\<forall>k nonce pt aad ct. aes_gcm_encrypt (mb_ratchet env) k nonce pt aad = Some ct \<longrightarrow> length ct = length pt + 16)
     \<and> (\<forall>e bs limit. bincode_event env e = Some bs \<longrightarrow> length bs \<le> limit \<longrightarrow> parse_event env limit bs = Some e)"

lemma ordered_pair_sym:
  assumes "me \<noteq> other"
  shows "ordered_pair me other = ordered_pair other me"
proof -
  have "(x25519_pub me, ed25519_pub me) \<noteq> (x25519_pub other, ed25519_pub other)"
    using assms by (cases me; cases other) auto
  then show ?thesis unfolding ordered_pair_def by (metis less_asym linorder_neqE)
qed

text \<open>Both ends derive the same mailbox, or both refuse.\<close>

lemma derive_mailbox_sym:
  assumes "mailbox_coded env"
  shows "derive_mailbox env me (device_public (mb_crypto env) other) relay
    = derive_mailbox env other (device_public (mb_crypto env) me) relay"
proof (cases "device_public (mb_crypto env) me = device_public (mb_crypto env) other")
  case True
  then show ?thesis by (simp add: derive_mailbox_def Let_def)
next
  case False
  have "x25519_dh (mb_ratchet env) (dh_secret me) (x25519_pub (device_public (mb_crypto env) other))
      = x25519_dh (mb_ratchet env) (dh_secret other) (x25519_pub (device_public (mb_crypto env) me))"
    using assms by (simp add: mailbox_coded_def dh_agrees_def device_public_def)
  moreover have "mailbox_context (device_public (mb_crypto env) me) (device_public (mb_crypto env) other) relay
      = mailbox_context (device_public (mb_crypto env) other) (device_public (mb_crypto env) me) relay"
    unfolding mailbox_context_def ordered_pair_sym [OF False] ..
  ultimately show ?thesis using False by (simp add: derive_mailbox_def Let_def)
qed

lemma bucket_found:
  assumes "find (\<lambda>size. n + 4 \<le> size) BUCKETS = Some bucket"
  shows "bucket \<in> set BUCKETS" and "n + 4 \<le> bucket" and "bucket \<le> 61440"
proof -
  from assms show b: "bucket \<in> set BUCKETS" "n + 4 \<le> bucket" by (auto simp: find_Some_iff)
  then show "bucket \<le> 61440" by (auto simp: BUCKETS_def)
qed

lemma bucket_exists: "n \<le> MAX_INNER_BYTES \<Longrightarrow> \<exists>bucket. find (\<lambda>size. n + 4 \<le> size) BUCKETS = Some bucket"
  by (simp add: MAX_INNER_BYTES_def BUCKETS_def)

lemma wrap_opens:
  assumes env: "mailbox_coded env" and inner: "event_valid (mb_crypto env) inner"
    and enc: "bincode_event env inner = Some bs" "length bs \<le> 61436"
  shows "\<exists>outer. mailbox_wrap env m inner = Inr outer \<and> mailbox_open env m outer = Inr inner
    \<and> envelope_shape outer \<and> event_valid (mb_crypto env) outer \<and> conversation_id outer = rm_id m"
proof -
  let ?cr = "mb_crypto env" and ?rt = "mb_ratchet env" and ?aad = "array_bytes (cid_bytes (rm_id m))"
  let ?nonce = "nonce_for env m (ev_id inner)"
  have max: "length bs \<le> MAX_INNER_BYTES" using enc(2) by (simp add: MAX_INNER_BYTES_def BUCKETS_def)
  obtain bucket where f: "find (\<lambda>size. length bs + 4 \<le> size) BUCKETS = Some bucket" using bucket_exists [OF max] by blast
  note b = bucket_found [OF f]
  define pt where "pt = u32_to_le_bytes (of_nat (length bs)) @ bs @ replicate (bucket - (4 + length bs)) 0"
  have len: "length pt = bucket" using b(2) by (simp add: pt_def)
  obtain ct where ct: "aes_gcm_encrypt ?rt (rm_key m) ?nonce pt ?aad = Some ct" "aes_gcm_decrypt ?rt (rm_key m) ?nonce ct ?aad = Some pt"
    using env unfolding mailbox_coded_def aead_opens_def by blast
  have lct: "length ct = bucket + 16" using env ct(1) len unfolding mailbox_coded_def by metis
  have ln: "length ?nonce = 12" using env by (simp add: mailbox_coded_def nonce_for_def)
  define outer where "outer = event_new ?cr (rm_signer m) (rm_id m) (u64_from_le_bytes (take 8 ?nonce)) [] 0 0 Message (?nonce @ ct)"
  have v: "is_canonical inner" "verify_integrity ?cr inner" "verify_signature ?cr inner" using inner by (simp_all add: event_valid_def)
  have "mailbox_wrap env m inner = Inr outer"
    using v enc(1) max f ct(1) by (simp add: mailbox_wrap_def Let_def outer_def pt_def)
  moreover have fields: "conversation_id outer = rm_id m" "author outer = Author (ed25519_pub (device_public ?cr (rm_signer m)))"
    "kind outer = Message" "parents outer = []" "lamport outer = 0" "wall_clock outer = 0" "ciphertext outer = ?nonce @ ct"
    "seq outer = u64_from_le_bytes (take 8 ?nonce)"
    by (simp_all add: outer_def canonical_parents_def)
  have valid: "event_valid ?cr outer"
    using env unfolding outer_def event_valid_def
    by (simp add: mailbox_coded_def event_new_canonical event_new_integrity event_new_signature)
  have small: "length bs < 2 ^ 32" using enc(2) by simp
  then have head: "unat (u32_from_le_bytes (take 4 pt)) = length bs" by (simp add: pt_def unat_of_nat)
  have rest: "take (length bs) (drop 4 pt) = bs" "list_ex (\<lambda>x. x \<noteq> 0) (drop (4 + length bs) pt) = False"
    by (simp_all add: pt_def list_ex_iff)
  have "parse_event env MAX_INNER_BYTES bs = Some inner" using env enc(1) max by (simp add: mailbox_coded_def)
  then have "mailbox_open env m outer = Inr inner"
    using fields valid v ct(2) ln lct len head rest b max
    by (simp add: mailbox_open_def Let_def event_valid_def BUCKETS_def)
  moreover have "envelope_shape outer" using fields ln lct b(1) by (simp add: envelope_shape_def)
  ultimately show ?thesis using valid fields(1) by blast
qed

text \<open>Whatever opens is a validly signed event, bound to the nonce of its envelope.\<close>

lemma opened_valid:
  assumes "mailbox_open env m outer = Inr inner"
  shows "event_valid (mb_crypto env) inner \<and> conversation_id outer = rm_id m
    \<and> take 12 (ciphertext outer) = nonce_for env m (ev_id inner)"
  using assms
  by (auto simp: mailbox_open_def Let_def event_valid_def split: if_splits option.splits)

section \<open>Properties\<close>

text \<open>
  C39. Mail reaches its recipient and nobody else writes it: both devices derive one mailbox, which
  carries the federation prefix when no relay is named; every valid event that fits is wrapped into
  a validly signed envelope of the shape the relay accepts, and the other device opens it to that
  event; and whatever a device opens is a validly signed event of the mailbox under the nonce of its id.
\<close>

theorem mailbox_delivers:
  assumes "mailbox_coded env" and "derive_mailbox env me (device_public (mb_crypto env) other) relay = Inr m"
    and "event_valid (mb_crypto env) inner" and "bincode_event env inner = Some bs" and "length bs \<le> 61436"
  shows "derive_mailbox env other (device_public (mb_crypto env) me) relay = Inr m
    \<and> (relay = None \<longrightarrow> is_federated_id (rm_id m))
    \<and> (\<exists>outer. mailbox_wrap env m inner = Inr outer \<and> mailbox_open env m outer = Inr inner
         \<and> envelope_shape outer \<and> event_valid (mb_crypto env) outer \<and> conversation_id outer = rm_id m)
    \<and> (\<forall>outer e. mailbox_open env m outer = Inr e \<longrightarrow>
         event_valid (mb_crypto env) e \<and> conversation_id outer = rm_id m
         \<and> take 12 (ciphertext outer) = nonce_for env m (ev_id e))"
proof -
  have "derive_mailbox env other (device_public (mb_crypto env) me) relay = Inr m"
    using derive_mailbox_sym [OF assms(1), of me other relay] assms(2) by simp
  moreover have "is_federated_id (rm_id m)" if "relay = None"
  proof -
    let ?mat = "hkdf (mb_ratchet env) (mailbox_context (device_public (mb_crypto env) me) (device_public (mb_crypto env) other) None)
      (array_bytes (x25519_dh (mb_ratchet env) (dh_secret me) (x25519_pub (device_public (mb_crypto env) other))))
      (ascii ''mailbox-keys'') 160"
    have "length ?mat = 160" using assms(1) by (simp add: mailbox_coded_def)
    then have len: "length (FEDERATED_ID_PREFIX @ drop 4 (take 32 ?mat)) = 32" by (simp add: FEDERATED_ID_PREFIX_def ascii_def)
    have "cid_bytes (rm_id m) = array_of_bytes (FEDERATED_ID_PREFIX @ drop 4 (take 32 ?mat))"
      using assms(2) that by (auto simp: derive_mailbox_def Let_def split: if_splits)
    then show ?thesis
      using array_bytes_of_array [OF len] by (simp add: is_federated_id_def FEDERATED_ID_PREFIX_def ascii_def)
  qed
  ultimately show ?thesis using wrap_opens [OF assms(1,3-5), of m] opened_valid by blast
qed

section \<open>Witnesses\<close>

definition demo_mailbox :: mailbox_env where
  "demo_mailbox =
     \<lparr>mb_crypto = demo_env,
      mb_ratchet = demo_ratchet\<lparr>aes_gcm_encrypt := (\<lambda>k nonce pt aad. Some (replicate 16 0 @ pt)),
                               aes_gcm_decrypt := (\<lambda>k nonce ct aad. Some (drop 16 ct))\<rparr>,
      bincode_event = (\<lambda>e. if e = demo_message 1 [] 1 then Some [1] else None),
      parse_event = (\<lambda>limit bs. if length bs \<le> limit \<and> bs = [1] then Some (demo_message 1 [] 1) else None)\<rparr>"

lemma demo_mailbox_coded: "mailbox_coded demo_mailbox"
  using demo_signatures_verify demo_ratchet_laws(2)
  by (simp add: mailbox_coded_def demo_mailbox_def aead_opens_def dh_agrees_def demo_env_def demo_ratchet_def)

theorem mailbox_delivers_witness:
  "\<exists>m outer. mailbox_federated demo_mailbox (demo_device 1) \<lparr>ed25519_pub = 2, x25519_pub = 2\<rparr> = Inr m
    \<and> mailbox_federated demo_mailbox (demo_device 2) \<lparr>ed25519_pub = 1, x25519_pub = 1\<rparr> = Inr m
    \<and> mailbox_wrap demo_mailbox m (demo_message 1 [] 1) = Inr outer
    \<and> mailbox_open demo_mailbox m outer = Inr (demo_message 1 [] 1)"
proof -
  have pub: "device_public (mb_crypto demo_mailbox) (demo_device k) = \<lparr>ed25519_pub = k, x25519_pub = k\<rparr>" for k
    by (simp add: demo_mailbox_def)
  have "x25519_dh (mb_ratchet demo_mailbox) (dh_secret (demo_device 1)) 2 \<noteq> 0"
    by (simp add: demo_mailbox_def demo_ratchet_def demo_device_def)
  then obtain m where m: "derive_mailbox demo_mailbox (demo_device 1) \<lparr>ed25519_pub = 2, x25519_pub = 2\<rparr> None = Inr m"
    by (simp add: derive_mailbox_def pub Let_def)
  have "event_valid (mb_crypto demo_mailbox) (demo_message 1 [] 1)"
    "bincode_event demo_mailbox (demo_message 1 [] 1) = Some [1]"
    by (simp_all add: demo_mailbox_def event_valid_def)
  with mailbox_delivers [OF demo_mailbox_coded, of "demo_device 1" "demo_device 2" None m "demo_message 1 [] 1" "[1]", unfolded pub] m
  show ?thesis by (auto simp: mailbox_federated_def)
qed

end
