(* ===== verification/Post_Office.thy ===== *)
theory Post_Office
  imports Durable_Log Relay_Mailbox
begin

text \<open>
  The post office, from \<^verbatim>\<open>postoffice/mod.rs\<close> and \<^verbatim>\<open>postoffice/election.rs\<close>: an always-on peer
  that stores opaque envelopes for peers that are offline. It holds a durable log of events and a
  second encrypted file with the time each mailbox was first seen, expires mailboxes after thirty
  days and evicts the least recently touched ones beyond its caps, always whole.

  A time is nanoseconds since the epoch. An operation makes several file accesses; the disk and the
  nonces of its \<open>k\<close>-th access are \<open>io_disk io k\<close> and \<open>io_nonce io k\<close>. Counters that grow by one per
  stored event are natural numbers. The change generation that schedulers watch is a counter; waking
  them is not modelled.
\<close>

section \<open>The office\<close>

definition MAX_RELAY_EVENTS :: nat where
  "MAX_RELAY_EVENTS = 100000"

definition RETENTION_SLACK :: nat where
  "RETENTION_SLACK = 5000"

definition MAX_RELAY_BYTES :: usize where
  "MAX_RELAY_BYTES = 512 * 1024 * 1024"

definition RETENTION_BYTE_SLACK :: usize where
  "RETENTION_BYTE_SLACK = 16 * 1024 * 1024"

definition MAX_RELAY_AGE :: u64 where
  "MAX_RELAY_AGE = 30 * 24 * 60 * 60"

text \<open>The magic is the bytes of \<^verbatim>\<open>MTPOR1\<close>.\<close>

definition RETENTION_MAGIC :: bytes where
  "RETENTION_MAGIC = [77, 84, 80, 79, 82, 49]"

record mailbox_arrival =
  ma_conversation :: conversation_id
  ma_first_seen :: u64

record federated_mailbox =
  fm_id :: conversation_id
  fm_digest :: array32
  fm_first_seen :: u64

definition unix_seconds :: "int \<Rightarrow> u64" where
  "unix_seconds now = (if now < 0 then 0 else word_of_int (now div 10 ^ 9))"

definition next_expiry :: "(conversation_id \<rightharpoonup> u64) \<Rightarrow> u64 option" where
  "next_expiry seen =
     (if ran seen = {} then None else Some (Min ((\<lambda>s. saturating_add s MAX_RELAY_AGE) ` ran seen)))"

definition stored_bytes :: "event \<Rightarrow> usize" where
  "stored_bytes e =
     saturating_add (saturating_add (of_nat (length (ciphertext e)))
       (saturating_mul (of_nat (length (parents e))) 32)) 256"

record post_office =
  po_log :: durable_log
  po_arrivals :: record_log
  po_first_seen :: "conversation_id \<rightharpoonup> u64"
  po_next_expiry :: "u64 option"
  po_identity :: device_identity
  po_touch :: "conversation_id \<rightharpoonup> nat"
  po_tick :: nat
  po_total :: nat
  po_bytes :: usize
  po_max_events :: nat
  po_slack :: nat
  po_max_bytes :: usize
  po_byte_slack :: usize
  po_opaque_only :: bool
  po_changes :: u64
  po_inventory :: "federated_mailbox list option"
  po_digests :: "conversation_id \<rightharpoonup> array32"
  po_cursors :: "array32 \<times> array32 \<rightharpoonup> conversation_id"

record relay_env =
  re_crypto :: crypto_env
  re_events :: "event store_env"
  re_arrivals :: "mailbox_arrival store_env"
  re_enum :: key_order

record relay_io =
  io_disk :: "nat \<Rightarrow> disk"
  io_nonce :: "nat \<Rightarrow> nat \<Rightarrow> bytes"

abbreviation po_conversations :: "post_office \<Rightarrow> conversation_id set" where
  "po_conversations po \<equiv> conversations (dl_log (po_log po))"

definition publish_change :: "post_office \<Rightarrow> post_office" where
  "publish_change po = po\<lparr>po_inventory := None, po_changes := po_changes po + 1\<rparr>"

definition federation_batch ::
  "post_office \<Rightarrow> public_identity \<Rightarrow> conversation_id list \<Rightarrow> nat \<Rightarrow> conversation_id list" where
  "federation_batch po peer ids limit =
     (let sorted_ids = sort_key cid_bytes ids;
          turned = (case po_cursors po (ed25519_pub peer, x25519_pub peer) of
                      None \<Rightarrow> sorted_ids
                    | Some cursor \<Rightarrow>
                        let nxt = length (takeWhile (\<lambda>i. cid_bytes i \<le> cid_bytes cursor) sorted_ids)
                        in if nxt < length sorted_ids then rotate nxt sorted_ids else sorted_ids)
      in take limit turned)"

definition advance_federation_cursor :: "post_office \<Rightarrow> public_identity \<Rightarrow> conversation_id \<Rightarrow> post_office" where
  "advance_federation_cursor po peer i =
     (let key = (ed25519_pub peer, x25519_pub peer);
          cursors = (if card (dom (po_cursors po)) \<ge> 1024 \<and> po_cursors po key = None then Map.empty else po_cursors po)
      in po\<lparr>po_cursors := cursors(key \<mapsto> i)\<rparr>)"

section \<open>Accounting and arrivals\<close>

definition sum_bytes :: "event list \<Rightarrow> usize" where
  "sum_bytes es = foldl (\<lambda>total e. saturating_add total (stored_bytes e)) 0 es"

definition recount :: "relay_env \<Rightarrow> post_office \<Rightarrow> post_office" where
  "recount env po =
     po\<lparr>po_total := card (all_event_ids (dl_log (po_log po))),
        po_bytes := sum_bytes (kept_events (dl_log (po_log po)) (re_enum env (po_conversations po)))\<rparr>"

definition arrival_records :: "relay_env \<Rightarrow> (conversation_id \<rightharpoonup> u64) \<Rightarrow> mailbox_arrival list" where
  "arrival_records env seen =
     map (\<lambda>c. \<lparr>ma_conversation = c, ma_first_seen = the (seen c)\<rparr>) (re_enum env (dom seen))"

definition rewrite_arrivals :: "relay_env \<Rightarrow> relay_io \<Rightarrow> nat \<Rightarrow> post_office \<Rightarrow> (failure + unit) \<times> post_office" where
  "rewrite_arrivals env io k po =
     (case record_log_rewrite (re_arrivals env) (io_disk io k) (io_nonce io k) (po_arrivals po)
             (arrival_records env (po_first_seen po)) of
        (Inl err, rl) \<Rightarrow> (Inl (Failed err), po\<lparr>po_arrivals := rl\<rparr>)
      | (Inr _, rl) \<Rightarrow> (Inr (), po\<lparr>po_arrivals := rl\<rparr>))"

section \<open>Expiry\<close>

definition prune_expired_at :: "relay_env \<Rightarrow> relay_io \<Rightarrow> post_office \<Rightarrow> int \<Rightarrow> (failure + unit) \<times> post_office" where
  "prune_expired_at env io po now =
     (if (case po_next_expiry po of None \<Rightarrow> True | Some expiry \<Rightarrow> unix_seconds now < expiry) then (Inr (), po)
      else
        let cutoff = saturating_sub (unix_seconds now) MAX_RELAY_AGE;
            keep = {c \<in> po_conversations po. case po_first_seen po c of None \<Rightarrow> False | Some seen \<Rightarrow> seen > cutoff}
        in if card keep = card (dom (po_first_seen po)) then (Inr (), po)
           else
             (case retain_conversations (re_events env) (io_disk io 0) (io_nonce io 0) (re_enum env) (po_log po) keep of
                (Inl f, l) \<Rightarrow> (Inl f, po\<lparr>po_log := l\<rparr>)
              | (Inr _, l) \<Rightarrow>
                  let seen = po_first_seen po |` keep;
                      po1 = publish_change (po\<lparr>po_log := l, po_digests := po_digests po |` keep\<rparr>);
                      po2 = po1\<lparr>po_first_seen := seen, po_next_expiry := next_expiry seen, po_touch := po_touch po |` keep\<rparr>
                  in rewrite_arrivals env io 1 (recount env po2)))"

section \<open>Eviction\<close>

text \<open>The loop over the conversations, least recently touched first; \<open>None\<close> is an underflow.\<close>

fun evict_mailboxes ::
  "event_log \<Rightarrow> nat \<Rightarrow> usize \<Rightarrow> conversation_id list \<Rightarrow> nat \<Rightarrow> usize \<Rightarrow> conversation_id set \<Rightarrow> (conversation_id \<rightharpoonup> nat)
   \<Rightarrow> (usize \<times> conversation_id set \<times> (conversation_id \<rightharpoonup> nat)) option" where
  "evict_mailboxes l max_events max_bytes [] running running_bytes keep touch = Some (running_bytes, keep, touch)"
| "evict_mailboxes l max_events max_bytes (c # cs) running running_bytes keep touch =
     (if running \<le> max_events \<and> running_bytes \<le> max_bytes then Some (running_bytes, keep, touch)
      else if running < length (log_events l c) then None
      else evict_mailboxes l max_events max_bytes cs (running - length (log_events l c))
             (saturating_sub running_bytes (sum_bytes (log_events l c))) (keep - {c}) (touch(c := None)))"

definition enforce_retention :: "relay_env \<Rightarrow> relay_io \<Rightarrow> post_office \<Rightarrow> (failure + unit) \<times> post_office" where
  "enforce_retention env io po =
     (if po_total po \<le> po_max_events po + po_slack po
         \<and> unat (po_bytes po) \<le> unat (po_max_bytes po) + unat (po_byte_slack po)
      then (Inr (), po)
      else
        let l = dl_log (po_log po);
            convs = sort_key (entry_or 0 (po_touch po)) (re_enum env (conversations l))
        in (case evict_mailboxes l (po_max_events po) (po_max_bytes po) convs (po_total po) (po_bytes po) (set convs) (po_touch po) of
              None \<Rightarrow> (Inl Panicked, po)
            | Some (running_bytes, keep, touch) \<Rightarrow>
                (case retain_conversations (re_events env) (io_disk io 4) (io_nonce io 4) (re_enum env) (po_log po) keep of
                   (Inl f, d) \<Rightarrow> (Inl f, po\<lparr>po_touch := touch, po_log := d\<rparr>)
                 | (Inr dropped, d) \<Rightarrow>
                     let po1 = publish_change (po\<lparr>po_touch := touch, po_log := d, po_digests := po_digests po |` keep\<rparr>);
                         seen = po_first_seen po |` keep
                     in if po_total po < dropped then (Inl Panicked, po1)
                        else rewrite_arrivals env io 5
                               (po1\<lparr>po_total := po_total po - dropped, po_bytes := running_bytes,
                                    po_first_seen := seen, po_next_expiry := next_expiry seen\<rparr>))))"

section \<open>Accepting\<close>

definition arrival_invalid :: log_error where
  "arrival_invalid = AdmissionRejected ''federated mailbox arrival is expired or invalid''"

definition record_at_with_arrival ::
  "relay_env \<Rightarrow> relay_io \<Rightarrow> post_office \<Rightarrow> event \<Rightarrow> int \<Rightarrow> u64 option \<Rightarrow> (failure + append_outcome) \<times> post_office" where
  "record_at_with_arrival env io po e now origin =
     (let secs = unix_seconds now
      in if (case origin of None \<Rightarrow> False
             | Some seen \<Rightarrow> seen \<le> saturating_sub secs MAX_RELAY_AGE \<or> seen > saturating_add secs 300)
         then (Inl (Failed arrival_invalid), po)
         else
           (case (if (case po_next_expiry po of None \<Rightarrow> False | Some expiry \<Rightarrow> secs \<ge> expiry)
                  then prune_expired_at env io po now else (Inr (), po)) of
              (Inl f, po1) \<Rightarrow> (Inl f, po1)
            | (Inr _, po1) \<Rightarrow>
                let c = conversation_id e;
                    new_mailbox = (po_first_seen po1 c = None \<and> \<not> log_has (dl_log (po_log po1)) (ev_id e));
                    seen = min (case origin of None \<Rightarrow> secs | Some s \<Rightarrow> s) secs
                in (case append_with_precommit (re_crypto env) (re_events env) (io_disk io 3) (io_nonce io 3 0)
                           (\<lambda>rl. if new_mailbox
                                 then record_log_append_durable (re_arrivals env) (io_disk io 2) (io_nonce io 2 0) rl
                                        \<lparr>ma_conversation = c, ma_first_seen = seen\<rparr>
                                 else (Inr (), rl))
                           (po_arrivals po1) (po_log po1) e of
                      (Inl err, rl, d) \<Rightarrow> (Inl (Failed err), po1\<lparr>po_arrivals := rl, po_log := d\<rparr>)
                    | (Inr Duplicate, rl, d) \<Rightarrow> (Inr Duplicate, po1\<lparr>po_arrivals := rl, po_log := d\<rparr>)
                    | (Inr Appended, rl, d) \<Rightarrow>
                        let po2 = publish_change (po1\<lparr>po_arrivals := rl, po_log := d, po_digests := (po_digests po1)(c := None)\<rparr>);
                            fs = (po_first_seen po2)(c \<mapsto> seen);
                            po3 = (if new_mailbox then po2\<lparr>po_first_seen := fs, po_next_expiry := next_expiry fs\<rparr> else po2);
                            po4 = po3\<lparr>po_total := po_total po3 + 1, po_bytes := saturating_add (po_bytes po3) (stored_bytes e),
                                      po_tick := po_tick po3 + 1, po_touch := (po_touch po3)(c \<mapsto> po_tick po3 + 1)\<rparr>
                        in (case enforce_retention env io po4 of
                              (Inl f, po5) \<Rightarrow> (Inl f, po5)
                            | (Inr _, po5) \<Rightarrow> (Inr Appended, po5)))))"

definition record_at :: "relay_env \<Rightarrow> relay_io \<Rightarrow> post_office \<Rightarrow> event \<Rightarrow> int \<Rightarrow> (failure + append_outcome) \<times> post_office" where
  "record_at env io po e now = record_at_with_arrival env io po e now None"

definition require_opaque_envelopes :: "post_office \<Rightarrow> post_office" where
  "require_opaque_envelopes po = po\<lparr>po_opaque_only := True\<rparr>"

definition office_ingest :: "relay_env \<Rightarrow> relay_io \<Rightarrow> int \<Rightarrow> post_office \<Rightarrow> event \<Rightarrow> (failure + append_outcome) \<times> post_office" where
  "office_ingest env io now po e =
     (if po_opaque_only po \<and> \<not> envelope_shape e
      then (Inl (Failed (AdmissionRejected ''post office requires an opaque envelope'')), po)
      else record_at env io po e now)"

section \<open>Opening\<close>

definition seed_touch :: "conversation_id list \<Rightarrow> nat \<times> (conversation_id \<rightharpoonup> nat)" where
  "seed_touch cs = foldl (\<lambda>(tick, touch) c. (tick + 1, touch(c \<mapsto> tick + 1))) (0, Map.empty) cs"

text \<open>What the arrival file says of the mailboxes held; a mailbox it does not know arrived now.\<close>

definition seen_of :: "mailbox_arrival list \<Rightarrow> conversation_id set \<Rightarrow> u64 \<Rightarrow> (conversation_id \<rightharpoonup> u64)" where
  "seen_of stored held secs =
     (let seen = foldl (\<lambda>m r. m(ma_conversation r \<mapsto> ma_first_seen r)) Map.empty stored
      in (\<lambda>c. if c \<in> held then Some (entry_or secs seen c) else None))"

definition office_open_at ::
  "relay_env \<Rightarrow> relay_io \<Rightarrow> bytes \<Rightarrow> bytes \<Rightarrow> string \<Rightarrow> device_identity \<Rightarrow> int \<Rightarrow> bytes option \<Rightarrow> bytes option
   \<Rightarrow> failure + post_office" where
  "office_open_at env io fresh_log fresh_arrivals password identity now log_file arrivals_file =
     bind_result (durable_open (re_events env) (io_disk io 2) fresh_log password log_file) (\<lambda>d.
       (case record_log_open (re_arrivals env) (io_disk io 3) fresh_arrivals password RETENTION_MAGIC arrivals_file of
          Inl err \<Rightarrow> Inl (Failed err)
        | Inr (stored, rl) \<Rightarrow>
            let held = conversations (dl_log d);
                seen = seen_of stored held (unix_seconds now)
            in (case record_log_rewrite (re_arrivals env) (io_disk io 4) (io_nonce io 4) rl (arrival_records env seen) of
                  (Inl err, _) \<Rightarrow> Inl (Failed err)
                | (Inr _, rl1) \<Rightarrow>
                    (case seed_touch (re_enum env held) of
                       (tick, touch) \<Rightarrow>
                         (case prune_expired_at env io
                             \<lparr>po_log = d, po_arrivals = rl1, po_first_seen = seen, po_next_expiry = next_expiry seen,
                              po_identity = identity, po_touch = touch, po_tick = tick,
                              po_total = card (all_event_ids (dl_log d)),
                              po_bytes = sum_bytes (kept_events (dl_log d) (re_enum env held)),
                              po_max_events = MAX_RELAY_EVENTS, po_slack = RETENTION_SLACK, po_max_bytes = MAX_RELAY_BYTES,
                              po_byte_slack = RETENTION_BYTE_SLACK, po_opaque_only = False, po_changes = 0,
                              po_inventory = None, po_digests = Map.empty, po_cursors = Map.empty\<rparr> now of
                            (Inl f, _) \<Rightarrow> Inl f
                          | (Inr _, po) \<Rightarrow> Inr po)))))"

section \<open>Federation\<close>

definition held_ids :: "post_office \<Rightarrow> conversation_id \<Rightarrow> event_id list" where
  "held_ids po c = sort (map ev_id (log_events (dl_log (po_log po)) c))"

definition federated_mailboxes :: "relay_env \<Rightarrow> post_office \<Rightarrow> conversation_id list" where
  "federated_mailboxes env po = filter is_federated_id (re_enum env (po_conversations po))"

definition mailbox_digest :: "relay_env \<Rightarrow> post_office \<Rightarrow> conversation_id \<Rightarrow> array32" where
  "mailbox_digest env po c = sha256 (re_crypto env) (concat (map (\<lambda>i. array_bytes (eid_bytes i)) (held_ids po c)))"

definition federated_inventory :: "relay_env \<Rightarrow> int \<Rightarrow> post_office \<Rightarrow> federated_mailbox list \<times> post_office" where
  "federated_inventory env now po =
     (case po_inventory po of
        Some cached \<Rightarrow> (cached, po)
      | None \<Rightarrow>
          let ids = federated_mailboxes env po;
              digest = (\<lambda>c. entry_or (mailbox_digest env po c) (po_digests po) c);
              inventory = map (\<lambda>c. \<lparr>fm_id = c, fm_digest = digest c,
                                     fm_first_seen = entry_or (unix_seconds now) (po_first_seen po) c\<rparr>) ids
          in (inventory, po\<lparr>po_digests := (\<lambda>c. if c \<in> set ids then Some (digest c) else po_digests po c),
                            po_inventory := Some inventory\<rparr>))"

definition earlier_arrival ::
  "(conversation_id \<rightharpoonup> u64) \<Rightarrow> u64 \<Rightarrow> (conversation_id \<rightharpoonup> u64) \<Rightarrow> federated_mailbox \<Rightarrow> (conversation_id \<rightharpoonup> u64)" where
  "earlier_arrival seen current changes entry =
     (if \<not> is_federated_id (fm_id entry) \<or> fm_first_seen entry \<le> saturating_sub current MAX_RELAY_AGE
         \<or> fm_first_seen entry > saturating_add current 300
      then changes
      else
        (case (case changes (fm_id entry) of Some p \<Rightarrow> Some p | None \<Rightarrow> seen (fm_id entry)) of
           None \<Rightarrow> changes
         | Some prior \<Rightarrow>
             if fm_first_seen entry < prior then changes(fm_id entry \<mapsto> fm_first_seen entry) else changes))"

definition adopt_federated_arrivals ::
  "relay_env \<Rightarrow> relay_io \<Rightarrow> post_office \<Rightarrow> federated_mailbox list \<Rightarrow> int \<Rightarrow> (failure + unit) \<times> post_office" where
  "adopt_federated_arrivals env io po inventory now =
     (let changes = foldl (earlier_arrival (po_first_seen po) (unix_seconds now)) Map.empty inventory;
          seen = po_first_seen po ++ changes
      in if changes = Map.empty then (Inr (), po)
         else
           (case record_log_rewrite (re_arrivals env) (io_disk io 2) (io_nonce io 2) (po_arrivals po)
                   (map (\<lambda>c. \<lparr>ma_conversation = c, ma_first_seen = the (seen c)\<rparr>) (re_enum env (dom (po_first_seen po)))) of
              (Inl err, rl) \<Rightarrow> (Inl (Failed err), po\<lparr>po_arrivals := rl\<rparr>)
            | (Inr _, rl) \<Rightarrow>
                prune_expired_at env io
                  ((publish_change (po\<lparr>po_arrivals := rl, po_first_seen := seen\<rparr>))\<lparr>po_next_expiry := next_expiry seen\<rparr>) now))"

section \<open>The office as a store\<close>

definition office_durable_have :: "disk \<Rightarrow> post_office \<Rightarrow> conversation_id \<Rightarrow> event_id \<Rightarrow> failure + bool" where
  "office_durable_have disk po c i =
     (case durable_sync disk (po_log po) of
        Inl err \<Rightarrow> Inl (Failed err)
      | Inr _ \<Rightarrow>
          Inr (case log_get (dl_log (po_log po)) i of None \<Rightarrow> False | Some e \<Rightarrow> conversation_id e = c))"

definition office_ops :: "relay_env \<Rightarrow> relay_io \<Rightarrow> int \<Rightarrow> (event \<Rightarrow> usize option) \<Rightarrow> post_office sync_ops" where
  "office_ops env io now ser =
     \<lparr>op_event_ids = (\<lambda>po c. Inr (map ev_id (log_events (dl_log (po_log po)) c))),
      op_events_excluding = (\<lambda>po. durable_events_excluding (po_log po)),
      op_events_excluding_bounded = (\<lambda>po. durable_events_excluding_bounded ser (po_log po)),
      op_ingest = office_ingest env io now\<rparr>"

section \<open>Election\<close>

text \<open>The first eligible peer with the least fingerprint; fingerprints compare by their bytes.\<close>

fun elect_from :: "crypto_env \<Rightarrow> public_identity \<Rightarrow> public_identity list \<Rightarrow> public_identity" where
  "elect_from cr best [] = best"
| "elect_from cr best (p # ps) =
     (if ascii (user_id cr p) < ascii (user_id cr best) then elect_from cr p ps else elect_from cr best ps)"

definition elect :: "crypto_env \<Rightarrow> public_identity list \<Rightarrow> public_identity option" where
  "elect cr eligible = (case eligible of [] \<Rightarrow> None | p # ps \<Rightarrow> Some (elect_from cr p ps))"

definition is_post_office :: "crypto_env \<Rightarrow> public_identity \<Rightarrow> public_identity list \<Rightarrow> bool" where
  "is_post_office cr me eligible \<longleftrightarrow> elect cr eligible = Some me"

section \<open>Accounting is exact\<close>

definition mailbox_events :: "event_log \<Rightarrow> conversation_id set \<Rightarrow> event set" where
  "mailbox_events l C = {e \<in> ran (l_events l). conversation_id e \<in> C}"

definition mailbox_cost :: "event_log \<Rightarrow> conversation_id set \<Rightarrow> nat" where
  "mailbox_cost l C = (\<Sum>e\<in>mailbox_events l C. unat (stored_bytes e))"

lemma unat_sum_bytes_from:
  "unat (foldl (\<lambda>total e. saturating_add total (stored_bytes e)) a es)
    = min (unat a + (\<Sum>e\<leftarrow>es. unat (stored_bytes e))) (2 ^ 64 - 1)"
proof (induction es arbitrary: a)
  case Nil
  then show ?case using unat_lt2p [of a] by simp
next
  case (Cons e es)
  then show ?case by (simp add: unat_saturating_add min_def)
qed

lemma unat_sum_bytes:
  assumes "distinct (map ev_id es)" and "(\<Sum>e\<in>set es. unat (stored_bytes e)) < 2 ^ 64"
  shows "unat (sum_bytes es) = (\<Sum>e\<in>set es. unat (stored_bytes e))"
proof -
  have "(\<Sum>e\<leftarrow>es. unat (stored_bytes e)) = (\<Sum>e\<in>set es. unat (stored_bytes e))"
    using assms(1) by (simp add: distinct_map sum_list_distinct_conv_sum_set)
  with assms(2) show ?thesis unfolding sum_bytes_def unat_sum_bytes_from by simp
qed

lemma mailbox_events_mono: "C \<subseteq> D \<Longrightarrow> mailbox_events l C \<subseteq> mailbox_events l D"
  by (auto simp: mailbox_events_def)

lemma finite_mailbox_events: "log_wf cr l \<Longrightarrow> finite (mailbox_events l C)"
  using ran_card(2) [OF log_wfD(1)] by (simp add: mailbox_events_def)

lemma mailbox_cost_mono: "log_wf cr l \<Longrightarrow> C \<subseteq> D \<Longrightarrow> mailbox_cost l C \<le> mailbox_cost l D"
  unfolding mailbox_cost_def by (intro sum_mono2 finite_mailbox_events mailbox_events_mono) auto

lemma mailbox_split:
  assumes "log_wf cr l" and "c \<notin> C"
  shows "card (mailbox_events l (insert c C)) = length (log_events l c) + card (mailbox_events l C)"
    and "mailbox_cost l (insert c C) = (\<Sum>e\<in>set (log_events l c). unat (stored_bytes e)) + mailbox_cost l C"
proof -
  have s: "set (log_events l c) = {e \<in> ran (l_events l). conversation_id e = c}"
    using log_events_keys(2) [OF assms(1)] by (simp add: conv_set_def)
  have u: "mailbox_events l (insert c C) = set (log_events l c) \<union> mailbox_events l C"
    unfolding s by (auto simp: mailbox_events_def)
  have d: "set (log_events l c) \<inter> mailbox_events l C = {}" unfolding s using assms(2) by (auto simp: mailbox_events_def)
  have f: "finite (mailbox_events l C)" using assms(1) by (rule finite_mailbox_events)
  show "card (mailbox_events l (insert c C)) = length (log_events l c) + card (mailbox_events l C)"
    unfolding u card_Un_disjoint [OF List.finite_set f d] distinct_ids_card [OF distinct_log_events [OF assms(1)]] ..
  show "mailbox_cost l (insert c C) = (\<Sum>e\<in>set (log_events l c). unat (stored_bytes e)) + mailbox_cost l C"
    unfolding mailbox_cost_def u sum.union_disjoint [OF List.finite_set f d] ..
qed

text \<open>Eviction drops a prefix of the list, stops as soon as both caps hold, and accounts exactly.\<close>

lemma evict_spec:
  assumes wf: "log_wf cr l" and "distinct cs" and "running = card (mailbox_events l (set cs))"
    and "unat rb = mailbox_cost l (set cs)"
  shows "\<exists>k rb' touch'. evict_mailboxes l me mb cs running rb (set cs) touch = Some (rb', set (drop k cs), touch')
    \<and> unat rb' = mailbox_cost l (set (drop k cs)) \<and> card (mailbox_events l (set (drop k cs))) \<le> me \<and> rb' \<le> mb
    \<and> touch' = touch |` (- set (take k cs))
    \<and> (\<forall>j<k. card (mailbox_events l (set (drop j cs))) > me \<or> mailbox_cost l (set (drop j cs)) > unat mb)"
  using assms(2-)
proof (induction cs arbitrary: running rb touch)
  case Nil
  then show ?case by (auto simp: mailbox_events_def mailbox_cost_def word_le_nat_alt intro!: exI [of _ "0 :: nat"])
next
  case (Cons c cs)
  show ?case
  proof (cases "running \<le> me \<and> rb \<le> mb")
    case True
    with Cons.prems show ?thesis by (intro exI [of _ "0 :: nat"]) simp
  next
    case False
    have new: "c \<notin> set cs" using Cons.prems(1) by simp
    note sp = mailbox_split [OF wf new]
    let ?es = "log_events l c"
    have run: "running = length ?es + card (mailbox_events l (set cs))" using Cons.prems(2) sp(1) by simp
    have cost: "unat rb = (\<Sum>e\<in>set ?es. unat (stored_bytes e)) + mailbox_cost l (set cs)" using Cons.prems(3) sp(2) by simp
    have "(\<Sum>e\<in>set ?es. unat (stored_bytes e)) < 2 ^ 64" using cost unat_lt2p [of rb] by simp
    from unat_sum_bytes [OF distinct_log_events [OF wf] this]
    have rb: "unat (saturating_sub rb (sum_bytes ?es)) = mailbox_cost l (set cs)" using cost by (simp add: unat_saturating_sub)
    have keep: "set (c # cs) - {c} = set cs" using new by auto
    define t1 where "t1 = touch(c := None)"
    have d: "distinct cs" and r: "running - length ?es = card (mailbox_events l (set cs))" using Cons.prems(1) run by simp_all
    obtain k rb' touch' where IH:
      "evict_mailboxes l me mb cs (running - length ?es) (saturating_sub rb (sum_bytes ?es)) (set cs) t1 = Some (rb', set (drop k cs), touch')"
      "unat rb' = mailbox_cost l (set (drop k cs))" "card (mailbox_events l (set (drop k cs))) \<le> me" "rb' \<le> mb"
      "touch' = t1 |` (- set (take k cs))"
      "\<forall>j<k. card (mailbox_events l (set (drop j cs))) > me \<or> mailbox_cost l (set (drop j cs)) > unat mb"
      using Cons.IH [OF d r rb, of t1] by blast
    have "evict_mailboxes l me mb (c # cs) running rb (set (c # cs)) touch = Some (rb', set (drop (Suc k) (c # cs)), touch')"
      using False run IH(1) unfolding evict_mailboxes.simps keep t1_def [symmetric] by auto
    moreover have "touch' = touch |` (- set (take (Suc k) (c # cs)))"
      unfolding IH(5) t1_def by (auto simp: restrict_map_def fun_eq_iff)
    moreover have "\<forall>j<Suc k. card (mailbox_events l (set (drop j (c # cs)))) > me \<or> mailbox_cost l (set (drop j (c # cs))) > unat mb"
      using IH(6) False Cons.prems(2,3) by (auto simp: less_Suc_eq_0_disj word_le_nat_alt not_le)
    ultimately show ?thesis using IH(2-4) by (intro exI [of _ "Suc k"] exI [of _ rb'] exI [of _ touch']) simp
  qed
qed

section \<open>The office's invariant\<close>

definition office_ok :: "relay_env \<Rightarrow> string \<Rightarrow> post_office \<Rightarrow> bool" where
  "office_ok env password po \<longleftrightarrow>
     durable_ok (re_crypto env) (re_events env) password (po_log po)
     \<and> dom (po_first_seen po) = po_conversations po
     \<and> po_next_expiry po = next_expiry (po_first_seen po)
     \<and> po_total po = card (ran (l_events (dl_log (po_log po))))
     \<and> unat (po_bytes po) = mailbox_cost (dl_log (po_log po)) (po_conversations po)
     \<and> (\<forall>c t. po_touch po c = Some t \<longrightarrow> t \<le> po_tick po)"

definition relay_sound :: "relay_env \<Rightarrow> relay_io \<Rightarrow> bool" where
  "relay_sound env io \<longleftrightarrow>
     store_coded (re_events env) \<and> lists_keys (re_enum env) \<and> (\<forall>k i. length (io_nonce io k i) = 12)"

text \<open>What an operation never changes, and that it keeps mailboxes whole or drops them.\<close>

definition same_caps :: "post_office \<Rightarrow> post_office \<Rightarrow> bool" where
  "same_caps po po' \<longleftrightarrow>
     po_max_events po' = po_max_events po \<and> po_slack po' = po_slack po \<and> po_max_bytes po' = po_max_bytes po
     \<and> po_byte_slack po' = po_byte_slack po \<and> po_opaque_only po' = po_opaque_only po"

definition keeps_whole :: "event set \<Rightarrow> post_office \<Rightarrow> bool" where
  "keeps_whole E po' \<longleftrightarrow>
     ran (l_events (dl_log (po_log po'))) = {e \<in> E. conversation_id e \<in> po_conversations po'}"

definition fresh_at :: "u64 \<Rightarrow> (conversation_id \<rightharpoonup> u64) \<Rightarrow> bool" where
  "fresh_at secs seen \<longleftrightarrow> (\<forall>c s. seen c = Some s \<longrightarrow> unat secs < unat s + 2592000)"

text \<open>The mailboxes that are not past their age, and their events.\<close>

definition unexpired :: "u64 \<Rightarrow> (conversation_id \<rightharpoonup> u64) \<Rightarrow> (conversation_id \<rightharpoonup> u64)" where
  "unexpired secs seen = seen |` {c. \<exists>s. seen c = Some s \<and> unat secs < unat s + 2592000}"

definition live_events :: "u64 \<Rightarrow> post_office \<Rightarrow> event set" where
  "live_events secs po = {e \<in> ran (l_events (dl_log (po_log po))). conversation_id e \<in> dom (unexpired secs (po_first_seen po))}"

text \<open>Eviction follows recency and stops as soon as it may: every mailbox that \<open>po'\<close> no longer holds was
  touched no later than each it still holds, and with the latest of those dropped the caps were exceeded.\<close>

definition over_caps :: "post_office \<Rightarrow> event set \<Rightarrow> bool" where
  "over_caps po E \<longleftrightarrow> card E > po_max_events po \<or> (\<Sum>e\<in>E. unat (stored_bytes e)) > unat (po_max_bytes po)"

definition evicts_oldest :: "post_office \<Rightarrow> post_office \<Rightarrow> bool" where
  "evicts_oldest po po' \<longleftrightarrow>
     (let touched = entry_or 0 (po_touch po); dropped = po_conversations po - po_conversations po'
      in (\<forall>c \<in> dropped. \<forall>d \<in> po_conversations po'. touched c \<le> touched d)
         \<and> (dropped = {} \<or>
             (\<exists>c \<in> dropped. (\<forall>d \<in> dropped. touched d \<le> touched c)
                \<and> over_caps po (mailbox_events (dl_log (po_log po)) (insert c (po_conversations po'))))))"

definition within_caps :: "post_office \<Rightarrow> bool" where
  "within_caps po \<longleftrightarrow>
     po_total po \<le> po_max_events po + po_slack po
     \<and> unat (po_bytes po) \<le> unat (po_max_bytes po) + unat (po_byte_slack po)"

lemma restrict_map_below [simp]: "m |` A \<subseteq>\<^sub>m m"
  by (simp add: map_le_def)

lemma mailbox_events_all:
  assumes "log_wf cr l"
  shows "mailbox_events l (conversations l) = ran (l_events l)"
  using conversations_wf(1) [OF assms] by (auto simp: mailbox_events_def)

lemma next_expiry_fresh:
  assumes "finite (dom seen)" and "case next_expiry seen of None \<Rightarrow> True | Some expiry \<Rightarrow> secs < expiry"
  shows "fresh_at secs seen"
  unfolding fresh_at_def
proof (intro allI impI)
  fix c s assume s: "seen c = Some s"
  then have mem: "s \<in> ran seen" by (rule ranI)
  then have "secs < Min ((\<lambda>s. saturating_add s MAX_RELAY_AGE) ` ran seen)" using assms(2) by (auto simp: next_expiry_def split: if_splits)
  also have "\<dots> \<le> saturating_add s MAX_RELAY_AGE" using mem finite_ran [OF assms(1)] by (intro Min_le) auto
  finally show "unat secs < unat s + 2592000" by (simp add: word_less_nat_alt unat_saturating_add MAX_RELAY_AGE_def)
qed

lemma unexpired_fresh: "fresh_at secs (unexpired secs seen)"
  by (auto simp: fresh_at_def unexpired_def restrict_map_def split: if_splits)

lemma fresh_unexpired:
  assumes "fresh_at secs seen"
  shows "unexpired secs seen = seen"
proof
  fix c
  show "unexpired secs seen c = seen c" using assms by (cases "seen c") (auto simp: fresh_at_def unexpired_def restrict_map_def)
qed

text \<open>Once some mailbox has expired the cutoff does not saturate, so it separates exactly the expired ones.\<close>

lemma cutoff_exact:
  assumes "finite (dom seen)" and "\<not> (case next_expiry seen of None \<Rightarrow> True | Some expiry \<Rightarrow> secs < expiry)"
  shows "s > saturating_sub secs MAX_RELAY_AGE \<longleftrightarrow> unat secs < unat s + 2592000"
proof -
  let ?X = "(\<lambda>s. saturating_add s MAX_RELAY_AGE) ` ran seen"
  have ne: "ran seen \<noteq> {}" using assms(2) by (auto simp: next_expiry_def)
  then have le: "Min ?X \<le> secs" using assms(2) by (simp add: next_expiry_def not_less del: Min_gr_iff Min_le_iff)
  have "Min ?X \<in> ?X" using ne finite_ran [OF assms(1)] by (intro Min_in) auto
  then obtain s0 where "saturating_add s0 MAX_RELAY_AGE \<le> secs" using le by auto
  then have "2592000 \<le> unat secs" by (auto simp: word_le_nat_alt unat_saturating_add MAX_RELAY_AGE_def min_def split: if_splits)
  then show ?thesis by (auto simp: word_less_nat_alt unat_saturating_sub MAX_RELAY_AGE_def)
qed

lemma rewrite_arrivals_same:
  assumes "rewrite_arrivals env io k po = (r, po')"
  shows "r \<noteq> Inl Panicked \<and> (\<exists>rl. po' = po\<lparr>po_arrivals := rl\<rparr>)"
proof -
  obtain q rl where "record_log_rewrite (re_arrivals env) (io_disk io k) (io_nonce io k) (po_arrivals po)
      (arrival_records env (po_first_seen po)) = (q, rl)" by fastforce
  with assms show ?thesis by (cases q) (auto simp: rewrite_arrivals_def)
qed

lemma office_okD:
  assumes "office_ok env password po"
  shows "durable_ok (re_crypto env) (re_events env) password (po_log po)"
    and "log_wf (re_crypto env) (dl_log (po_log po))" and "dom (po_first_seen po) = po_conversations po"
    and "po_next_expiry po = next_expiry (po_first_seen po)"
    and "po_total po = card (ran (l_events (dl_log (po_log po))))"
    and "unat (po_bytes po) = mailbox_cost (dl_log (po_log po)) (po_conversations po)"
    and "finite (po_conversations po)" and "\<And>c t. po_touch po c = Some t \<Longrightarrow> t \<le> po_tick po"
proof -
  show d: "durable_ok (re_crypto env) (re_events env) password (po_log po)" using assms by (simp add: office_ok_def)
  show "log_wf (re_crypto env) (dl_log (po_log po))" by (rule durable_okD(1) [OF d])
  then show "finite (po_conversations po)" by (rule conversations_wf(2))
qed (use assms in \<open>simp_all add: office_ok_def\<close>)

lemma retained_log:
  assumes wf: "log_wf cr l" "log_wf cr l'" and keep: "keep \<subseteq> conversations l"
    and ran: "ran (l_events l') = mailbox_events l keep"
  shows "conversations l' = keep" and "mailbox_cost l' keep = mailbox_cost l keep" and "mailbox_events l' keep = mailbox_events l keep"
proof -
  show "conversations l' = keep"
    unfolding conversations_wf(1) [OF wf(2)] ran using keep unfolding conversations_wf(1) [OF wf(1)]
    by (auto simp: mailbox_events_def)
  show ev: "mailbox_events l' keep = mailbox_events l keep" unfolding mailbox_events_def [of l'] ran by (auto simp: mailbox_events_def)
  show "mailbox_cost l' keep = mailbox_cost l keep" by (simp add: mailbox_cost_def ev)
qed

text \<open>Retaining a set of mailboxes: the log after it, or no change.\<close>

lemma retain_office:
  assumes s: "relay_sound env io" and ok: "office_ok env password po" and keep: "keep \<subseteq> po_conversations po"
    and r: "retain_conversations (re_events env) (io_disk io k) (io_nonce io k) (re_enum env) (po_log po) keep = (q, d)"
  shows "case q of
      Inl f \<Rightarrow> f \<noteq> Panicked \<and> dl_log d = dl_log (po_log po) \<and> durable_ok (re_crypto env) (re_events env) password d
    | Inr n \<Rightarrow> durable_ok (re_crypto env) (re_events env) password d
        \<and> ran (l_events (dl_log d)) = mailbox_events (dl_log (po_log po)) keep \<and> conversations (dl_log d) = keep
        \<and> n + card (mailbox_events (dl_log (po_log po)) keep) = po_total po"
proof -
  let ?l = "dl_log (po_log po)"
  note k = office_okD [OF ok]
  have "keeps_only (re_crypto env) (re_events env) password (po_log po) {e \<in> ran (l_events ?l). conversation_id e \<in> keep} q d"
    using retain_conversations_ok [of "re_events env" "io_nonce io k" "re_enum env" "re_crypto env" password "po_log po"] s k(1) r
    by (simp add: relay_sound_def)
  then have ko: "keeps_only (re_crypto env) (re_events env) password (po_log po) (mailbox_events ?l keep) q d"
    by (simp add: mailbox_events_def)
  show ?thesis
  proof (cases q)
    case (Inl f)
    with ko show ?thesis by (simp add: keeps_only_def)
  next
    case (Inr n)
    with ko have d: "durable_ok (re_crypto env) (re_events env) password d" "ran (l_events (dl_log d)) = mailbox_events ?l keep"
      "n = card (ran (l_events ?l) - mailbox_events ?l keep)" by (simp_all add: keeps_only_def)
    have sub: "mailbox_events ?l keep \<subseteq> ran (l_events ?l)" by (auto simp: mailbox_events_def)
    have "n + card (mailbox_events ?l keep) = po_total po"
      using dropped_card [OF log_wfD(1) [OF k(2)] sub] d(3) k(5) by simp
    with Inr d retained_log(1) [OF k(2) durable_okD(1) [OF d(1)] keep d(2)] show ?thesis by simp
  qed
qed

text \<open>An office whose log was reduced to the mailboxes \<open>keep\<close>, with its bookkeeping restricted to them.\<close>

lemma office_retained:
  assumes ok: "office_ok env password po" and keep: "keep \<subseteq> po_conversations po"
    and d: "durable_ok (re_crypto env) (re_events env) password (po_log po')"
      "ran (l_events (dl_log (po_log po'))) = mailbox_events (dl_log (po_log po)) keep"
    and f: "po_first_seen po' = po_first_seen po |` keep" "po_next_expiry po' = next_expiry (po_first_seen po')"
      "po_total po' = card (mailbox_events (dl_log (po_log po)) keep)"
      "unat (po_bytes po') = mailbox_cost (dl_log (po_log po)) keep"
      "po_touch po' \<subseteq>\<^sub>m po_touch po" "po_tick po' = po_tick po"
  shows "office_ok env password po'" and "keeps_whole (ran (l_events (dl_log (po_log po)))) po'"
    and "po_conversations po' = keep"
proof -
  note k = office_okD [OF ok]
  note r = retained_log [OF k(2) durable_okD(1) [OF d(1)] keep d(2)]
  show c: "po_conversations po' = keep" by (rule r(1))
  have "t \<le> po_tick po'" if "po_touch po' x = Some t" for x t
    using that f(5,6) k(8) [of x t] by (metis domI map_le_def)
  then show "office_ok env password po'" using d f(1-4) r(2) k(3) keep c by (auto simp: office_ok_def)
  show "keeps_whole (ran (l_events (dl_log (po_log po)))) po'" unfolding keeps_whole_def c d(2) mailbox_events_def ..
qed

lemma office_log_swap:
  assumes "office_ok env password po" and "durable_ok (re_crypto env) (re_events env) password (po_log po')"
    and "dl_log (po_log po') = dl_log (po_log po)" and "po_first_seen po' = po_first_seen po"
    and "po_next_expiry po' = po_next_expiry po" and "po_total po' = po_total po" and "po_bytes po' = po_bytes po"
    and "po_touch po' \<subseteq>\<^sub>m po_touch po" and "po_tick po' = po_tick po"
  shows "office_ok env password po'" and "keeps_whole (ran (l_events (dl_log (po_log po)))) po'"
proof -
  note k = office_okD [OF assms(1)]
  have "t \<le> po_tick po'" if "po_touch po' x = Some t" for x t
    using that assms(8,9) k(8) [of x t] by (metis domI map_le_def)
  then show "office_ok env password po'" using assms by (simp add: office_ok_def)
  show "keeps_whole (ran (l_events (dl_log (po_log po)))) po'"
    using conversations_wf(1) [OF k(2)] assms(3) by (auto simp: keeps_whole_def)
qed

lemma rewrite_office:
  assumes "rewrite_arrivals env io k po = (r, po')"
  shows "r \<noteq> Inl Panicked" and "office_ok env password po' = office_ok env password po"
    and "keeps_whole E po' = keeps_whole E po" and "po_first_seen po' = po_first_seen po" and "same_caps q po' = same_caps q po"
    and "within_caps po' = within_caps po" and "po_touch po' = po_touch po" and "po_tick po' = po_tick po" and "po_log po' = po_log po" and "evicts_oldest q po' = evicts_oldest q po"
proof -
  obtain rl where rl: "po' = po\<lparr>po_arrivals := rl\<rparr>" and "r \<noteq> Inl Panicked" using rewrite_arrivals_same [OF assms] by blast
  then show "r \<noteq> Inl Panicked" by blast
qed (use rewrite_arrivals_same [OF assms] in \<open>(elim conjE exE, simp add: office_ok_def keeps_whole_def same_caps_def within_caps_def evicts_oldest_def)+\<close>)

lemma recount_exact:
  assumes "lists_keys (re_enum env)" and "log_wf cr (dl_log (po_log po))"
    and "mailbox_cost (dl_log (po_log po)) (po_conversations po) < 2 ^ 64"
  shows "po_total (recount env po) = card (ran (l_events (dl_log (po_log po))))"
    and "unat (po_bytes (recount env po)) = mailbox_cost (dl_log (po_log po)) (po_conversations po)"
proof -
  let ?l = "dl_log (po_log po)"
  note lc = listed_conversations [OF assms(1,2), of "\<lambda>_. True", simplified]
  show "po_total (recount env po) = card (ran (l_events ?l))"
    by (simp add: recount_def all_event_ids_def ran_card(1) [OF log_wfD(1) [OF assms(2)]])
  have cost: "mailbox_cost ?l (conversations ?l) = (\<Sum>e\<in>set (kept_events ?l (re_enum env (conversations ?l))). unat (stored_bytes e))"
    unfolding mailbox_cost_def mailbox_events_all [OF assms(2)] lc(1) by simp
  show "unat (po_bytes (recount env po)) = mailbox_cost ?l (conversations ?l)"
    using unat_sum_bytes [OF lc(2)] assms(3) unfolding cost by (simp add: recount_def)
qed

section \<open>Expiry and eviction\<close>

lemma prune_retained:
  assumes s: "relay_sound env io" and ok: "office_ok env password po" and sub: "keep \<subseteq> po_conversations po"
    and d: "durable_ok (re_crypto env) (re_events env) password d"
      "ran (l_events (dl_log d)) = mailbox_events (dl_log (po_log po)) keep" "conversations (dl_log d) = keep"
    and po2: "po2 = (publish_change (po\<lparr>po_log := d, po_digests := po_digests po |` keep\<rparr>))
        \<lparr>po_first_seen := po_first_seen po |` keep, po_next_expiry := next_expiry (po_first_seen po |` keep), po_touch := po_touch po |` keep\<rparr>"
    and rw: "rewrite_arrivals env io k (recount env po2) = (r, po')"
  shows "r \<noteq> Inl Panicked \<and> office_ok env password po' \<and> same_caps po po'
    \<and> keeps_whole (ran (l_events (dl_log (po_log po)))) po' \<and> po_first_seen po' = po_first_seen po |` keep
    \<and> po_touch po' = po_touch po |` keep \<and> po_tick po' = po_tick po \<and> po_conversations po' = keep"
proof -
  note k = office_okD [OF ok]
  have f: "po_log po2 = d" "po_first_seen po2 = po_first_seen po |` keep" "po_next_expiry po2 = next_expiry (po_first_seen po |` keep)"
    by (simp_all add: po2 publish_change_def)
  have cost: "mailbox_cost (dl_log d) keep = mailbox_cost (dl_log (po_log po)) keep"
    by (rule retained_log(2) [OF k(2) durable_okD(1) [OF d(1)] sub d(2)])
  have "mailbox_cost (dl_log (po_log po)) keep < 2 ^ 64"
    using mailbox_cost_mono [OF k(2) sub] k(6) unat_lt2p [of "po_bytes po"] by simp
  then have rc: "po_total (recount env po2) = card (mailbox_events (dl_log (po_log po)) keep)"
    "unat (po_bytes (recount env po2)) = mailbox_cost (dl_log (po_log po)) keep"
    using recount_exact [of env "re_crypto env" po2] s durable_okD(1) [OF d(1)] f(1) d(2,3) cost
    by (simp_all add: relay_sound_def)
  have keepf: "po_log (recount env po2) = d" "po_first_seen (recount env po2) = po_first_seen po |` keep"
    "po_next_expiry (recount env po2) = next_expiry (po_first_seen po |` keep)" "same_caps po (recount env po2)"
    "po_touch (recount env po2) = po_touch po |` keep" "po_tick (recount env po2) = po_tick po"
    using f by (simp_all add: recount_def same_caps_def po2 publish_change_def)
  note or = office_retained [OF ok sub, of "recount env po2"]
  show ?thesis unfolding rewrite_office(2-5,7-9) [OF rw]
    using or d(1,2) rc keepf rewrite_office(1) [OF rw] by simp
qed

text \<open>Pruning keeps the invariant even where the disk fails half way, drops mailboxes whole, and leaves none past its age.\<close>

lemma prune_expired_ok:
  assumes s: "relay_sound env io" and ok: "office_ok env password po"
    and p: "prune_expired_at env io po now = (r, po')"
  shows "r \<noteq> Inl Panicked \<and> office_ok env password po' \<and> same_caps po po'
    \<and> keeps_whole (ran (l_events (dl_log (po_log po)))) po'
    \<and> (r = Inr () \<longrightarrow> po_first_seen po' = unexpired (unix_seconds now) (po_first_seen po)
         \<and> po_tick po' = po_tick po \<and> (\<forall>c \<in> po_conversations po'. po_touch po' c = po_touch po c))"
proof -
  note k = office_okD [OF ok]
  let ?secs = "unix_seconds now" and ?E = "ran (l_events (dl_log (po_log po)))"
  define keep where "keep = {c \<in> po_conversations po. case po_first_seen po c of None \<Rightarrow> False
      | Some seen \<Rightarrow> seen > saturating_sub ?secs MAX_RELAY_AGE}"
  have sub: "keep \<subseteq> po_conversations po" by (auto simp: keep_def)
  have self: "office_ok env password po \<and> same_caps po po \<and> keeps_whole ?E po"
    using ok office_log_swap [OF ok k(1)] by (simp add: same_caps_def)
  have exact: "po_first_seen po |` keep = unexpired ?secs (po_first_seen po)"
    if "\<not> (case po_next_expiry po of None \<Rightarrow> True | Some expiry \<Rightarrow> ?secs < expiry)"
  proof -
    have "keep = {c. \<exists>s. po_first_seen po c = Some s \<and> unat ?secs < unat s + 2592000}"
      using cutoff_exact [of "po_first_seen po" ?secs] that k(3,4,7) by (auto simp: keep_def split: option.splits)
    then show ?thesis by (simp add: unexpired_def)
  qed
  consider (early) "case po_next_expiry po of None \<Rightarrow> True | Some expiry \<Rightarrow> ?secs < expiry"
    | (none) "\<not> (case po_next_expiry po of None \<Rightarrow> True | Some expiry \<Rightarrow> ?secs < expiry)" "card keep = card (dom (po_first_seen po))"
    | (drop) "\<not> (case po_next_expiry po of None \<Rightarrow> True | Some expiry \<Rightarrow> ?secs < expiry)" "card keep \<noteq> card (dom (po_first_seen po))"
    by blast
  then show ?thesis
  proof cases
    case early
    then have "r = Inr ()" "po' = po" using p by (simp_all add: prune_expired_at_def)
    moreover have "fresh_at ?secs (po_first_seen po)"
      using early k(3,7) unfolding k(4) by (intro next_expiry_fresh) simp_all
    ultimately show ?thesis using self by (simp add: fresh_unexpired)
  next
    case none
    then have eq: "r = Inr ()" "po' = po" using p unfolding prune_expired_at_def Let_def keep_def [symmetric] by simp_all
    have "keep = dom (po_first_seen po)" using none(2) sub k(3,7) by (metis card_subset_eq)
    then have "po_first_seen po |` keep = po_first_seen po" by (simp add: restrict_map_def fun_eq_iff domIff)
    then show ?thesis using eq self exact [OF none(1)] by simp
  next
    case drop
    obtain q d where q: "retain_conversations (re_events env) (io_disk io 0) (io_nonce io 0) (re_enum env) (po_log po) keep = (q, d)"
      by fastforce
    note ret = retain_office [OF s ok sub q]
    show ?thesis
    proof (cases q)
      case (Inl f)
      then have "r = Inl f" "po' = po\<lparr>po_log := d\<rparr>" using p drop q unfolding prune_expired_at_def Let_def keep_def [symmetric] by simp_all
      then show ?thesis using ret Inl office_log_swap [OF ok, of po'] by (simp add: same_caps_def)
    next
      case (Inr n)
      define po2 where "po2 = (publish_change (po\<lparr>po_log := d, po_digests := po_digests po |` keep\<rparr>))
        \<lparr>po_first_seen := po_first_seen po |` keep, po_next_expiry := next_expiry (po_first_seen po |` keep), po_touch := po_touch po |` keep\<rparr>"
      have "rewrite_arrivals env io 1 (recount env po2) = (r, po')"
        using p drop q Inr unfolding prune_expired_at_def Let_def keep_def [symmetric] po2_def by simp
      from prune_retained [OF s ok sub _ _ _ po2_def this] show ?thesis using ret Inr exact [OF drop(1)] by simp
    qed
  qed
qed

lemma sorted_key_split:
  assumes "sorted (map f cs)" and "x \<in> set (take k cs)" and "y \<in> set (drop k cs)"
  shows "f x \<le> f y"
proof -
  have "sorted (map f (take k cs) @ map f (drop k cs))" using assms(1) by (metis append_take_drop_id map_append)
  then show ?thesis using assms(2,3) by (simp add: sorted_append)
qed

lemma sorted_drop_oldest:
  fixes f :: "'a \<Rightarrow> nat"
  assumes "distinct xs" and "cs = sort_key f xs"
  shows "set cs = set xs" and "distinct cs" and "\<forall>c \<in> set cs - set (drop k cs). \<forall>d \<in> set (drop k cs). f c \<le> f d"
proof -
  show "set cs = set xs" "distinct cs" using assms by simp_all
  have "c \<in> set (take k cs)" if "c \<in> set cs - set (drop k cs)" for c
    using that by (metis DiffE Un_iff append_take_drop_id set_append)
  moreover have "sorted (map f cs)" using assms(2) by simp
  ultimately show "\<forall>c \<in> set cs - set (drop k cs). \<forall>d \<in> set (drop k cs). f c \<le> f d" by (blast intro: sorted_key_split)
qed

lemma last_dropped:
  assumes "distinct cs" and "sorted (map f cs)"
  shows "set cs - set (drop j cs) = {} \<or>
    (\<exists>i<j. \<exists>c \<in> set cs - set (drop j cs). set (drop i cs) = insert c (set (drop j cs)) \<and> (\<forall>d \<in> set cs - set (drop j cs). f d \<le> f c))"
proof (cases "set cs - set (drop j cs) = {}")
  case False
  have dropped: "set cs - set (drop j cs) = set (take j cs)"
    using assms(1) set_take_disj_set_drop_if_distinct [of cs j j] append_take_drop_id [of j cs]
    by (metis Diff_cancel Un_Diff Un_empty_right Diff_triv order_refl set_append)
  with False have "0 < min j (length cs)" by (auto simp: take_eq_Nil)
  then obtain i where i: "min j (length cs) = Suc i" using gr0_implies_Suc by blast
  then have lt: "i < length cs" "i < j" by simp_all
  have tk: "take j cs = take i cs @ [cs ! i]" using i lt take_Suc_conv_app_nth [of i cs] by (metis min_def take_all_iff nle_le)
  have dr: "drop j cs = drop (Suc i) cs" using i by (metis drop_all min_def nle_le)
  have "cs ! i \<in> set (drop i cs)" by (simp add: Cons_nth_drop_Suc [OF lt(1), symmetric])
  then have "f d \<le> f (cs ! i)" if "d \<in> set (take j cs)" for d
    using that sorted_key_split [OF assms(2), of d i "cs ! i"] unfolding tk by auto
  moreover have "set (drop i cs) = insert (cs ! i) (set (drop j cs))" unfolding dr by (simp add: Cons_nth_drop_Suc [OF lt(1), symmetric])
  moreover have "cs ! i \<in> set (take j cs)" by (simp add: tk)
  ultimately show ?thesis unfolding dropped using lt(2) by blast
qed simp

text \<open>The loop keeps a suffix of the mailboxes in the order of recency.\<close>

lemma evict_office:
  assumes "lists_keys (re_enum env)" and ok: "office_ok env password po"
    and cs: "cs = sort_key (entry_or 0 (po_touch po)) (re_enum env (po_conversations po))"
  shows "\<exists>rb keep touch. evict_mailboxes (dl_log (po_log po)) (po_max_events po) (po_max_bytes po) cs (po_total po) (po_bytes po) (set cs) (po_touch po)
      = Some (rb, keep, touch)
    \<and> keep \<subseteq> po_conversations po \<and> unat rb = mailbox_cost (dl_log (po_log po)) keep \<and> touch \<subseteq>\<^sub>m po_touch po
    \<and> card (mailbox_events (dl_log (po_log po)) keep) \<le> po_max_events po \<and> rb \<le> po_max_bytes po
    \<and> (\<forall>po'. po_conversations po' = keep \<longrightarrow> evicts_oldest po po')"
proof -
  note k = office_okD [OF ok]
  let ?l = "dl_log (po_log po)" and ?f = "entry_or 0 (po_touch po)"
  note le = lists_keysD [OF assms(1) k(7)]
  note so = sorted_drop_oldest [OF conjunct2 [OF le] cs]
  have set: "set cs = conversations ?l" using so(1) le by simp
  have "po_total po = card (mailbox_events ?l (set cs))" "unat (po_bytes po) = mailbox_cost ?l (set cs)"
    using k(5,6) mailbox_events_all [OF k(2)] set by simp_all
  from evict_spec [OF k(2) so(2) this, of "po_max_events po" "po_max_bytes po" "po_touch po"]
  obtain j rb touch where ev: "evict_mailboxes ?l (po_max_events po) (po_max_bytes po) cs (po_total po) (po_bytes po) (set cs) (po_touch po)
      = Some (rb, set (drop j cs), touch)" "unat rb = mailbox_cost ?l (set (drop j cs))"
    "card (mailbox_events ?l (set (drop j cs))) \<le> po_max_events po" "rb \<le> po_max_bytes po"
    "touch = po_touch po |` (- set (take j cs))"
    "\<forall>i<j. card (mailbox_events ?l (set (drop i cs))) > po_max_events po \<or> mailbox_cost ?l (set (drop i cs)) > unat (po_max_bytes po)"
    by blast
  have "set cs - set (drop j cs) = {} \<or> (\<exists>c \<in> set cs - set (drop j cs). (\<forall>d \<in> set cs - set (drop j cs). ?f d \<le> ?f c)
      \<and> over_caps po (mailbox_events ?l (insert c (set (drop j cs)))))"
    using last_dropped [OF so(2), of ?f j] ev(6) cs by (fastforce simp: over_caps_def mailbox_cost_def)
  then have "\<forall>po'. po_conversations po' = set (drop j cs) \<longrightarrow> evicts_oldest po po'"
    using so(3) [of j] set by (simp add: evicts_oldest_def)
  moreover have "set (drop j cs) \<subseteq> po_conversations po" using set set_drop_subset [of j cs] by auto
  moreover have "touch \<subseteq>\<^sub>m po_touch po" unfolding ev(5) by simp
  ultimately show ?thesis using ev(1-4) by blast
qed

lemma enforce_retention_ok:
  assumes s: "relay_sound env io" and ok: "office_ok env password po"
    and p: "enforce_retention env io po = (r, po')"
  shows "r \<noteq> Inl Panicked \<and> office_ok env password po' \<and> same_caps po po'
    \<and> keeps_whole (ran (l_events (dl_log (po_log po)))) po' \<and> po_first_seen po' \<subseteq>\<^sub>m po_first_seen po \<and> evicts_oldest po po'
    \<and> (r = Inr () \<longrightarrow> within_caps po')"
proof (cases "within_caps po")
  case True
  then have "r = Inr ()" "po' = po" using p by (simp_all add: enforce_retention_def within_caps_def)
  then show ?thesis using True ok office_log_swap [OF ok, of po] office_okD(1) [OF ok] by (simp add: same_caps_def evicts_oldest_def)
next
  case False
  let ?l = "dl_log (po_log po)"
  define cs where "cs = sort_key (entry_or 0 (po_touch po)) (re_enum env (conversations ?l))"
  obtain rb keep touch where ev: "evict_mailboxes ?l (po_max_events po) (po_max_bytes po) cs (po_total po) (po_bytes po) (set cs) (po_touch po)
      = Some (rb, keep, touch)" and sub: "keep \<subseteq> po_conversations po" and rb: "unat rb = mailbox_cost ?l keep"
    and touch: "touch \<subseteq>\<^sub>m po_touch po" and caps: "card (mailbox_events ?l keep) \<le> po_max_events po" "rb \<le> po_max_bytes po"
    and oldest: "\<And>po'. po_conversations po' = keep \<Longrightarrow> evicts_oldest po po'"
    using evict_office [OF _ ok cs_def] s unfolding relay_sound_def by blast
  obtain q d where q: "retain_conversations (re_events env) (io_disk io 4) (io_nonce io 4) (re_enum env) (po_log po) keep = (q, d)"
    by fastforce
  note ret = retain_office [OF s ok sub q]
  note run = p False q ev
  show ?thesis
  proof (cases q)
    case (Inl f)
    then have "r = Inl f" "po' = po\<lparr>po_touch := touch, po_log := d\<rparr>"
      using run unfolding enforce_retention_def Let_def cs_def [symmetric] within_caps_def by (simp_all split: if_splits)
    then show ?thesis using ret Inl touch office_log_swap [OF ok, of po'] by (simp add: same_caps_def evicts_oldest_def)
  next
    case (Inr n)
    define po1 where "po1 = (publish_change (po\<lparr>po_touch := touch, po_log := d, po_digests := po_digests po |` keep\<rparr>))
      \<lparr>po_total := po_total po - n, po_bytes := rb, po_first_seen := po_first_seen po |` keep, po_next_expiry := next_expiry (po_first_seen po |` keep)\<rparr>"
    have tot: "n + card (mailbox_events ?l keep) = po_total po" using ret Inr by simp
    then have rw: "rewrite_arrivals env io 5 po1 = (r, po')"
      using run Inr unfolding enforce_retention_def Let_def cs_def [symmetric] within_caps_def po1_def publish_change_def
      by (simp split: if_splits)
    have f: "po_log po1 = d" "po_first_seen po1 = po_first_seen po |` keep" "po_next_expiry po1 = next_expiry (po_first_seen po1)"
      "po_total po1 = card (mailbox_events ?l keep)" "unat (po_bytes po1) = mailbox_cost ?l keep" "same_caps po po1"
      "po_touch po1 \<subseteq>\<^sub>m po_touch po" "po_tick po1 = po_tick po" "po_bytes po1 = rb"
      using tot rb touch by (auto simp: po1_def publish_change_def same_caps_def)
    note or = office_retained [OF ok sub, of po1]
    have "within_caps po1" using f caps by (auto simp: within_caps_def same_caps_def word_le_nat_alt)
    then show ?thesis
      unfolding rewrite_office(2-6,10) [OF rw] using or oldest [of po1] ret Inr f rewrite_office(1) [OF rw] by simp
  qed
qed

section \<open>Accepting an event\<close>

text \<open>The bookkeeping after one event was added to the log.\<close>

lemma office_appended:
  assumes ok: "office_ok env password po" and fit: "unat (po_bytes po) + unat (stored_bytes e) < 2 ^ 64"
    and a: "appends_one (re_crypto env) (re_events env) password (po_log po) e (Inr Appended) (po_log po')"
    and seen: "po_first_seen po' = (if po_first_seen po (conversation_id e) = None then (po_first_seen po)(conversation_id e \<mapsto> s)
        else po_first_seen po)"
    and f: "po_next_expiry po' = next_expiry (po_first_seen po')" "po_total po' = po_total po + 1"
      "po_bytes po' = saturating_add (po_bytes po) (stored_bytes e)"
      "po_tick po' = po_tick po + 1" "po_touch po' = (po_touch po)(conversation_id e \<mapsto> po_tick po + 1)"
  shows "office_ok env password po'" and "ran (l_events (dl_log (po_log po'))) = insert e (ran (l_events (dl_log (po_log po))))"
proof -
  note k = office_okD [OF ok]
  let ?l = "dl_log (po_log po)" and ?l' = "dl_log (po_log po')"
  have v: "event_valid (re_crypto env) e" "fresh_event (l_events ?l) e" and d: "durable_ok (re_crypto env) (re_events env) password (po_log po')"
    and l': "?l' = index_trusted ?l e" using a by (simp_all add: appends_one_def)
  note ix = index_fresh [OF k(2) v, folded l']
  show ran: "ran (l_events ?l') = insert e (ran (l_events ?l))" by (rule ix(3))
  have new: "e \<notin> ran (l_events ?l)"
    using v(2) event_dag_lookup [OF log_wfD(1) [OF k(2)]] by (auto simp: fresh_event_def)
  have fin: "finite (ran (l_events ?l))" by (rule ran_card(2) [OF log_wfD(1) [OF k(2)]])
  have convs: "conversations ?l' = insert (conversation_id e) (conversations ?l)"
    unfolding conversations_wf(1) [OF ix(1)] conversations_wf(1) [OF k(2)] ran by simp
  have "mailbox_cost ?l' (conversations ?l') = unat (stored_bytes e) + mailbox_cost ?l (conversations ?l)"
    unfolding mailbox_cost_def mailbox_events_all [OF k(2)] mailbox_events_all [OF ix(1)] ran using new fin by simp
  moreover have "unat (po_bytes po') = unat (po_bytes po) + unat (stored_bytes e)"
    using f(3) fit by (simp add: unat_saturating_add)
  moreover have "dom (po_first_seen po') = conversations ?l'" using seen convs k(3) by auto
  ultimately show "office_ok env password po'" using d f(1,2,4,5) k(5,6) ran new fin by (auto simp: office_ok_def intro: le_SucI k(8))
qed

lemma fresh_at_add: "fresh_at secs m \<Longrightarrow> unat secs < unat s + 2592000 \<Longrightarrow> fresh_at secs (m(c \<mapsto> s))"
  by (simp add: fresh_at_def)

lemma fresh_at_sub: "fresh_at secs m \<Longrightarrow> m' \<subseteq>\<^sub>m m \<Longrightarrow> fresh_at secs m'"
  by (metis domI fresh_at_def map_le_def)

text \<open>How the mailboxes were chosen that an accepted event \<open>e\<close> pushed out of an office that held \<open>live\<close>: the
  least recently touched ones, not more than needed, and that of \<open>e\<close> only where it exceeds the caps alone.\<close>

definition pushes_out_oldest :: "post_office \<Rightarrow> event set \<Rightarrow> event \<Rightarrow> post_office \<Rightarrow> bool" where
  "pushes_out_oldest po live e po' \<longleftrightarrow>
     (let touched = entry_or 0 (po_touch po); dropped = conversation_id ` insert e live - po_conversations po'
      in (\<forall>c \<in> dropped. \<forall>d \<in> po_conversations po'.
            d = conversation_id e \<or> (c \<noteq> conversation_id e \<and> touched c \<le> touched d))
         \<and> (dropped = {} \<or>
             (\<exists>c \<in> dropped. over_caps po {x \<in> insert e live. conversation_id x \<in> insert c (po_conversations po')}))
         \<and> (conversation_id e \<in> dropped \<longrightarrow> over_caps po {x \<in> insert e live. conversation_id x = conversation_id e}))"

lemma pushes_outI:
  assumes ok: "office_ok env password po" and wf: "log_wf cr (dl_log (po_log po4))" and ev: "evicts_oldest po4 po'"
    and touch: "po_touch po4 = (po_touch po)(conversation_id e \<mapsto> po_tick po + 1)"
    and ran: "ran (l_events (dl_log (po_log po4))) = insert e live" and caps: "same_caps po po4"
  shows "pushes_out_oldest po live e po'"
proof -
  let ?c = "conversation_id e" and ?kept = "po_conversations po'"
  let ?dropped = "conversation_id ` insert e live - ?kept" and ?t = "entry_or 0 (po_touch po)" and ?t4 = "entry_or 0 (po_touch po4)"
  have convs: "po_conversations po4 = conversation_id ` insert e live" unfolding conversations_wf(1) [OF wf] ran ..
  have same: "over_caps po4 E = over_caps po E" for E using caps by (simp add: over_caps_def same_caps_def)
  have t4: "?t4 c = (if c = ?c then po_tick po + 1 else ?t c)" "?t c \<le> po_tick po" for c
    using office_okD(8) [OF ok, of c] by (auto simp: touch entry_or_def split: option.splits)
  have box: "mailbox_events (dl_log (po_log po4)) C = {x \<in> insert e live. conversation_id x \<in> C}" for C
    by (simp add: mailbox_events_def ran)
  note ev' = ev [unfolded evicts_oldest_def Let_def convs same box]
  have first: "d = ?c \<or> (c \<noteq> ?c \<and> ?t c \<le> ?t d)" if c: "c \<in> ?dropped" and d: "d \<in> ?kept" for c d
  proof -
    have "?t4 c \<le> ?t4 d" using ev' c d by blast
    then show ?thesis using t4(1) [of c] t4(1) [of d] t4(2) [of d] by (cases "c = ?c"; cases "d = ?c") auto
  qed
  have alone: "over_caps po {x \<in> insert e live. conversation_id x = ?c}" if own: "?c \<in> ?dropped"
  proof -
    have none: "?kept = {}" using first [OF own] own by blast
    obtain c where c: "c \<in> ?dropped" "?t4 ?c \<le> ?t4 c" "over_caps po {x \<in> insert e live. conversation_id x \<in> insert c ?kept}"
      using ev' own by blast
    then have "c = ?c" using t4(1) [of c] t4(1) [of ?c] t4(2) [of c] by (cases "c = ?c") auto
    with c(3) none show ?thesis by simp
  qed
  show ?thesis unfolding pushes_out_oldest_def Let_def using first alone ev' by blast
qed

lemma pushes_out_before:
  assumes "pushes_out_oldest po1 live e po'" and "same_caps po po1" and "\<And>c. c \<in> conversation_id ` live \<Longrightarrow> po_touch po1 c = po_touch po c"
    and "po_conversations po' \<subseteq> conversation_id ` insert e live"
  shows "pushes_out_oldest po live e po'"
proof -
  let ?c = "conversation_id e"
  have same: "over_caps po1 E = over_caps po E" for E using assms(2) by (simp add: over_caps_def same_caps_def)
  have t: "entry_or 0 (po_touch po1) c = entry_or 0 (po_touch po) c" if "c \<in> conversation_id ` insert e live" "c \<noteq> ?c" for c
    using that assms(3) [of c] by (simp add: entry_or_def)
  have "d = ?c \<or> (c \<noteq> ?c \<and> entry_or 0 (po_touch po) c \<le> entry_or 0 (po_touch po) d)"
    if c: "c \<in> conversation_id ` insert e live - po_conversations po'" and d: "d \<in> po_conversations po'" for c d
  proof (cases "d = ?c")
    case False
    then have "c \<noteq> ?c \<and> entry_or 0 (po_touch po1) c \<le> entry_or 0 (po_touch po1) d"
      using assms(1) c d unfolding pushes_out_oldest_def Let_def by blast
    then show ?thesis using t [of c] t [of d] False c d assms(4) by auto
  qed simp
  then show ?thesis using assms(1) unfolding pushes_out_oldest_def Let_def same by blast
qed

text \<open>What recording an event does: the invariant is kept on every path; an event that was taken up
  leaves the office within its caps, with no mailbox past its age and every other kept whole.\<close>

definition office_records :: "relay_env \<Rightarrow> string \<Rightarrow> post_office \<Rightarrow> event \<Rightarrow> u64 \<Rightarrow> failure + append_outcome \<Rightarrow> post_office \<Rightarrow> bool" where
  "office_records env password po e secs r po' \<longleftrightarrow>
     r \<noteq> Inl Panicked \<and> office_ok env password po' \<and> same_caps po po'
     \<and> (r = Inr Appended \<longrightarrow>
          within_caps po' \<and> fresh_at secs (po_first_seen po') \<and> keeps_whole (insert e (live_events secs po)) po'
          \<and> pushes_out_oldest po (live_events secs po) e po')"

lemma same_caps_trans: "same_caps a b \<Longrightarrow> same_caps b c \<Longrightarrow> same_caps a c"
  by (simp add: same_caps_def)

lemma next_expiry_fresh_conv: "\<not> (case next_expiry m of None \<Rightarrow> False | Some expiry \<Rightarrow> secs \<ge> expiry)
    \<Longrightarrow> (case next_expiry m of None \<Rightarrow> True | Some expiry \<Rightarrow> secs < expiry)"
  by (auto split: option.splits)

lemma record_after_prune:
  assumes s: "relay_sound env io" and ok: "office_ok env password po" and fit: "unat (po_bytes po) + unat (stored_bytes e) < 2 ^ 64"
    and fresh: "fresh_at secs (po_first_seen po)" and seen: "unat secs < unat seen + 2592000"
    and a: "appends_one (re_crypto env) (re_events env) password (po_log po) e (Inr Appended) d"
    and po4: "po4 = po\<lparr>po_arrivals := rl, po_log := d, po_digests := dg, po_inventory := None, po_changes := ch,
        po_first_seen := (if po_first_seen po (conversation_id e) = None then (po_first_seen po)(conversation_id e \<mapsto> seen) else po_first_seen po),
        po_next_expiry := next_expiry (if po_first_seen po (conversation_id e) = None then (po_first_seen po)(conversation_id e \<mapsto> seen) else po_first_seen po),
        po_total := po_total po + 1, po_bytes := saturating_add (po_bytes po) (stored_bytes e), po_tick := po_tick po + 1, po_touch := (po_touch po)(conversation_id e \<mapsto> po_tick po + 1)\<rparr>"
    and en: "enforce_retention env io po4 = (q, po5)"
  shows "q \<noteq> Inl Panicked \<and> office_ok env password po5 \<and> same_caps po po5
    \<and> keeps_whole (insert e (ran (l_events (dl_log (po_log po))))) po5
    \<and> pushes_out_oldest po (ran (l_events (dl_log (po_log po)))) e po5
    \<and> (q = Inr () \<longrightarrow> within_caps po5 \<and> fresh_at secs (po_first_seen po5))"
proof -
  have "appends_one (re_crypto env) (re_events env) password (po_log po) e (Inr Appended) (po_log po4)" using a po4 by simp
  note oa = office_appended [OF ok fit this, of seen]
  have ok4: "office_ok env password po4" and ran: "ran (l_events (dl_log (po_log po4))) = insert e (ran (l_events (dl_log (po_log po))))"
    by (rule oa; simp add: po4)+
  have f4: "fresh_at secs (po_first_seen po4)" using fresh fresh_at_add [OF fresh seen] by (simp add: po4)
  have caps: "same_caps po po4" by (simp add: po4 same_caps_def)
  have "pushes_out_oldest po (ran (l_events (dl_log (po_log po)))) e po5"
    using enforce_retention_ok [OF s ok4 en] by (intro pushes_outI [OF ok office_okD(2) [OF ok4] _ _ ran caps]) (simp_all add: po4)
  with caps enforce_retention_ok [OF s ok4 en] ran f4 show ?thesis by (auto intro: same_caps_trans fresh_at_sub)
qed

lemma prune_if_due:
  assumes s: "relay_sound env io" and ok: "office_ok env password po"
    and p: "(if (case po_next_expiry po of None \<Rightarrow> False | Some expiry \<Rightarrow> unix_seconds now \<ge> expiry)
       then prune_expired_at env io po now else (Inr (), po)) = (r, po')"
  shows "r \<noteq> Inl Panicked \<and> office_ok env password po' \<and> same_caps po po'
    \<and> (r = Inr () \<longrightarrow> fresh_at (unix_seconds now) (po_first_seen po') \<and> ran (l_events (dl_log (po_log po'))) = live_events (unix_seconds now) po
         \<and> (\<forall>c \<in> po_conversations po'. po_touch po' c = po_touch po c))"
proof -
  have "prune_expired_at env io po now = (r, po')"
    using p by (auto simp: prune_expired_at_def split: option.splits if_splits)
  note pe = prune_expired_ok [OF s ok this]
  then have "ran (l_events (dl_log (po_log po'))) = live_events (unix_seconds now) po" if "r = Inr ()"
    using that office_okD(3) [of env password po'] by (simp add: keeps_whole_def live_events_def)
  with pe unexpired_fresh show ?thesis by simp
qed

lemma po_bytes_prune:
  assumes "office_ok env password po" and "office_ok env password po'"
    and "ran (l_events (dl_log (po_log po'))) \<subseteq> ran (l_events (dl_log (po_log po)))"
  shows "unat (po_bytes po') \<le> unat (po_bytes po)"
proof -
  note k = office_okD [OF assms(1)] and k' = office_okD [OF assms(2)]
  show ?thesis unfolding k(6) k'(6) mailbox_cost_def mailbox_events_all [OF k(2)] mailbox_events_all [OF k'(2)]
    using assms(3) ran_card(2) [OF log_wfD(1) [OF k(2)]] by (intro sum_mono2) auto
qed

lemma record_at_appends:
  assumes s: "relay_sound env io" and ok: "office_ok env password po1" and fit: "unat (po_bytes po1) + unat (stored_bytes e) < 2 ^ 64"
    and fresh: "fresh_at secs (po_first_seen po1)" and seen: "unat secs < unat seen + 2592000"
    and new: "new = (po_first_seen po1 (conversation_id e) = None \<and> \<not> log_has (dl_log (po_log po1)) (ev_id e))"
    and a: "appends_one (re_crypto env) (re_events env) password (po_log po1) e (Inr Appended) d"
    and p: "(let po2 = publish_change (po1\<lparr>po_arrivals := rl, po_log := d, po_digests := (po_digests po1)(conversation_id e := None)\<rparr>);
          fs = (po_first_seen po2)(conversation_id e \<mapsto> seen);
          po3 = (if new then po2\<lparr>po_first_seen := fs, po_next_expiry := next_expiry fs\<rparr> else po2);
          po4 = po3\<lparr>po_total := po_total po3 + 1, po_bytes := saturating_add (po_bytes po3) (stored_bytes e),
                    po_tick := po_tick po3 + 1, po_touch := (po_touch po3)(conversation_id e \<mapsto> po_tick po3 + 1)\<rparr>
        in (case enforce_retention env io po4 of (Inl f, po5) \<Rightarrow> (Inl f, po5) | (Inr _, po5) \<Rightarrow> (Inr Appended, po5))) = (r, po')"
  shows "r \<noteq> Inl Panicked \<and> office_ok env password po' \<and> same_caps po1 po'
    \<and> (r = Inr Appended \<longrightarrow> within_caps po' \<and> fresh_at secs (po_first_seen po')
         \<and> keeps_whole (insert e (ran (l_events (dl_log (po_log po1))))) po'
         \<and> pushes_out_oldest po1 (ran (l_events (dl_log (po_log po1)))) e po')"
proof -
  let ?c = "conversation_id e"
  have "\<not> log_has (dl_log (po_log po1)) (ev_id e)" using a by (auto simp: appends_one_def fresh_event_def log_has_def)
  then have new: "new = (po_first_seen po1 ?c = None)" by (simp add: new)
  define fs where "fs = (if po_first_seen po1 ?c = None then (po_first_seen po1)(?c \<mapsto> seen) else po_first_seen po1)"
  define po4 where "po4 = po1\<lparr>po_arrivals := rl, po_log := d, po_digests := (po_digests po1)(?c := None), po_inventory := None,
    po_changes := po_changes po1 + 1, po_first_seen := fs, po_next_expiry := next_expiry fs,
    po_total := po_total po1 + 1, po_bytes := saturating_add (po_bytes po1) (stored_bytes e), po_tick := po_tick po1 + 1,
    po_touch := (po_touch po1)(?c \<mapsto> po_tick po1 + 1)\<rparr>"
  obtain q po5 where q: "enforce_retention env io po4 = (q, po5)" by fastforce
  have "(case enforce_retention env io po4 of (Inl f, po5) \<Rightarrow> (Inl f, po5) | (Inr _, po5) \<Rightarrow> (Inr Appended, po5)) = (r, po')"
  proof (cases new)
    case True
    with p new show ?thesis by (simp add: Let_def publish_change_def po4_def fs_def)
  next
    case False
    then have "po4 = po1\<lparr>po_arrivals := rl, po_log := d, po_digests := (po_digests po1)(?c := None), po_inventory := None,
      po_changes := po_changes po1 + 1, po_total := po_total po1 + 1, po_bytes := saturating_add (po_bytes po1) (stored_bytes e),
      po_tick := po_tick po1 + 1, po_touch := (po_touch po1)(?c \<mapsto> po_tick po1 + 1)\<rparr>"
      using new office_okD(4) [OF ok] by (cases po1) (auto simp: po4_def fs_def)
    with p False show ?thesis by (simp add: Let_def publish_change_def)
  qed
  then have "po' = po5" "(r = Inr Appended) = (q = Inr ())" "(r = Inl Panicked) = (q = Inl Panicked)"
    unfolding q by (auto split: sum.splits)
  with record_after_prune [OF s ok fit fresh seen a po4_def [unfolded fs_def] q] show ?thesis by simp
qed

text \<open>The state after pruning, with the arrival time the office writes down.\<close>

lemma record_pruned:
  assumes s: "relay_sound env io" and ok: "office_ok env password po1" and fit: "unat (po_bytes po1) + unat (stored_bytes e) < 2 ^ 64"
    and fresh: "fresh_at secs (po_first_seen po1)" and seen: "unat secs < unat seen + 2592000"
    and new: "new = (po_first_seen po1 (conversation_id e) = None \<and> \<not> log_has (dl_log (po_log po1)) (ev_id e))"
    and a: "appends_one (re_crypto env) (re_events env) password (po_log po1) e ar d"
    and p: "(case ar of
        Inl err \<Rightarrow> (Inl (Failed err), po1\<lparr>po_arrivals := rl, po_log := d\<rparr>)
      | Inr Duplicate \<Rightarrow> (Inr Duplicate, po1\<lparr>po_arrivals := rl, po_log := d\<rparr>)
      | Inr Appended \<Rightarrow>
          let po2 = publish_change (po1\<lparr>po_arrivals := rl, po_log := d, po_digests := (po_digests po1)(conversation_id e := None)\<rparr>);
              fs = (po_first_seen po2)(conversation_id e \<mapsto> seen);
              po3 = (if new then po2\<lparr>po_first_seen := fs, po_next_expiry := next_expiry fs\<rparr> else po2);
              po4 = po3\<lparr>po_total := po_total po3 + 1, po_bytes := saturating_add (po_bytes po3) (stored_bytes e),
                        po_tick := po_tick po3 + 1, po_touch := (po_touch po3)(conversation_id e \<mapsto> po_tick po3 + 1)\<rparr>
          in (case enforce_retention env io po4 of (Inl f, po5) \<Rightarrow> (Inl f, po5) | (Inr _, po5) \<Rightarrow> (Inr Appended, po5))) = (r, po')"
  shows "r \<noteq> Inl Panicked \<and> office_ok env password po' \<and> same_caps po1 po'
    \<and> (r = Inr Appended \<longrightarrow> within_caps po' \<and> fresh_at secs (po_first_seen po')
         \<and> keeps_whole (insert e (ran (l_events (dl_log (po_log po1))))) po'
         \<and> pushes_out_oldest po1 (ran (l_events (dl_log (po_log po1)))) e po')"
proof (cases "ar = Inr Appended")
  case True
  with p a show ?thesis by (intro record_at_appends [OF s ok fit fresh seen new]) simp_all
next
  case False
  then have "r \<noteq> Inl Panicked \<and> r \<noteq> Inr Appended \<and> po' = po1\<lparr>po_arrivals := rl, po_log := d\<rparr>"
    using p by (auto split: sum.splits append_outcome.splits)
  moreover have "dl_log d = dl_log (po_log po1)" "durable_ok (re_crypto env) (re_events env) password d"
    using a False by (simp_all add: appends_one_def)
  ultimately show ?thesis using office_log_swap(1) [OF ok, of po'] by (simp add: same_caps_def)
qed

lemma arrival_time_fresh:
  assumes "\<not> (case origin of None \<Rightarrow> False | Some seen \<Rightarrow> seen \<le> saturating_sub secs MAX_RELAY_AGE \<or> seen > saturating_add secs 300)"
  shows "unat secs < unat (min (case origin of None \<Rightarrow> secs | Some s \<Rightarrow> s) secs) + 2592000"
  using assms
  by (cases origin) (auto simp: min_def word_le_nat_alt unat_saturating_sub MAX_RELAY_AGE_def not_le)

lemma record_at_ok:
  assumes s: "relay_sound env io" and ok: "office_ok env password po" and fit: "unat (po_bytes po) + unat (stored_bytes e) < 2 ^ 64"
    and p: "record_at_with_arrival env io po e now origin = (r, po')"
  shows "office_records env password po e (unix_seconds now) r po'"
proof (cases "case origin of None \<Rightarrow> False
    | Some seen \<Rightarrow> seen \<le> saturating_sub (unix_seconds now) MAX_RELAY_AGE \<or> seen > saturating_add (unix_seconds now) 300")
  case True
  with p ok show ?thesis by (auto simp: record_at_with_arrival_def office_records_def same_caps_def)
next
  case False
  let ?secs = "unix_seconds now" and ?c = "conversation_id e"
  obtain q po1 where q: "(if (case po_next_expiry po of None \<Rightarrow> False | Some expiry \<Rightarrow> ?secs \<ge> expiry)
       then prune_expired_at env io po now else (Inr (), po)) = (q, po1)" by fastforce
  note pr = prune_if_due [OF s ok q]
  note run = p [unfolded record_at_with_arrival_def Let_def [of ?secs] if_not_P [OF False] q]
  show ?thesis
  proof (cases q)
    case (Inl f)
    then have "r = Inl f" "po' = po1" using run by simp_all
    with Inl pr show ?thesis by (simp add: office_records_def)
  next
    case (Inr u)
    then have live: "ran (l_events (dl_log (po_log po1))) = live_events ?secs po" and ok1: "office_ok env password po1"
      and fresh: "fresh_at ?secs (po_first_seen po1)" using pr by simp_all
    have fit1: "unat (po_bytes po1) + unat (stored_bytes e) < 2 ^ 64"
      using po_bytes_prune [OF ok ok1] live fit by (simp add: live_events_def)
    define new where "new = (po_first_seen po1 ?c = None \<and> \<not> log_has (dl_log (po_log po1)) (ev_id e))"
    define seen where "seen = min (case origin of None \<Rightarrow> ?secs | Some s \<Rightarrow> s) ?secs"
    obtain ar rl d where ar: "append_with_precommit (re_crypto env) (re_events env) (io_disk io 3) (io_nonce io 3 0)
        (\<lambda>rl. if new then record_log_append_durable (re_arrivals env) (io_disk io 2) (io_nonce io 2 0) rl
           \<lparr>ma_conversation = ?c, ma_first_seen = seen\<rparr> else (Inr (), rl)) (po_arrivals po1) (po_log po1) e = (ar, rl, d)"
      using prod_cases3 by blast
    have a1: "appends_one (re_crypto env) (re_events env) password (po_log po1) e ar d"
      using s office_okD(1) [OF ok1] by (intro append_with_precommit_ok [OF _ _ _ ar]) (auto simp: relay_sound_def)
    note run1 = run [unfolded Inr prod.case sum.case Let_def [of ?c] new_def [symmetric] seen_def [symmetric] Let_def [of new] Let_def [of seen] ar]
    have "r \<noteq> Inl Panicked \<and> office_ok env password po' \<and> same_caps po1 po'
      \<and> (r = Inr Appended \<longrightarrow> within_caps po' \<and> fresh_at ?secs (po_first_seen po')
           \<and> keeps_whole (insert e (ran (l_events (dl_log (po_log po1))))) po'
         \<and> pushes_out_oldest po1 (ran (l_events (dl_log (po_log po1)))) e po')"
      by (rule record_pruned [OF s ok1 fit1 fresh arrival_time_fresh [OF False, folded seen_def] new_def a1 run1])
    note res = this [unfolded live]
    have convs1: "po_conversations po1 = conversation_id ` live_events ?secs po"
      unfolding conversations_wf(1) [OF office_okD(2) [OF ok1]] live ..
    have "pushes_out_oldest po (live_events ?secs po) e po'" if "r = Inr Appended"
    proof (rule pushes_out_before [of po1])
      show "po_conversations po' \<subseteq> conversation_id ` insert e (live_events ?secs po)"
        using res that conversations_wf(1) [OF office_okD(2) [of env password po']] by (auto simp: keeps_whole_def)
    qed (use res that pr Inr convs1 in auto)
    with res pr show ?thesis unfolding office_records_def by (auto intro: same_caps_trans)
  qed
qed

section \<open>Opening an office and adopting arrival times\<close>

lemma seed_touch_from:
  fixes tick :: nat
  assumes "\<And>c t. touch c = Some t \<Longrightarrow> t \<le> tick"
    and "foldl (\<lambda>(tick, touch) c. (tick + 1, touch(c \<mapsto> tick + 1))) (tick, touch) cs = (tick', touch')"
  shows "\<forall>c t. touch' c = Some t \<longrightarrow> t \<le> tick'"
  using assms
proof (induction cs arbitrary: tick touch)
  case (Cons x cs)
  have "\<And>c t. (touch(x \<mapsto> tick + 1)) c = Some t \<Longrightarrow> t \<le> tick + 1"
    using Cons.prems(1) by (auto intro: le_SucI split: if_splits)
  from Cons.IH [OF this] Cons.prems(2) show ?case by simp
qed simp

lemma dom_seen_of: "dom (seen_of stored held secs) = held"
  by (auto simp: seen_of_def Let_def split: if_splits)

lemma office_open_ok:
  assumes s: "relay_sound env io"
    and log: "\<And>d. durable_open (re_events env) (io_disk io 2) fresh_log password log_file = Inr d
      \<Longrightarrow> durable_ok (re_crypto env) (re_events env) password d \<and> mailbox_cost (dl_log d) (conversations (dl_log d)) < 2 ^ 64"
    and p: "office_open_at env io fresh_log fresh_arrivals password identity now log_file arrivals_file = Inr po"
  shows "office_ok env password po \<and> fresh_at (unix_seconds now) (po_first_seen po)"
proof -
  let ?secs = "unix_seconds now"
  obtain d where d: "durable_open (re_events env) (io_disk io 2) fresh_log password log_file = Inr d"
    using p by (auto simp: office_open_at_def bind_result_Inr)
  note ok = log [OF d]
  define held where "held = conversations (dl_log d)"
  obtain tick touch where st: "seed_touch (re_enum env held) = (tick, touch)" by fastforce
  obtain stored rl1 where run: "prune_expired_at env io
      \<lparr>po_log = d, po_arrivals = rl1, po_first_seen = seen_of stored held ?secs, po_next_expiry = next_expiry (seen_of stored held ?secs),
       po_identity = identity, po_touch = touch, po_tick = tick, po_total = card (all_event_ids (dl_log d)),
       po_bytes = sum_bytes (kept_events (dl_log d) (re_enum env held)),
       po_max_events = MAX_RELAY_EVENTS, po_slack = RETENTION_SLACK, po_max_bytes = MAX_RELAY_BYTES,
       po_byte_slack = RETENTION_BYTE_SLACK, po_opaque_only = False, po_changes = 0,
       po_inventory = None, po_digests = Map.empty, po_cursors = Map.empty\<rparr> now = (Inr (), po)"
    using p d st by (auto simp: office_open_at_def Let_def held_def split: sum.splits prod.splits)
  define po0 where "po0 = \<lparr>po_log = d, po_arrivals = rl1, po_first_seen = seen_of stored held ?secs,
       po_next_expiry = next_expiry (seen_of stored held ?secs),
       po_identity = identity, po_touch = touch, po_tick = tick, po_total = card (all_event_ids (dl_log d)),
       po_bytes = sum_bytes (kept_events (dl_log d) (re_enum env held)),
       po_max_events = MAX_RELAY_EVENTS, po_slack = RETENTION_SLACK, po_max_bytes = MAX_RELAY_BYTES,
       po_byte_slack = RETENTION_BYTE_SLACK, po_opaque_only = False, po_changes = 0,
       po_inventory = None, po_digests = Map.empty, po_cursors = Map.empty\<rparr>"
  have rc: "recount env po0 = po0" by (simp add: recount_def po0_def held_def)
  have wf: "log_wf (re_crypto env) (dl_log (po_log po0))" using durable_okD(1) [OF conjunct1 [OF ok]] by (simp add: po0_def)
  have "mailbox_cost (dl_log (po_log po0)) (po_conversations po0) < 2 ^ 64" using ok by (simp add: po0_def)
  moreover have "lists_keys (re_enum env)" using s by (simp add: relay_sound_def)
  ultimately have ex: "po_total po0 = card (ran (l_events (dl_log (po_log po0))))"
    "unat (po_bytes po0) = mailbox_cost (dl_log (po_log po0)) (po_conversations po0)"
    using recount_exact [OF _ wf, of env] unfolding rc by blast+
  have "\<forall>c t. touch c = Some t \<longrightarrow> t \<le> tick" using seed_touch_from [of Map.empty 0] st by (simp add: seed_touch_def)
  then have "office_ok env password po0" using ex ok by (simp add: office_ok_def dom_seen_of po0_def held_def)
  from prune_expired_ok [OF s this run [folded po0_def]] show ?thesis by (simp add: unexpired_fresh)
qed

lemma earlier_arrival_dom: "dom changes \<subseteq> dom seen \<Longrightarrow> dom (earlier_arrival seen current changes entry) \<subseteq> dom seen"
  by (auto simp: earlier_arrival_def split: option.splits if_splits)

lemma changes_dom:
  "dom changes \<subseteq> dom seen \<Longrightarrow> dom (foldl (earlier_arrival seen current) changes inventory) \<subseteq> dom seen"
  by (induction inventory arbitrary: changes) (simp_all add: earlier_arrival_dom)

lemma adopt_ok:
  assumes s: "relay_sound env io" and ok: "office_ok env password po"
    and p: "adopt_federated_arrivals env io po inventory now = (r, po')"
  shows "r \<noteq> Inl Panicked \<and> office_ok env password po' \<and> same_caps po po'"
proof -
  define changes where "changes = foldl (earlier_arrival (po_first_seen po) (unix_seconds now)) Map.empty inventory"
  have dom: "dom (po_first_seen po ++ changes) = dom (po_first_seen po)"
    using changes_dom [of Map.empty "po_first_seen po" "unix_seconds now" inventory] by (auto simp: changes_def)
  obtain q rl where q: "record_log_rewrite (re_arrivals env) (io_disk io 2) (io_nonce io 2) (po_arrivals po)
      (map (\<lambda>c. \<lparr>ma_conversation = c, ma_first_seen = the ((po_first_seen po ++ changes) c)\<rparr>) (re_enum env (dom (po_first_seen po)))) = (q, rl)"
    by fastforce
  define po1 where "po1 = (publish_change (po\<lparr>po_arrivals := rl, po_first_seen := po_first_seen po ++ changes\<rparr>))
      \<lparr>po_next_expiry := next_expiry (po_first_seen po ++ changes)\<rparr>"
  have ok1: "office_ok env password po1" "same_caps po po1"
    using ok dom by (simp_all add: office_ok_def same_caps_def po1_def publish_change_def)
  have "(changes = Map.empty \<and> r = Inr () \<and> po' = po) \<or> (\<exists>err. r = Inl (Failed err) \<and> po' = po\<lparr>po_arrivals := rl\<rparr>)
      \<or> prune_expired_at env io po1 now = (r, po')"
    using p unfolding adopt_federated_arrivals_def Let_def changes_def [symmetric] q po1_def
    by (cases q) (auto split: if_splits)
  then show ?thesis
  proof (elim disjE)
    assume "prune_expired_at env io po1 now = (r, po')"
    from prune_expired_ok [OF s ok1(1) this] ok1(2) show ?thesis by (auto intro: same_caps_trans)
  qed (use ok in \<open>auto simp: office_ok_def same_caps_def\<close>)
qed

section \<open>An office in operation\<close>

text \<open>
  The offices that come from a new one by any sequence of its operations, each on a disk of its own and
  whatever its outcome. The premises on sizes say that the stored bytes fit a \<^verbatim>\<open>usize\<close>.
\<close>

inductive office_run :: "relay_env \<Rightarrow> string \<Rightarrow> post_office \<Rightarrow> bool" for env password where
  opened: "relay_sound env io \<Longrightarrow> length fresh_log = 16
    \<Longrightarrow> office_open_at env io fresh_log fresh_arrivals password identity now None arrivals_file = Inr po
    \<Longrightarrow> office_run env password po"
| reopened: "office_run env password po \<Longrightarrow> relay_sound env io \<Longrightarrow> io_disk io 2 = good_disk
    \<Longrightarrow> (\<And>d. durable_open (re_events env) good_disk fresh_log password (Some (rl_file (dl_file (po_log po)))) = Inr d
          \<Longrightarrow> mailbox_cost (dl_log d) (conversations (dl_log d)) < 2 ^ 64)
    \<Longrightarrow> office_open_at env io fresh_log fresh_arrivals password identity now (Some (rl_file (dl_file (po_log po)))) arrivals_file = Inr po'
    \<Longrightarrow> office_run env password po'"
| recorded: "office_run env password po \<Longrightarrow> relay_sound env io \<Longrightarrow> unat (po_bytes po) + unat (stored_bytes e) < 2 ^ 64
    \<Longrightarrow> record_at_with_arrival env io po e now origin = (r, po') \<Longrightarrow> office_run env password po'"
| pruned: "office_run env password po \<Longrightarrow> relay_sound env io \<Longrightarrow> prune_expired_at env io po now = (q, po')
    \<Longrightarrow> office_run env password po'"
| adopted: "office_run env password po \<Longrightarrow> relay_sound env io \<Longrightarrow> adopt_federated_arrivals env io po inventory now = (q, po')
    \<Longrightarrow> office_run env password po'"
| required: "office_run env password po \<Longrightarrow> office_run env password (require_opaque_envelopes po)"
| listed: "office_run env password po \<Longrightarrow> office_run env password (snd (federated_inventory env now po))"
| rotated: "office_run env password po \<Longrightarrow> office_run env password (advance_federation_cursor po peer c)"

lemma office_run_ok:
  assumes "office_run env password po"
  shows "office_ok env password po"
  using assms
proof (induction rule: office_run.induct)
  case (opened io fresh_log fresh_arrivals identity now arrivals_file po)
  have "durable_ok (re_crypto env) (re_events env) password d \<and> mailbox_cost (dl_log d) (conversations (dl_log d)) < 2 ^ 64"
    if "durable_open (re_events env) (io_disk io 2) fresh_log password None = Inr d" for d
    using durable_create_ok [OF opened(2) that] by (auto simp: mailbox_cost_def mailbox_events_def event_log_default_def)
  from office_open_ok [OF opened(1) this opened(3)] show ?case by blast
next
  case (reopened po io fresh_log fresh_arrivals identity now arrivals_file po')
  have "durable_ok (re_crypto env) (re_events env) password d \<and> mailbox_cost (dl_log d) (conversations (dl_log d)) < 2 ^ 64"
    if d: "durable_open (re_events env) (io_disk io 2) fresh_log password (Some (rl_file (dl_file (po_log po)))) = Inr d" for d
    using reopen_ok [OF office_okD(1) [OF reopened.IH], of fresh_log] d reopened(3,4) by auto
  from office_open_ok [OF reopened(2) this reopened(5)] show ?case by blast
next
  case (recorded po io e now origin r po')
  then show ?case using record_at_ok by (simp add: office_records_def)
next
  case (pruned po io now q po')
  then show ?case using prune_expired_ok by blast
next
  case (adopted po io inventory now q po')
  then show ?case using adopt_ok by blast
next
  case (listed po now)
  then show ?case by (auto simp: federated_inventory_def office_ok_def Let_def split: option.splits)
qed (simp_all add: office_ok_def require_opaque_envelopes_def advance_federation_cursor_def Let_def)

section \<open>Election\<close>

text \<open>Every peer that knows the same eligible set elects the same office, in whatever order it lists them.\<close>

lemma elect_from_least:
  "elect_from cr best ps \<in> insert best (set ps)
    \<and> (\<forall>q \<in> insert best (set ps). ascii (user_id cr (elect_from cr best ps)) \<le> ascii (user_id cr q))"
proof (induction ps arbitrary: best)
  case (Cons p ps)
  show ?case
  proof (cases "ascii (user_id cr p) < ascii (user_id cr best)")
    case True
    with Cons [of p] show ?thesis by (auto intro: order.trans less_imp_le)
  next
    case False
    with Cons [of best] show ?thesis by (auto intro: order.trans)
  qed
qed simp

lemma elect_least:
  assumes "elect cr ps = Some p"
  shows "p \<in> set ps" and "\<And>q. q \<in> set ps \<Longrightarrow> ascii (user_id cr p) \<le> ascii (user_id cr q)"
  using assms elect_from_least [of cr "hd ps" "tl ps"] by (cases ps; fastforce simp: elect_def)+

lemma elect_agrees:
  assumes "set ps = set qs" and "inj_on (\<lambda>p. ascii (user_id cr p)) (set ps)"
  shows "elect cr ps = elect cr qs"
proof (cases ps)
  case Nil
  then show ?thesis using assms(1) by (simp add: elect_def)
next
  case (Cons p ps')
  obtain a b where a: "elect cr ps = Some a" and b: "elect cr qs = Some b"
    using Cons assms(1) by (cases qs) (simp_all add: elect_def)
  have "ascii (user_id cr a) = ascii (user_id cr b)"
    using elect_least [OF a] elect_least [OF b] assms(1) by (simp add: order.antisym)
  then show ?thesis using a b elect_least(1) [OF a] elect_least(1) [OF b] assms by (auto dest: inj_onD)
qed

text \<open>
  C40. The post office keeps its storage bounded and its books exact: however it got to its present state,
  ingesting an event never panics, the running totals equal the number and the size of the events it
  holds, and it has an arrival time for exactly the mailboxes it holds. When the event is reported as
  appended the office holds at most its caps plus their slack, no mailbox is as old as thirty days, the mailboxes that
  remain hold all their unexpired events, and any that were pushed out were the least recently
  touched, no more than needed, the event's own only if it exceeds the caps alone.
\<close>

theorem relay_storage_bounded:
  assumes run: "office_run env password po" and sound: "relay_sound env io"
    and fits: "unat (po_bytes po) + unat (stored_bytes e) < 2 ^ 64"
    and ingest: "office_ingest env io now po e = (r, po')"
  shows "r \<noteq> Inl Panicked
    \<and> po_total po' = card (ran (l_events (dl_log (po_log po'))))
    \<and> unat (po_bytes po') = (\<Sum>x\<in>ran (l_events (dl_log (po_log po'))). unat (stored_bytes x))
    \<and> dom (po_first_seen po') = po_conversations po'
    \<and> (r = Inr Appended \<longrightarrow>
         po_total po' \<le> po_max_events po + po_slack po
         \<and> unat (po_bytes po') \<le> unat (po_max_bytes po) + unat (po_byte_slack po)
         \<and> (\<forall>c s. po_first_seen po' c = Some s \<longrightarrow> unat (unix_seconds now) < unat s + 30 * 24 * 60 * 60)
         \<and> keeps_whole (insert e (live_events (unix_seconds now) po)) po'
         \<and> pushes_out_oldest po (live_events (unix_seconds now) po) e po')"
proof -
  have ok: "office_ok env password po" by (rule office_run_ok [OF run])
  have res: "office_records env password po e (unix_seconds now) r po'"
  proof (cases "po_opaque_only po \<and> \<not> envelope_shape e")
    case True
    with ingest ok show ?thesis by (auto simp: office_ingest_def office_records_def same_caps_def)
  next
    case False
    with ingest show ?thesis by (intro record_at_ok [OF sound ok fits]) (auto simp: office_ingest_def record_at_def)
  qed
  then have ok': "office_ok env password po'" by (simp add: office_records_def)
  note k = office_okD [OF ok']
  have "unat (po_bytes po') = (\<Sum>x\<in>ran (l_events (dl_log (po_log po'))). unat (stored_bytes x))"
    unfolding k(6) mailbox_cost_def mailbox_events_all [OF k(2)] ..
  then show ?thesis using res k(3,5) by (auto simp: office_records_def within_caps_def same_caps_def fresh_at_def)
qed

text \<open>A new office on a disk without faults that takes up a message.\<close>

definition demo_relay :: relay_env where
  "demo_relay =
     \<lparr>re_crypto = demo_env, re_events = demo_event_store,
      re_arrivals = \<lparr>pbkdf2_hmac = (\<lambda>password salt rounds. 7), store_encrypt = (\<lambda>key nonce bs. Some bs),
        store_decrypt = (\<lambda>key nonce ct. Some ct), bincode_record = (\<lambda>a. Inr [1]),
        parse_record = (\<lambda>bs. Inl [])\<rparr>,
      re_enum = demo_enum\<rparr>"

definition demo_io :: relay_io where
  "demo_io = \<lparr>io_disk = (\<lambda>_. good_disk), io_nonce = (\<lambda>_ _. replicate 12 0)\<rparr>"

lemma demo_relay_sound: "relay_sound demo_relay demo_io"
  by (simp add: relay_sound_def demo_relay_def demo_io_def demo_event_store_coded demo_enum_lists)

lemma no_mailboxes [simp]:
  "conversations event_log_default = {}" "l_events event_log_default = Map.empty" "seen_of stored {} secs = Map.empty"
  by (auto simp: conversations_def event_log_default_def seen_of_def Let_def)

lemma demo_enum_none: "demo_enum {} = []"
  by (simp add: demo_enum_def)

lemma demo_office:
  "\<exists>po. office_run demo_relay ''pw'' po \<and> dl_log (po_log po) = event_log_default \<and> \<not> rl_poisoned (dl_file (po_log po))
    \<and> \<not> rl_poisoned (po_arrivals po) \<and> po_first_seen po = Map.empty \<and> po_next_expiry po = None \<and> \<not> po_opaque_only po
    \<and> po_total po = 0 \<and> po_bytes po = 0 \<and> po_max_events po = 100000 \<and> po_max_bytes po = 536870912"
proof -
  have "\<exists>po. office_open_at demo_relay demo_io (replicate 16 2) (replicate 16 3) ''pw'' identity 0 None None = Inr po
      \<and> dl_log (po_log po) = event_log_default \<and> \<not> rl_poisoned (dl_file (po_log po)) \<and> \<not> rl_poisoned (po_arrivals po)
      \<and> po_first_seen po = Map.empty \<and> po_next_expiry po = None \<and> \<not> po_opaque_only po
      \<and> po_total po = 0 \<and> po_bytes po = 0 \<and> po_max_events po = 100000 \<and> po_max_bytes po = 536870912"
    by (simp add: office_open_at_def demo_relay_def demo_io_def durable_open_def record_log_open_def open_with_visitor_def
        good_disk_def key_from_password_def demo_event_store_def Let_def record_log_rewrite_def arrival_records_def seed_touch_def
        prune_expired_at_def next_expiry_def no_mailboxes demo_enum_none kept_events_def sum_bytes_def all_event_ids_def
        MAX_RELAY_EVENTS_def MAX_RELAY_BYTES_def)
  then show ?thesis using office_run.opened [OF demo_relay_sound] by (metis length_replicate)
qed

lemma demo_ingest:
  assumes po: "dl_log (po_log po) = event_log_default" "\<not> rl_poisoned (dl_file (po_log po))" "\<not> rl_poisoned (po_arrivals po)"
    "po_first_seen po = Map.empty" "po_next_expiry po = None" "\<not> po_opaque_only po" "po_total po = 0" "po_bytes po = 0"
    "po_max_events po = 100000" "po_max_bytes po = 536870912"
  shows "\<exists>po'. office_ingest demo_relay demo_io 0 po (demo_message 1 [] 1) = (Inr Appended, po')"
proof -
  let ?e = "demo_message 1 [] 1"
  have v: "validate demo_env event_log_default ?e = Inr True"
    using demo_log_exists [of 1 1] by (auto simp: log_append_def split: sum.splits bool.splits)
  have bytes: "stored_bytes ?e = 257"
    by (simp add: stored_bytes_def demo_message_def event_new_def Let_def saturating_add_def saturating_mul_def canonical_parents_def)
  obtain rl where rl: "append_with (re_arrivals demo_relay) good_disk True (replicate 12 0) (po_arrivals po)
      \<lparr>ma_conversation = ConversationId 1, ma_first_seen = 0\<rparr> = (Inr (), rl)"
    using po(3) by (simp add: append_with_def encode_record_def encrypt_data_def STORE_NONCE_SIZE_def demo_relay_def good_disk_def Let_def)
  obtain rf where rf: "append_with demo_event_store good_disk False (replicate 12 0) (dl_file (po_log po)) ?e = (Inr (), rf)"
    using good_append [of demo_event_store "dl_file (po_log po)" ?e "replicate 12 0" False] demo_storable [of 1] po(2) by auto
  show ?thesis
    using po v rl rf bytes
    by (simp add: office_ingest_def record_at_def record_at_with_arrival_def append_with_precommit_def record_log_append_def
        record_log_append_durable_def enforce_retention_def publish_change_def unix_seconds_def log_has_def Let_def
        demo_relay_def demo_io_def saturating_add_def)
qed

theorem relay_storage_bounded_witness:
  "\<exists>po po'. office_run demo_relay ''pw'' po
    \<and> office_ingest demo_relay demo_io 0 po (demo_message 1 [] 1) = (Inr Appended, po')
    \<and> po_total po' = card (ran (l_events (dl_log (po_log po')))) \<and> po_total po' \<le> po_max_events po + po_slack po
    \<and> keeps_whole (insert (demo_message 1 [] 1) (live_events (unix_seconds 0) po)) po'"
proof -
  obtain po where po: "office_run demo_relay ''pw'' po" "dl_log (po_log po) = event_log_default" "\<not> rl_poisoned (dl_file (po_log po))"
    "\<not> rl_poisoned (po_arrivals po)" "po_first_seen po = Map.empty" "po_next_expiry po = None" "\<not> po_opaque_only po"
    "po_total po = 0" "po_bytes po = 0" "po_max_events po = 100000" "po_max_bytes po = 536870912" using demo_office by blast
  obtain po' where po': "office_ingest demo_relay demo_io 0 po (demo_message 1 [] 1) = (Inr Appended, po')"
    using demo_ingest [OF po(2-11)] by blast
  have "unat (po_bytes po) + unat (stored_bytes (demo_message 1 [] 1)) < 2 ^ 64"
    using po(9) unat_lt2p [of "stored_bytes (demo_message 1 [] 1)"] by simp
  from relay_storage_bounded [OF po(1) demo_relay_sound this po'] po(1) po' show ?thesis by blast
qed

end
