(* ===== verification/Spec2Isabelle.thy ===== *)
theory Spec2Isabelle
  imports Channel_Model Post_Office
begin

text \<open>
  Mesh-Talk is a peer-to-peer messenger. Its core crate (\<^verbatim>\<open>src/crates/mesh-talk-core/src\<close>)
  keeps conversations as signed, content-addressed events in a log that peers reconcile; direct
  messages are sealed with a double ratchet and channel messages with per-sender chains. The log is
  kept in an encrypted file, and a post office holds opaque envelopes for peers that are offline.
  This development models those parts as functions on explicit states and proves what makes them
  correct.

  \<^bold>\<open>Parts and theories\<close>

  \<^item> \<open>Mesh_Prelude\<close>: machine integers as words, checked and saturating arithmetic, byte orders, and
    the list and map lemmas the other theories share. A \<^verbatim>\<open>[u8; 32]\<close> is a 256-bit word.
  \<^item> \<open>Event_Model\<close>: identities and signed events (\<^verbatim>\<open>identity/device.rs\<close>, \<^verbatim>\<open>eventlog/event.rs\<close>).
  \<^item> \<open>Event_Store\<close>: the validating in-memory log (\<^verbatim>\<open>eventlog/store.rs\<close>). Its specification
    \<open>index_of\<close> gives every index as a function of the events held; appending refines adding an
    event, so the log does not depend on arrival order.
  \<^item> \<open>Event_Order\<close>: the causal order by in-degrees (\<^verbatim>\<open>eventlog/order.rs\<close>), as a
    \<open>partial_function\<close> shown to return on every input.
  \<^item> \<open>Event_Sync\<close>: request, response and follow-up of a reconciliation, frame packing, fingerprints
    and work budgets (\<^verbatim>\<open>eventlog/sync.rs\<close>, \<^verbatim>\<open>eventlog/sync/network.rs\<close>). The locales
    \<open>sync_store\<close> and \<open>sync_pair\<close> state what the exchange needs of a store; they are interpreted on
    the event log.
  \<^item> \<open>Double_Ratchet\<close>: direct-message sessions (\<^verbatim>\<open>ratchet/kdf.rs\<close>, \<^verbatim>\<open>ratchet/state.rs\<close>).
  \<^item> \<open>Sender_Key\<close>: the chain a channel member sends on and the one others receive on, with its
    device-local byte form (\<^verbatim>\<open>channel/sender_key.rs\<close>, \<^verbatim>\<open>channel/sender_key/checkpoint.rs\<close>).
  \<^item> \<open>Sealed_Box\<close>: payloads sealed to one recipient and the group keys wrapped that way
    (\<^verbatim>\<open>dm.rs\<close>, \<^verbatim>\<open>channel/crypto.rs\<close>).
  \<^item> \<open>Channel_Model\<close>: a member's view of a channel (\<^verbatim>\<open>channel/model.rs\<close>,
    \<^verbatim>\<open>channel/model/checkpoint.rs\<close>, \<^verbatim>\<open>channel/history.rs\<close>), with the admission the host puts in
    front of a send (\<^verbatim>\<open>node/channels.rs\<close>, \<^verbatim>\<open>node/outgoing_message.rs\<close>). Names and memberships are
    two interpretations of the locale \<open>lww_register\<close>.
  \<^item> \<open>Record_Log\<close>: the encrypted append-only file to its bytes (\<^verbatim>\<open>storage/record_log.rs\<close>,
    \<^verbatim>\<open>storage/encryption.rs\<close>); each access takes a \<open>disk\<close> that says which step of it fails.
  \<^item> \<open>Durable_Log\<close>: the event log beside such a file (\<^verbatim>\<open>eventlog/persist/legacy.rs\<close>): opening,
    appending, batches, retention, profile compaction and the fingerprint cache. \<open>durable_ops\<close> gives
    it the store interface of \<open>Event_Sync\<close>; \<open>durable_history\<close> is every way to a state.
  \<^item> \<open>Relay_Mailbox\<close>: pairwise mailboxes and the envelopes in them (\<^verbatim>\<open>postoffice/opaque.rs\<close>).
  \<^item> \<open>Post_Office\<close>: the relay (\<^verbatim>\<open>postoffice/mod.rs\<close>, \<^verbatim>\<open>postoffice/election.rs\<close>) on a durable log and
    a second record file with arrival times: expiry, eviction, inventory and election;
    \<open>office_run\<close> is every way to a state.

  \<^bold>\<open>How the code is rendered\<close>

  Structs are records with the fields of the source, enums are datatypes, \<^verbatim>\<open>HashMap\<close> is a map,
  \<^verbatim>\<open>HashSet\<close> a set and \<^verbatim>\<open>BTreeSet\<close> an ascending list. A method that changes its object returns the
  new state; one that may fail after changing it returns the result beside the state. Errors and
  panics are values. Random bytes are arguments, and so is the order in which a \<^verbatim>\<open>HashMap\<close> lists its
  keys (\<open>lists_keys\<close>: every key once). Third-party crates (SHA-256, Ed25519, X25519, HKDF, PBKDF2,
  AES-GCM, hex, bincode) are fields of the records \<open>crypto_env\<close>, \<open>ratchet_env\<close>, \<open>box_env\<close>,
  \<open>channel_env\<close>, \<open>store_env\<close>, \<open>mailbox_env\<close> and \<open>relay_env\<close>; what a theorem relies on is a named
  hypothesis (\<open>signatures_verify\<close>, \<open>no_event_collision\<close>, \<open>aead_opens\<close>, \<open>dh_agrees\<close>, \<open>box_coded\<close>,
  \<open>header_coded\<close>, \<open>store_coded\<close>, \<open>storable\<close>, \<open>mailbox_coded\<close>, \<open>relay_sound\<close>), met by the
  computable instances the witnesses use. Loops are recursive functions with a termination proof,
  except the traversal of \<open>Event_Order\<close>, for which returning is proved. No fuel is used anywhere.

  \<^bold>\<open>What is shown\<close>

  The log stays well formed whatever it is offered; replicas with equal events are equal; two
  replicas converge by reconciliation, also in bounded rounds, and no peer can break a replica.
  Sessions and channels deliver what was sealed, out of order and with losses within the documented
  windows, hand out each key once, bound what they buffer, and reload what they stored. Members
  agree on a channel whatever order its changes arrive in, an open invitation confines its holder,
  and a departure lasts. What a record file acknowledged is read back after any disk faults, damage
  is reported, a durable log reopens as it was, its maintenance does not panic and compacting it
  loses only superseded profiles; durable replicas converge as those in memory do. Mail for a
  mailbox opens to what was wrapped, and the post office stays within its caps and their slack with
  exact totals.

  \<^bold>\<open>Not modelled\<close>

  Sockets, timers and tasks (\<^verbatim>\<open>transport\<close>, \<^verbatim>\<open>discovery/service.rs\<close>, \<^verbatim>\<open>node\<close>), the SQL repositories
  (\<^verbatim>\<open>eventlog/repository\<close>, \<^verbatim>\<open>storage/database.rs\<close>, the indexed post office), key stores and account
  files, the desktop shell, the command-line and integration crates. They are I/O around the parts
  above; of \<^verbatim>\<open>node\<close> only the admission of a channel send is modelled, and the account authority it
  asks is three answers given to it. A file holds what was written to it: losing unsynced data in a
  power cut is outside the model. Wiping memory and the texts that errors print have no counterpart.
\<close>

end
